theory Spec2Isabelle
  imports Main "HOL-Library.Word"
begin

unbundle bit_operations_syntax

section \<open>Persistent List: value model of list.go\<close>

text \<open>
  The Go library implements a persistent list as a hybrid of a contiguous buffer
  (\<open>listSliceNode\<close>) and a radix trie with fan-out 32 (\<open>listBranchNode\<close>,
  \<open>listLeafNode\<close>).  This section embeds the node and list operations as functions on
  values.  A Go panic (index out of range, nil dereference, failed assertion) is an
  \<open>Inl\<close> result.  Go's \<open>int\<close> is modelled as an unbounded \<open>int\<close>: indices and
  origins stay far below \<open>2^63\<close> for any list that fits in memory.  Shifts and masks on
  \<open>int\<close> are the two's complement ones (\<open>drop_bit\<close> is the arithmetic shift).
  The zero value of the element type \<open>T\<close> is \<open>0\<close> of class \<open>zero\<close>.
\<close>

datatype error = OutOfBounds | NilPointer | AssertionFailure | TypeAssertion | Diverges

definition listSliceThreshold :: int where
  "listSliceThreshold = 32"

definition listNodeBits :: nat where
  "listNodeBits = 5"

definition listNodeSize :: nat where
  "listNodeSize = 2 ^ listNodeBits"

definition listNodeMask :: int where
  "listNodeMask = int listNodeSize - 1"

text \<open>
  A node is a branch (depth \<open>d\<close> and 32 child slots, \<open>None\<close> for nil), a leaf (32 value
  slots and the \<open>occupied\<close> bitmap) or a slice node (the element buffer).
\<close>

datatype 'a listNode =
    listBranchNode nat "'a listNode option list"
  | listLeafNode "'a list" "32 word"
  | listSliceNode "'a list"

record 'a List =
  root :: "'a listNode"
  origin :: int
  size_l :: int

text \<open>The expression \<open>(index >> (d * listNodeBits)) & listNodeMask\<close> used by every node method.\<close>

definition slot :: "nat \<Rightarrow> int \<Rightarrow> nat" where
  "slot d index = nat (drop_bit (d * listNodeBits) index AND listNodeMask)"

text \<open>Reading a child slot of a branch; a slot outside the array counts as nil.\<close>

definition child_at :: "'a listNode option list \<Rightarrow> nat \<Rightarrow> 'a listNode option" where
  "child_at cs i = (if i < length cs then cs ! i else None)"

definition is_slice :: "'a listNode \<Rightarrow> bool" where
  "is_slice n = (case n of listSliceNode es \<Rightarrow> True | _ \<Rightarrow> False)"

fun depth :: "'a listNode \<Rightarrow> nat" where
  "depth (listBranchNode d cs) = d"
| "depth (listLeafNode cs occ) = 0"
| "depth (listSliceNode es) = 0"

definition newListNode :: "nat \<Rightarrow> 'a::zero listNode" where
  "newListNode d =
     (if d = 0 then listLeafNode (replicate listNodeSize 0) 0
      else listBranchNode d (replicate listNodeSize None))"

lemma child_at_size [termination_simp]:
  "child_at cs i = Some c \<Longrightarrow> size c < Suc (size_list (size_option size) cs)"
proof -
  assume a: "child_at cs i = Some c"
  then have i: "i < length cs" and c: "cs ! i = Some c"
    by (auto simp: child_at_def split: if_splits)
  have "Some c \<in> set cs" using i c by (metis nth_mem)
  then have "size_option size (Some c) \<le> size_list (size_option size) cs"
    by (rule size_list_estimation') simp
  then show ?thesis by simp
qed

fun node_get :: "'a listNode \<Rightarrow> int \<Rightarrow> error + 'a" where
  "node_get (listBranchNode d cs) index =
     (case child_at cs (slot d index) of
        None \<Rightarrow> Inl NilPointer
      | Some c \<Rightarrow> node_get c index)"
| "node_get (listLeafNode cs occ) index =
     (if slot 0 index < length cs then Inr (cs ! slot 0 index) else Inl OutOfBounds)"
| "node_get (listSliceNode es) index =
     (if 0 \<le> index \<and> index < int (length es) then Inr (es ! nat index) else Inl OutOfBounds)"

text \<open>
  \<open>weight\<close> bounds the recursion of \<open>set\<close>: a nil child is replaced by a fresh node one
  level lower, which is not a subterm of the receiver.
\<close>

fun weight :: "'a listNode \<Rightarrow> nat" where
  "weight (listBranchNode d cs) =
     Suc (d + sum_list (map (\<lambda>c. case c of None \<Rightarrow> 0 | Some n \<Rightarrow> weight n) cs))"
| "weight (listLeafNode cs occ) = 0"
| "weight (listSliceNode es) = 0"

lemma weight_newListNode: "weight (newListNode (d - 1) :: 'a::zero listNode) \<le> d"
  by (cases d) (simp_all add: newListNode_def)

lemma weight_child:
  "child_at cs i = Some c \<Longrightarrow>
   weight c \<le> sum_list (map (\<lambda>c. case c of None \<Rightarrow> 0 | Some n \<Rightarrow> weight n) cs)"
proof -
  assume a: "child_at cs i = Some c"
  then have "Some c \<in> set cs"
    by (metis child_at_def nth_mem option.distinct(1))
  then have "(\<lambda>c. case c of None \<Rightarrow> 0 | Some n \<Rightarrow> weight n) (Some c)
      \<in> set (map (\<lambda>c. case c of None \<Rightarrow> 0 | Some n \<Rightarrow> weight n) cs)"
    unfolding set_map by (rule imageI)
  then have "(\<lambda>c. case c of None \<Rightarrow> 0 | Some n \<Rightarrow> weight n) (Some c)
      \<le> sum_list (map (\<lambda>c. case c of None \<Rightarrow> 0 | Some n \<Rightarrow> weight n) cs)"
    by (rule member_le_sum_list) simp
  then show ?thesis by simp
qed

function node_set :: "'a::zero listNode \<Rightarrow> int \<Rightarrow> 'a \<Rightarrow> bool \<Rightarrow> error + 'a listNode" where
  "node_set (listBranchNode d cs) index v mutable =
     (let idx = slot d index;
          child = (case child_at cs idx of None \<Rightarrow> newListNode (d - 1) | Some c \<Rightarrow> c)
      in case node_set child index v mutable of
           Inl e \<Rightarrow> Inl e
         | Inr c' \<Rightarrow> Inr (listBranchNode d (cs[idx := Some c'])))"
| "node_set (listLeafNode cs occ) index v mutable =
     (let idx = slot 0 index
      in Inr (listLeafNode (cs[idx := v]) (occ OR push_bit idx 1)))"
| "node_set (listSliceNode es) index v mutable =
     (if 0 \<le> index \<and> index < int (length es)
      then Inr (listSliceNode (es[nat index := v]))
      else Inl OutOfBounds)"
  by pat_completeness auto
termination
proof (relation "measure (\<lambda>(n, index, v, mutable). weight n)", goal_cases)
  case 1
  show ?case by simp
next
  case (2 d cs index v mutable idx child)
  show ?case
  proof (cases "child_at cs idx")
    case None
    with 2 show ?thesis
      using weight_newListNode [of d, where ?'a = 'a]
      by (simp add: less_Suc_eq_le le_SucI trans_le_add1)
  next
    case (Some c)
    with 2 show ?thesis
      using weight_child [OF Some]
      by (simp add: less_Suc_eq_le trans_le_add2)
  qed
qed


subsection \<open>Go primitives used by the node methods\<close>

text \<open>
  \<open>copy(dst[k:], src)\<close> on a destination of fixed length, and the two functions of
  \<open>math/bits\<close> (32 for the zero word).
\<close>

definition copy_at :: "'b list \<Rightarrow> nat \<Rightarrow> 'b list \<Rightarrow> 'b list" where
  "copy_at dst k src = take k dst @ take (length dst - k) src @ drop (k + length src) dst"

definition TrailingZeros32 :: "32 word \<Rightarrow> nat" where
  "TrailingZeros32 x = length (takeWhile (\<lambda>i. \<not> bit x i) [0..<32])"

definition LeadingZeros32 :: "32 word \<Rightarrow> nat" where
  "LeadingZeros32 x = length (takeWhile (\<lambda>i. \<not> bit x i) (rev [0..<32]))"

subsection \<open>containsBefore, containsAfter, deleteBefore, deleteAfter\<close>

fun containsBefore :: "'a listNode \<Rightarrow> int \<Rightarrow> bool" where
  "containsBefore (listBranchNode d cs) index =
     (let idx = slot d index
      in if list_ex (\<lambda>c. c \<noteq> None) (take idx cs) then True
         else (case child_at cs idx of
                 None \<Rightarrow> False
               | Some c \<Rightarrow> containsBefore c index))"
| "containsBefore (listLeafNode cs occ) index = (TrailingZeros32 occ < slot 0 index)"
| "containsBefore (listSliceNode es) index = True"

fun containsAfter :: "'a listNode \<Rightarrow> int \<Rightarrow> bool" where
  "containsAfter (listBranchNode d cs) index =
     (let idx = slot d index
      in if list_ex (\<lambda>c. c \<noteq> None) (drop (idx + 1) cs) then True
         else (case child_at cs idx of
                 None \<Rightarrow> False
               | Some c \<Rightarrow> containsAfter c index))"
| "containsAfter (listLeafNode cs occ) index =
     (31 - int (LeadingZeros32 occ) > int (slot 0 index))"
| "containsAfter (listSliceNode es) index = True"

text \<open>
  The slots kept by \<open>deleteBefore\<close>: in place (\<open>mutable\<close>) the loop
  \<open>for i := 0; i < idx; i++\<close> clears the slots; otherwise a fresh array receives
  \<open>copy(other.children[idx:], n.children[idx:])\<close>.  \<open>deleteAfter\<close> is symmetric.
\<close>

definition kept_from :: "bool \<Rightarrow> 'b \<Rightarrow> nat \<Rightarrow> 'b list \<Rightarrow> 'b list" where
  "kept_from mutable z idx cs =
     (if mutable then fold (\<lambda>i a. a[i := z]) [0..<idx] cs
      else copy_at (replicate listNodeSize z) idx (drop idx cs))"

definition kept_upto :: "bool \<Rightarrow> 'b \<Rightarrow> nat \<Rightarrow> 'b list \<Rightarrow> 'b list" where
  "kept_upto mutable z idx cs =
     (if mutable then fold (\<lambda>i a. a[i := z]) [idx + 1..<length cs] cs
      else copy_at (replicate listNodeSize z) 0 (take (idx + 1) cs))"


lemma length_fold_update [simp]: "length (fold (\<lambda>i a. a[i := z]) is cs) = length cs"
  by (induction "is" arbitrary: cs) simp_all

lemma nth_fold_update:
  "j < length cs \<Longrightarrow>
   fold (\<lambda>i a. a[i := z]) is cs ! j = (if j \<in> set is then z else cs ! j)"
  by (induction "is" arbitrary: cs) (auto simp: nth_list_update)

lemma length_copy_at [simp]: "k \<le> length dst \<Longrightarrow> length (copy_at dst k src) = length dst"
  by (auto simp: copy_at_def)

lemma nth_copy_at:
  "k \<le> length dst \<Longrightarrow> j < length dst \<Longrightarrow>
   copy_at dst k src ! j = (if k \<le> j \<and> j < k + length src then src ! (j - k) else dst ! j)"
  by (auto simp: copy_at_def nth_append min_def)

lemma nth_copy_at_replicate:
  assumes "j < length (copy_at (replicate n z) k src)"
  shows "copy_at (replicate n z) k src ! j = z \<or>
         (k \<le> j \<and> j - k < length src \<and> copy_at (replicate n z) k src ! j = src ! (j - k))"
proof (cases "j < min k n")
  case True
  then show ?thesis by (simp add: copy_at_def nth_append)
next
  case False
  note F = this
  show ?thesis
  proof (cases "j - min k n < min (n - k) (length src)")
    case True
    with F show ?thesis by (auto simp: copy_at_def nth_append min_def split: if_splits)
  next
    case False
    with F assms have "copy_at (replicate n z) k src ! j = z"
      by (auto simp: copy_at_def nth_append)
    then show ?thesis by simp
  qed
qed

lemma child_at_kept_from:
  assumes "child_at (kept_from mutable None idx cs) j = Some c"
  shows "child_at cs j = Some c"
proof (cases mutable)
  case True
  with assms show ?thesis
    by (auto simp: child_at_def kept_from_def nth_fold_update split: if_splits)
next
  case False
  with assms have j: "j < length (copy_at (replicate listNodeSize None) idx (drop idx cs))"
    and c: "copy_at (replicate listNodeSize None) idx (drop idx cs) ! j = Some c"
    by (auto simp: child_at_def kept_from_def split: if_splits)
  from nth_copy_at_replicate [OF j] c
  have "idx \<le> j \<and> j - idx < length (drop idx cs) \<and> drop idx cs ! (j - idx) = Some c"
    by auto
  then show ?thesis by (auto simp: child_at_def)
qed

lemma child_at_kept_upto:
  assumes "child_at (kept_upto mutable None idx cs) j = Some c"
  shows "child_at cs j = Some c"
proof (cases mutable)
  case True
  with assms show ?thesis
    by (auto simp: child_at_def kept_upto_def nth_fold_update split: if_splits)
next
  case False
  with assms have j: "j < length (copy_at (replicate listNodeSize None) 0 (take (idx + 1) cs))"
    and c: "copy_at (replicate listNodeSize None) 0 (take (idx + 1) cs) ! j = Some c"
    by (auto simp: child_at_def kept_upto_def split: if_splits)
  from nth_copy_at_replicate [OF j] c
  have "j < length (take (idx + 1) cs) \<and> take (idx + 1) cs ! j = Some c"
    by auto
  then show ?thesis by (auto simp: child_at_def)
qed

function deleteBefore :: "'a::zero listNode \<Rightarrow> int \<Rightarrow> bool \<Rightarrow> 'a listNode" where
  "deleteBefore (listBranchNode d cs) index mutable =
     (if \<not> containsBefore (listBranchNode d cs) index then listBranchNode d cs
      else
        let idx = slot d index;
            others = kept_from mutable None idx cs
        in case child_at others idx of
             None \<Rightarrow> listBranchNode d others
           | Some c \<Rightarrow> listBranchNode d (others[idx := Some (deleteBefore c index mutable)]))"
| "deleteBefore (listLeafNode cs occ) index mutable =
     (if \<not> containsBefore (listLeafNode cs occ) index then listLeafNode cs occ
      else
        let idx = slot 0 index
        in listLeafNode (kept_from mutable 0 idx cs) (occ AND NOT (push_bit idx 1 - 1)))"
| "deleteBefore (listSliceNode es) index mutable = listSliceNode es"
  by pat_completeness auto
termination
proof (relation "measure (\<lambda>(n, index, mutable). size n)", goal_cases)
  case 1
  show ?case by simp
next
  case (2 d cs index mutable idx others c)
  then have "child_at cs idx = Some c"
    by (auto dest: child_at_kept_from)
  then show ?case
    using child_at_size [of cs idx c] by simp
qed

function deleteAfter :: "'a::zero listNode \<Rightarrow> int \<Rightarrow> bool \<Rightarrow> 'a listNode" where
  "deleteAfter (listBranchNode d cs) index mutable =
     (if \<not> containsAfter (listBranchNode d cs) index then listBranchNode d cs
      else
        let idx = slot d index;
            others = kept_upto mutable None idx cs
        in case child_at others idx of
             None \<Rightarrow> listBranchNode d others
           | Some c \<Rightarrow> listBranchNode d (others[idx := Some (deleteAfter c index mutable)]))"
| "deleteAfter (listLeafNode cs occ) index mutable =
     (if \<not> containsAfter (listLeafNode cs occ) index then listLeafNode cs occ
      else
        let idx = slot 0 index
        in listLeafNode (kept_upto mutable 0 idx cs) (occ AND (push_bit (idx + 1) 1 - 1)))"
| "deleteAfter (listSliceNode es) index mutable = listSliceNode es"
  by pat_completeness auto
termination
proof (relation "measure (\<lambda>(n, index, mutable). size n)", goal_cases)
  case 1
  show ?case by simp
next
  case (2 d cs index mutable idx others c)
  then have "child_at cs idx = Some c"
    by (auto dest: child_at_kept_upto)
  then show ?case
    using child_at_size [of cs idx c] by simp
qed


subsection \<open>toTrie\<close>

text \<open>
  The two loops of \<open>toTrie\<close> cut a sequence into runs of \<open>listNodeSize\<close>
  (\<open>for i := 0; i < n; i += listNodeSize\<close>); the outer \<open>for len(nodes) > 1\<close> loop
  wraps layers of branches until one root remains.  \<open>nodes[0]\<close> on an empty sequence
  would panic.
\<close>

function chunks :: "'b list \<Rightarrow> 'b list list" where
  "chunks xs = (if xs = [] then [] else take listNodeSize xs # chunks (drop listNodeSize xs))"
  by pat_completeness auto
termination
  by (relation "measure length") (auto simp: listNodeSize_def listNodeBits_def)

declare chunks.simps [simp del]

definition leaf_of_chunk :: "'a::zero list \<Rightarrow> 'a listNode" where
  "leaf_of_chunk chunk =
     listLeafNode (copy_at (replicate listNodeSize 0) 0 chunk) (push_bit (length chunk) 1 - 1)"

definition branch_of_chunk :: "nat \<Rightarrow> 'a listNode list \<Rightarrow> 'a listNode" where
  "branch_of_chunk d chunk =
     listBranchNode d (copy_at (replicate listNodeSize None) 0 (map Some chunk))"

lemma length_chunks: "length (chunks xs) = (length xs + (listNodeSize - 1)) div listNodeSize"
proof (induction xs rule: chunks.induct)
  case (1 xs)
  show ?case
  proof (cases "xs = []")
    case True
    then show ?thesis by (simp add: chunks.simps listNodeSize_def listNodeBits_def)
  next
    case False
    note ne = this
    have eq: "chunks xs = take listNodeSize xs # chunks (drop listNodeSize xs)"
      using ne by (subst chunks.simps) simp
    show ?thesis
    proof (cases "length xs \<le> listNodeSize")
      case True
      with ne have "0 < length xs \<and> length xs \<le> 32"
        by (simp add: listNodeSize_def listNodeBits_def)
      then have "(length xs + 31) div 32 = Suc 0" by arith
      with True 1 [OF ne] eq show ?thesis
        by (simp add: listNodeSize_def listNodeBits_def)
    next
      case False
      with 1 [OF ne] eq show ?thesis
        by (simp add: listNodeSize_def listNodeBits_def)
    qed
  qed
qed

function wrap_layers :: "'a listNode list \<Rightarrow> nat \<Rightarrow> error + 'a listNode" where
  "wrap_layers nodes d =
     (if length nodes > 1 then wrap_layers (map (branch_of_chunk d) (chunks nodes)) (d + 1)
      else (case nodes of [] \<Rightarrow> Inl OutOfBounds | n # _ \<Rightarrow> Inr n))"
  by pat_completeness auto
termination
  by (relation "measure (\<lambda>(nodes, d). length nodes)")
     (auto simp: length_chunks listNodeSize_def listNodeBits_def)

declare wrap_layers.simps [simp del]

definition toTrie :: "'a::zero list \<Rightarrow> bool \<Rightarrow> error + 'a listNode" where
  "toTrie elements mutable =
     (if length elements = 0 then Inr (listLeafNode (replicate listNodeSize 0) 0)
      else wrap_layers (map leaf_of_chunk (chunks elements)) 1)"

subsection \<open>List operations\<close>

definition clone :: "'a List \<Rightarrow> 'a List" where
  "clone l = l"

definition Len :: "'a List \<Rightarrow> int" where
  "Len l = size_l l"

definition cap :: "'a List \<Rightarrow> int" where
  "cap l = push_bit (depth (root l) * listNodeBits) 1"

definition Get :: "'a List \<Rightarrow> int \<Rightarrow> error + 'a" where
  "Get l index =
     (if index < 0 \<or> index \<ge> size_l l then Inl OutOfBounds
      else case root l of
             listSliceNode es \<Rightarrow> node_get (listSliceNode es) index
           | _ \<Rightarrow> node_get (root l) (origin l + index))"

definition List_set :: "'a::zero List \<Rightarrow> int \<Rightarrow> 'a \<Rightarrow> bool \<Rightarrow> error + 'a List" where
  "List_set l index v mutable =
     (if index < 0 \<or> index \<ge> size_l l then Inl OutOfBounds
      else case root l of
             listSliceNode es \<Rightarrow>
               (let other = (if mutable then l else clone l)
                in case node_set (listSliceNode es) index v mutable of
                     Inl e \<Rightarrow> Inl e
                   | Inr r \<Rightarrow> Inr (other\<lparr>root := r\<rparr>))
           | _ \<Rightarrow>
               (let other = (if mutable then l else clone l)
                in case node_set (root l) (origin l + index) v mutable of
                     Inl e \<Rightarrow> Inl e
                   | Inr r \<Rightarrow> Inr (other\<lparr>root := r\<rparr>)))"

definition Set :: "'a::zero List \<Rightarrow> int \<Rightarrow> 'a \<Rightarrow> error + 'a List" where
  "Set l index v = List_set l index v False"

text \<open>The part of \<open>append\<close> after the slice case ("standard trie-based append logic").\<close>

definition append_trie :: "'a::zero List \<Rightarrow> 'a \<Rightarrow> bool \<Rightarrow> error + 'a List" where
  "append_trie l v mutable =
     (let other = (if mutable then l else clone l);
          other = (if size_l other + origin other \<ge> cap l
                   then other\<lparr>root := listBranchNode (depth (root other) + 1)
                                        ((replicate listNodeSize None)[0 := Some (root other)])\<rparr>
                   else other);
          other = other\<lparr>size_l := size_l other + 1\<rparr>
      in case node_set (root other) (origin other + size_l other - 1) v mutable of
           Inl e \<Rightarrow> Inl e
         | Inr r \<Rightarrow> Inr (other\<lparr>root := r\<rparr>))"

definition List_append :: "'a::zero List \<Rightarrow> 'a \<Rightarrow> bool \<Rightarrow> error + 'a List" where
  "List_append l v mutable =
     (case root l of
        listSliceNode es \<Rightarrow>
          (if size_l l < listSliceThreshold then
             (let newElements = (copy_at (replicate (nat (size_l l + 1)) 0) 0 es);
                  other = (if mutable then l else clone l)
              in if nat (size_l l) < length newElements
                 then Inr (other\<lparr>root := listSliceNode (newElements[nat (size_l l) := v]),
                                   size_l := size_l other + 1\<rparr>)
                 else Inl OutOfBounds)
           else
             (case toTrie es True of
                Inl e \<Rightarrow> Inl e
              | Inr trieRoot \<Rightarrow>
                  append_trie \<lparr>root = trieRoot, origin = 0, size_l = size_l l\<rparr> v mutable))
      | _ \<Rightarrow> append_trie l v mutable)"

definition Append :: "'a::zero List \<Rightarrow> 'a \<Rightarrow> error + 'a List" where
  "Append l v = List_append l v False"

definition prepend_trie :: "'a::zero List \<Rightarrow> 'a \<Rightarrow> bool \<Rightarrow> error + 'a List" where
  "prepend_trie l v mutable =
     (let other = (if mutable then l else clone l);
          other = (if origin other = 0
                   then (let newRoot = listBranchNode (depth (root other) + 1)
                                 ((replicate listNodeSize None)[listNodeSize - 1 := Some (root other)])
                         in other\<lparr>root := newRoot,
                                  origin := origin other
                                    + push_bit (depth newRoot * listNodeBits) (int listNodeSize - 1)\<rparr>)
                   else other);
          other = other\<lparr>size_l := size_l other + 1, origin := origin other - 1\<rparr>
      in case node_set (root other) (origin other) v mutable of
           Inl e \<Rightarrow> Inl e
         | Inr r \<Rightarrow> Inr (other\<lparr>root := r\<rparr>))"

definition List_prepend :: "'a::zero List \<Rightarrow> 'a \<Rightarrow> bool \<Rightarrow> error + 'a List" where
  "List_prepend l v mutable =
     (case root l of
        listSliceNode es \<Rightarrow>
          (if size_l l < listSliceThreshold then
             (let newElements = (replicate (nat (size_l l + 1)) 0)[0 := v];
                  newElements = copy_at newElements 1 es;
                  other = (if mutable then l else clone l)
              in if 0 < length newElements
                 then Inr (other\<lparr>root := listSliceNode newElements, size_l := size_l other + 1\<rparr>)
                 else Inl OutOfBounds)
           else
             (case toTrie es True of
                Inl e \<Rightarrow> Inl e
              | Inr trieRoot \<Rightarrow>
                  prepend_trie \<lparr>root = trieRoot, origin = 0, size_l = size_l l\<rparr> v mutable))
      | _ \<Rightarrow> prepend_trie l v mutable)"

definition Prepend :: "'a::zero List \<Rightarrow> 'a \<Rightarrow> error + 'a List" where
  "Prepend l v = List_prepend l v False"

text \<open>
  The contraction loop of \<open>slice\<close>: while the root is deeper than 1 and the first and last
  index fall into the same child, that child becomes the root.  A nil child makes the
  next \<open>other.root.depth()\<close> panic.
\<close>

fun contract :: "'a listNode \<Rightarrow> int \<Rightarrow> int \<Rightarrow> error + ('a listNode \<times> int)" where
  "contract (listBranchNode d cs) org sz =
     (if d > 1 then
        (let i = slot d org;
             j = slot d (org + sz - 1)
         in if i \<noteq> j then Inr (listBranchNode d cs, org)
            else (case child_at cs i of
                    None \<Rightarrow> Inl NilPointer
                  | Some c \<Rightarrow> contract c (org - push_bit (d * listNodeBits) (int i)) sz))
      else Inr (listBranchNode d cs, org))"
| "contract n org sz = Inr (n, org)"

definition List_slice :: "'a::zero List \<Rightarrow> int \<Rightarrow> int \<Rightarrow> bool \<Rightarrow> error + 'a List" where
  "List_slice l start end mutable =
     (if start < 0 \<or> start > size_l l then Inl OutOfBounds
      else if end < 0 \<or> end > size_l l then Inl OutOfBounds
      else if start > end then Inl OutOfBounds
      else if start = 0 \<and> end = size_l l then Inr l
      else case root l of
             listSliceNode es \<Rightarrow>
               (if nat end \<le> length es
                then Inr \<lparr>root = listSliceNode (take (nat (end - start)) (drop (nat start) es)),
                         origin = 0, size_l = end - start\<rparr>
                else Inl OutOfBounds)
           | _ \<Rightarrow>
               (let other = (if mutable then l else clone l);
                    other = other\<lparr>origin := origin l + start, size_l := end - start\<rparr>
                in case contract (root other) (origin other) (size_l other) of
                     Inl e \<Rightarrow> Inl e
                   | Inr (r, org) \<Rightarrow>
                       (let r = deleteBefore r org mutable;
                            r = deleteAfter r (org + size_l other - 1) mutable
                        in Inr (other\<lparr>root := r, origin := org\<rparr>))))"

definition Slice :: "'a::zero List \<Rightarrow> int \<Rightarrow> int \<Rightarrow> error + 'a List" where
  "Slice l start end = List_slice l start end False"

fun append_all :: "'a::zero List \<Rightarrow> 'a list \<Rightarrow> error + 'a List" where
  "append_all l [] = Inr l"
| "append_all l (v # vs) =
     (case List_append l v True of Inl e \<Rightarrow> Inl e | Inr l' \<Rightarrow> append_all l' vs)"

definition NewList :: "'a::zero list \<Rightarrow> error + 'a List" where
  "NewList values =
     (if int (length values) > listSliceThreshold
      then append_all \<lparr>root = listLeafNode (replicate listNodeSize 0) 0, origin = 0, size_l = 0\<rparr>
             values
      else Inr \<lparr>root = listSliceNode (copy_at (replicate (length values) 0) 0 values),
               origin = 0, size_l = int (length values)\<rparr>)"


subsection \<open>ListIterator\<close>

text \<open>
  The iterator keeps the list, the current index, a stack of 32 (node, child index)
  elements and the stack depth.  The loop of \<open>seek\<close> has no case for a slice node below
  the root and would spin forever there; the model reports that as \<open>Diverges\<close>.
\<close>

record 'a ListIterator =
  itr_list :: "'a List"
  itr_index :: int
  itr_stack :: "('a listNode option \<times> nat) list"
  itr_depth :: nat

definition Done :: "'a ListIterator \<Rightarrow> bool" where
  "Done itr = (itr_index itr < 0 \<or> itr_index itr \<ge> Len (itr_list itr))"

definition top_weight :: "'a ListIterator \<Rightarrow> nat" where
  "top_weight itr =
     (if itr_depth itr < length (itr_stack itr)
      then (case fst (itr_stack itr ! itr_depth itr) of None \<Rightarrow> 0 | Some n \<Rightarrow> size n)
      else 0)"

function seek_loop :: "'a ListIterator \<Rightarrow> int \<Rightarrow> error + 'a ListIterator" where
  "seek_loop itr index =
     (if itr_depth itr \<ge> length (itr_stack itr) then Inl OutOfBounds
      else case fst (itr_stack itr ! itr_depth itr) of
             None \<Rightarrow> Inl NilPointer
           | Some (listBranchNode d cs) \<Rightarrow>
               (let idx = slot d (origin (itr_list itr) + index);
                    st = (itr_stack itr)[itr_depth itr := (Some (listBranchNode d cs), idx)];
                    child = child_at cs idx
                in if itr_depth itr + 1 \<ge> length st then Inl OutOfBounds
                   else seek_loop
                          (itr\<lparr>itr_stack := st[itr_depth itr + 1 := (child, 0)],
                               itr_depth := itr_depth itr + 1\<rparr>) index)
           | Some (listLeafNode cs occ) \<Rightarrow>
               Inr (itr\<lparr>itr_stack := (itr_stack itr)[itr_depth itr :=
                           (Some (listLeafNode cs occ), slot 0 (origin (itr_list itr) + index))]\<rparr>)
           | Some (listSliceNode es) \<Rightarrow> Inl Diverges)"
  by pat_completeness auto
termination
proof (relation "measure (\<lambda>(itr, index). top_weight itr)", goal_cases)
  case 1
  show ?case by simp
next
  case (2 itr index x2 d cs idx st child)
  then have top: "top_weight itr = size (listBranchNode d cs)"
    by (simp add: top_weight_def)
  have "top_weight (itr\<lparr>itr_stack := st[itr_depth itr + 1 := (child, 0)],
            itr_depth := itr_depth itr + 1\<rparr>) = (case child of None \<Rightarrow> 0 | Some n \<Rightarrow> size n)"
    using 2 by (simp add: top_weight_def)
  moreover have "(case child of None \<Rightarrow> 0 | Some n \<Rightarrow> size n) < size (listBranchNode d cs)"
  proof (cases child)
    case None
    then show ?thesis by simp
  next
    case (Some c)
    with 2 have "child_at cs idx = Some c" by simp
    from child_at_size [OF this] Some show ?thesis by simp
  qed
  ultimately show ?case using top by simp
qed

declare seek_loop.simps [simp del]

definition seek :: "'a ListIterator \<Rightarrow> int \<Rightarrow> error + 'a ListIterator" where
  "seek itr index = (if is_slice (root (itr_list itr)) then Inr itr else seek_loop itr index)"

definition Seek :: "'a ListIterator \<Rightarrow> int \<Rightarrow> error + 'a ListIterator" where
  "Seek itr index =
     (if index < 0 \<or> index \<ge> Len (itr_list itr) then Inl OutOfBounds
      else if 0 < length (itr_stack itr)
      then seek (itr\<lparr>itr_index := index,
                      itr_stack := (itr_stack itr)[0 := (Some (root (itr_list itr)), 0)],
                      itr_depth := 0\<rparr>) index
      else Inl OutOfBounds)"

definition First :: "'a ListIterator \<Rightarrow> error + 'a ListIterator" where
  "First itr = (if Len (itr_list itr) \<noteq> 0 then Seek itr 0 else Inr itr)"

definition Iterator :: "'a List \<Rightarrow> error + 'a ListIterator" where
  "Iterator l =
     First \<lparr>itr_list = l, itr_index = 0, itr_stack = replicate 32 (None, 0), itr_depth = 0\<rparr>"

text \<open>The loop \<open>for ; itr.depth > 0 && itr.stack[itr.depth].index >= listNodeSize-1; itr.depth--\<close>.\<close>

fun pop_depth :: "('b \<times> nat) list \<Rightarrow> nat \<Rightarrow> nat" where
  "pop_depth st 0 = 0"
| "pop_depth st (Suc d) = (if snd (st ! Suc d) \<ge> listNodeSize - 1 then pop_depth st d else Suc d)"

definition Next :: "'a::zero ListIterator \<Rightarrow> error + ('a ListIterator \<times> int \<times> 'a)" where
  "Next itr =
     (if Done itr then Inr (itr, - 1, 0)
      else case root (itr_list itr) of
             listSliceNode es \<Rightarrow>
               (case node_get (listSliceNode es) (itr_index itr) of
                  Inl e \<Rightarrow> Inl e
                | Inr v \<Rightarrow> Inr (itr\<lparr>itr_index := itr_index itr + 1\<rparr>, itr_index itr, v))
           | _ \<Rightarrow>
               (if itr_depth itr \<ge> length (itr_stack itr) then Inl OutOfBounds
                else case itr_stack itr ! itr_depth itr of
                       (None, ei) \<Rightarrow> Inl NilPointer
                     | (Some (listLeafNode cs occ), ei) \<Rightarrow>
                         (if ei < length cs then
                            (let v = cs ! ei;
                                 itr' = itr\<lparr>itr_index := itr_index itr + 1\<rparr>
                             in if Done itr' then Inr (itr', itr_index itr, v)
                                else (case seek (itr'\<lparr>itr_depth :=
                                                   pop_depth (itr_stack itr') (itr_depth itr')\<rparr>)
                                             (itr_index itr') of
                                        Inl e \<Rightarrow> Inl e
                                      | Inr itr'' \<Rightarrow> Inr (itr'', itr_index itr, v)))
                          else Inl OutOfBounds)
                     | (Some _, ei) \<Rightarrow> Inl TypeAssertion))"


lemma seek_loop_keeps:
  "seek_loop itr index = Inr itr' \<Longrightarrow>
   itr_list itr' = itr_list itr \<and> itr_index itr' = itr_index itr
   \<and> length (itr_stack itr') = length (itr_stack itr)"
proof (induction itr index arbitrary: itr' rule: seek_loop.induct)
  case (1 itr index)
  have range: "\<not> length (itr_stack itr) \<le> itr_depth itr"
    using "1.prems" by (subst (asm) seek_loop.simps) (auto split: if_splits)
  show ?case
  proof (cases "fst (itr_stack itr ! itr_depth itr)")
    case None
    with "1.prems" range show ?thesis
      by (subst (asm) seek_loop.simps) simp
  next
    case (Some n)
    show ?thesis
    proof (cases n)
      case (listBranchNode d cs)
      define idx where "idx = slot d (origin (itr_list itr) + index)"
      define st where "st = (itr_stack itr)[itr_depth itr := (Some (listBranchNode d cs), idx)]"
      define child where "child = child_at cs idx"
      define nxt where "nxt = itr\<lparr>itr_stack := st[itr_depth itr + 1 := (child, 0)],
                                   itr_depth := itr_depth itr + 1\<rparr>"
      have unf: "seek_loop itr index =
            (if itr_depth itr + 1 \<ge> length st then Inl OutOfBounds else seek_loop nxt index)"
        using range Some listBranchNode
        by (subst seek_loop.simps) (simp add: Let_def idx_def st_def child_def nxt_def)
      with "1.prems" have r: "\<not> itr_depth itr + 1 \<ge> length st" "seek_loop nxt index = Inr itr'"
        by (auto split: if_splits)
      have "itr_list itr' = itr_list nxt \<and> itr_index itr' = itr_index nxt
            \<and> length (itr_stack itr') = length (itr_stack nxt)"
        using "1.IH" [OF range Some listBranchNode idx_def st_def child_def r(1)] r(2)
        by (simp add: nxt_def)
      then show ?thesis by (simp add: nxt_def st_def)
    next
      case (listLeafNode cs occ)
      with "1.prems" range Some show ?thesis
        by (subst (asm) seek_loop.simps) auto
    next
      case (listSliceNode es)
      with "1.prems" range Some show ?thesis
        by (subst (asm) seek_loop.simps) auto
    qed
  qed
qed

lemma seek_keeps:
  "seek itr index = Inr itr' \<Longrightarrow>
   itr_list itr' = itr_list itr \<and> itr_index itr' = itr_index itr
   \<and> length (itr_stack itr') = length (itr_stack itr)"
  by (auto simp: seek_def split: if_splits dest: seek_loop_keeps)

lemma Next_advances:
  assumes "Next itr = Inr (itr', i, v)" and "\<not> Done itr"
  shows "itr_list itr' = itr_list itr \<and> itr_index itr' = itr_index itr + 1
         \<and> i = itr_index itr"
  using assms
  by (auto simp: Next_def Let_def
           split: if_splits listNode.splits sum.splits option.splits prod.splits
           dest!: seek_keeps)

subsection \<open>ContainsFunc\<close>

text \<open>
  Modelled from the spec: \<open>assert\<close> is defined outside the files at hand; a violated
  assertion is a programming error that terminates the caller (a panic).
\<close>

definition assert :: "bool \<Rightarrow> error + unit" where
  "assert condition = (if condition then Inr () else Inl AssertionFailure)"

function contains_loop ::
  "'a::zero ListIterator \<Rightarrow> 'a \<Rightarrow> ('a \<Rightarrow> 'a \<Rightarrow> bool) \<Rightarrow> error + bool" where
  "contains_loop itr v equal =
     (if Done itr then Inr False
      else case Next itr of
             Inl e \<Rightarrow> Inl e
           | Inr (itr', i, x) \<Rightarrow> if equal x v then Inr True else contains_loop itr' v equal)"
  by pat_completeness auto
termination
proof (relation "measure (\<lambda>(itr, v, equal). nat (Len (itr_list itr) - itr_index itr))", goal_cases)
  case 1
  show ?case by simp
next
  case (2 itr v equal r itr' p i x)
  then have "Next itr = Inr (itr', i, x)" by simp
  from Next_advances [OF this 2(1)] 2(1) show ?case
    by (simp add: Done_def)
qed

declare contains_loop.simps [simp del]

text \<open>The equality function is a Go func value; \<open>None\<close> is nil.\<close>

definition ContainsFunc ::
  "'a::zero List \<Rightarrow> 'a \<Rightarrow> ('a \<Rightarrow> 'a \<Rightarrow> bool) option \<Rightarrow> error + bool" where
  "ContainsFunc l v equal =
     (if size_l l = 0 then Inr False
      else case assert (equal \<noteq> None) of
             Inl e \<Rightarrow> Inl e
           | Inr u \<Rightarrow>
               (case equal of
                  None \<Rightarrow> Inl NilPointer
                | Some eq \<Rightarrow>
                    (case root l of
                       listSliceNode es \<Rightarrow> Inr (list_ex (\<lambda>e. eq e v) es)
                     | _ \<Rightarrow>
                         (case Iterator l of
                            Inl e \<Rightarrow> Inl e
                          | Inr itr \<Rightarrow> contains_loop itr v eq))))"

section \<open>Queue: value model of queue.go\<close>

text \<open>A queue holds two list pointers (\<open>None\<close> for nil) and its size; a queue pointer may be nil.\<close>

record 'a Queue =
  front_q :: "'a List option"
  back_q :: "'a List option"
  size_q :: int

function reverse_loop :: "'a::zero ListIterator \<Rightarrow> 'a list \<Rightarrow> int \<Rightarrow> error + 'a list" where
  "reverse_loop itr vals idx =
     (if Done itr then Inr vals
      else case Next itr of
             Inl e \<Rightarrow> Inl e
           | Inr (itr', i, v) \<Rightarrow>
               if 0 \<le> idx \<and> idx < int (length vals)
               then reverse_loop itr' (vals[nat idx := v]) (idx - 1)
               else Inl OutOfBounds)"
  by pat_completeness auto
termination
proof (relation "measure (\<lambda>(itr, vals, idx). nat (Len (itr_list itr) - itr_index itr))", goal_cases)
  case 1
  show ?case by simp
next
  case (2 itr vals idx r itr' p i v)
  then have "Next itr = Inr (itr', i, v)" by simp
  from Next_advances [OF this 2(1)] 2(1) show ?case
    by (simp add: Done_def)
qed

declare reverse_loop.simps [simp del]

definition reverseList :: "'a::zero List option \<Rightarrow> error + 'a List" where
  "reverseList lo =
     (case lo of
        None \<Rightarrow> NewList []
      | Some l \<Rightarrow>
          if Len l = 0 then NewList []
          else (case Iterator l of
                  Inl e \<Rightarrow> Inl e
                | Inr itr \<Rightarrow>
                    (case reverse_loop itr (replicate (nat (Len l)) 0) (Len l - 1) of
                       Inl e \<Rightarrow> Inl e
                     | Inr vals \<Rightarrow> NewList vals)))"

definition NewQueue :: "'a::zero list \<Rightarrow> error + 'a Queue" where
  "NewQueue values =
     (if length values = 0 then
        (case NewList [] of
           Inl e \<Rightarrow> Inl e
         | Inr f \<Rightarrow> (case NewList [] of
                       Inl e \<Rightarrow> Inl e
                     | Inr b \<Rightarrow> Inr \<lparr>front_q = Some f, back_q = Some b, size_q = 0\<rparr>))
      else
        (case NewList values of
           Inl e \<Rightarrow> Inl e
         | Inr f \<Rightarrow> (case NewList [] of
                       Inl e \<Rightarrow> Inl e
                     | Inr b \<Rightarrow> Inr \<lparr>front_q = Some f, back_q = Some b,
                                     size_q = int (length values)\<rparr>)))"

definition Queue_Len :: "'a Queue option \<Rightarrow> int" where
  "Queue_Len qo = (case qo of None \<Rightarrow> 0 | Some q \<Rightarrow> size_q q)"

definition Empty :: "'a Queue option \<Rightarrow> bool" where
  "Empty qo = (case qo of None \<Rightarrow> True | Some q \<Rightarrow> size_q q = 0)"

definition normalize :: "'a::zero Queue option \<Rightarrow> error + 'a Queue option" where
  "normalize qo =
     (case qo of
        None \<Rightarrow> Inr None
      | Some q \<Rightarrow>
          if size_q q = 0 then Inr (Some q)
          else if (case front_q q of None \<Rightarrow> False | Some f \<Rightarrow> Len f > 0) then Inr (Some q)
          else if (case back_q q of None \<Rightarrow> True | Some b \<Rightarrow> Len b = 0) then Inr (Some q)
          else (case reverseList (back_q q) of
                  Inl e \<Rightarrow> Inl e
                | Inr f \<Rightarrow>
                    (case NewList [] of
                       Inl e \<Rightarrow> Inl e
                     | Inr b \<Rightarrow> Inr (Some \<lparr>front_q = Some f, back_q = Some b, size_q = size_q q\<rparr>))))"

definition Peek :: "'a::zero Queue option \<Rightarrow> error + ('a \<times> bool)" where
  "Peek qo =
     (case qo of
        None \<Rightarrow> Inr (0, False)
      | Some q \<Rightarrow>
          if size_q q = 0 then Inr (0, False)
          else (case normalize (Some q) of
                  Inl e \<Rightarrow> Inl e
                | Inr None \<Rightarrow> Inl NilPointer
                | Inr (Some norm) \<Rightarrow>
                    (case front_q norm of
                       None \<Rightarrow> Inr (0, False)
                     | Some f \<Rightarrow>
                         if Len f > 0
                         then (case Get f 0 of Inl e \<Rightarrow> Inl e | Inr v \<Rightarrow> Inr (v, True))
                         else Inr (0, False))))"

definition Enqueue :: "'a::zero Queue option \<Rightarrow> 'a \<Rightarrow> error + 'a Queue" where
  "Enqueue qo v =
     (case qo of
        None \<Rightarrow>
          (case NewList [] of
             Inl e \<Rightarrow> Inl e
           | Inr f \<Rightarrow> (case NewList [v] of
                         Inl e \<Rightarrow> Inl e
                       | Inr b \<Rightarrow> Inr \<lparr>front_q = Some f, back_q = Some b, size_q = 1\<rparr>))
      | Some q \<Rightarrow>
          (case back_q q of
             None \<Rightarrow> Inl NilPointer
           | Some b \<Rightarrow>
               (case Prepend b v of
                  Inl e \<Rightarrow> Inl e
                | Inr b' \<Rightarrow> Inr \<lparr>front_q = front_q q, back_q = Some b', size_q = size_q q + 1\<rparr>)))"

text \<open>\<open>Dequeue\<close> returns the next queue (nil when there is none), the value and \<open>ok\<close>.\<close>

definition Dequeue :: "'a::zero Queue option \<Rightarrow> error + ('a Queue option \<times> 'a \<times> bool)" where
  "Dequeue qo =
     (case qo of
        None \<Rightarrow> Inr (None, 0, False)
      | Some q \<Rightarrow>
          if size_q q = 0 then Inr (None, 0, False)
          else if (case front_q q of None \<Rightarrow> False | Some f \<Rightarrow> Len f > 0) then
            (case front_q q of
               None \<Rightarrow> Inl NilPointer
             | Some f \<Rightarrow>
                 (case Get f 0 of
                    Inl e \<Rightarrow> Inl e
                  | Inr v \<Rightarrow>
                      (case Slice f 1 (Len f) of
                         Inl e \<Rightarrow> Inl e
                       | Inr newFront \<Rightarrow>
                           (case normalize (Some \<lparr>front_q = Some newFront, back_q = back_q q,
                                                  size_q = size_q q - 1\<rparr>) of
                              Inl e \<Rightarrow> Inl e
                            | Inr nextQ \<Rightarrow> Inr (nextQ, v, True)))))
          else if (case back_q q of None \<Rightarrow> False | Some b \<Rightarrow> Len b > 0) then
            (case normalize (Some q) of
               Inl e \<Rightarrow> Inl e
             | Inr None \<Rightarrow> Inl NilPointer
             | Inr (Some norm) \<Rightarrow>
                 (case front_q norm of
                    None \<Rightarrow> Inl NilPointer
                  | Some f \<Rightarrow>
                      (case Get f 0 of
                         Inl e \<Rightarrow> Inl e
                       | Inr v \<Rightarrow>
                           (case Slice f 1 (Len f) of
                              Inl e \<Rightarrow> Inl e
                            | Inr newFront \<Rightarrow>
                                Inr (Some \<lparr>front_q = Some newFront, back_q = back_q norm,
                                           size_q = size_q q - 1\<rparr>, v, True)))))
          else Inr (None, 0, False))"

subsection \<open>QueueIterator\<close>

text \<open>
  The iterator over a queue walks the front list by increasing index and then the back
  list by decreasing index.  \<open>stage\<close> is 0 on the front, 1 on the back, \<open>- 1\<close> when done.
\<close>

record 'a QueueIterator =
  qit_q :: "'a Queue option"
  qit_stage :: int
  qit_frontIdx :: int
  qit_backIdx :: int
  qit_index :: int

definition nonempty :: "'a List option \<Rightarrow> bool" where
  "nonempty lo = (case lo of None \<Rightarrow> False | Some l \<Rightarrow> Len l > 0)"

definition QueueIterator_First :: "'a QueueIterator \<Rightarrow> 'a QueueIterator" where
  "QueueIterator_First itr =
     (case qit_q itr of
        None \<Rightarrow> itr\<lparr>qit_stage := - 1\<rparr>
      | Some q \<Rightarrow>
          if size_q q = 0 then itr\<lparr>qit_stage := - 1\<rparr>
          else if nonempty (front_q q)
          then itr\<lparr>qit_stage := 0, qit_frontIdx := 0, qit_backIdx := - 1, qit_index := 0\<rparr>
          else (case back_q q of
                  None \<Rightarrow> itr\<lparr>qit_stage := - 1\<rparr>
                | Some b \<Rightarrow>
                    if Len b > 0
                    then itr\<lparr>qit_stage := 1, qit_frontIdx := - 1, qit_backIdx := Len b - 1,
                             qit_index := 0\<rparr>
                    else itr\<lparr>qit_stage := - 1\<rparr>))"

definition QueueIterator_Next ::
  "'a::zero QueueIterator \<Rightarrow> error + ('a QueueIterator \<times> int \<times> 'a \<times> bool)" where
  "QueueIterator_Next itr =
     (if qit_stage itr = - 1 then Inr (itr, - 1, 0, False)
      else case qit_q itr of
             None \<Rightarrow> Inl NilPointer
           | Some q \<Rightarrow>
               if qit_stage itr = 0 then
                 (case front_q q of
                    None \<Rightarrow> Inl NilPointer
                  | Some f \<Rightarrow>
                      (case Get f (qit_frontIdx itr) of
                         Inl e \<Rightarrow> Inl e
                       | Inr v \<Rightarrow>
                           (let itr1 = itr\<lparr>qit_frontIdx := qit_frontIdx itr + 1,
                                            qit_index := qit_index itr + 1\<rparr>
                            in if qit_frontIdx itr1 \<ge> Len f then
                                 (case back_q q of
                                    None \<Rightarrow> Inr (itr1\<lparr>qit_stage := - 1\<rparr>, qit_index itr, v, True)
                                  | Some b \<Rightarrow>
                                      if Len b > 0
                                      then Inr (itr1\<lparr>qit_stage := 1, qit_backIdx := Len b - 1\<rparr>,
                                                qit_index itr, v, True)
                                      else Inr (itr1\<lparr>qit_stage := - 1\<rparr>, qit_index itr, v, True))
                               else Inr (itr1, qit_index itr, v, True))))
               else if qit_stage itr = 1 then
                 (case back_q q of
                    None \<Rightarrow> Inl NilPointer
                  | Some b \<Rightarrow>
                      (case Get b (qit_backIdx itr) of
                         Inl e \<Rightarrow> Inl e
                       | Inr v \<Rightarrow>
                           (let itr1 = itr\<lparr>qit_backIdx := qit_backIdx itr - 1,
                                            qit_index := qit_index itr + 1\<rparr>
                            in Inr (if qit_backIdx itr1 < 0 then itr1\<lparr>qit_stage := - 1\<rparr> else itr1,
                                    qit_index itr, v, True))))
               else Inr (itr, - 1, 0, False))"

section \<open>Batch builders: value model of the batch builder file\<close>

subsection \<open>BatchListBuilder\<close>

text \<open>
  The builder holds its list (a pointer, \<open>None\<close> once \<open>List()\<close> has handed it over), the
  batch size and the buffer.  Each method returns the updated builder.
\<close>

record 'a BatchListBuilder =
  bl_list :: "'a List option"
  bl_batchSize :: int
  bl_buffer :: "'a list"

definition NewBatchListBuilder :: "int \<Rightarrow> error + 'a::zero BatchListBuilder" where
  "NewBatchListBuilder batchSize =
     (let batchSize = (if batchSize \<le> 0 then 32 else batchSize)
      in case NewList [] of
           Inl e \<Rightarrow> Inl e
         | Inr l \<Rightarrow> Inr \<lparr>bl_list = Some l, bl_batchSize = batchSize, bl_buffer = []\<rparr>)"

definition BatchListBuilder_Flush :: "'a::zero BatchListBuilder \<Rightarrow> error + 'a BatchListBuilder" where
  "BatchListBuilder_Flush b =
     (if length (bl_buffer b) = 0 then Inr b
      else case bl_list b of
             None \<Rightarrow> Inl NilPointer
           | Some l \<Rightarrow>
               (case root l of
                  listSliceNode es \<Rightarrow>
                    (let newLen = size_l l + int (length (bl_buffer b));
                         newElements = replicate (nat newLen) 0;
                         newElements = copy_at newElements 0 es;
                         newElements = copy_at newElements (nat (size_l l)) (bl_buffer b)
                     in if 0 \<le> size_l l \<and> nat (size_l l) \<le> length newElements
                        then Inr (b\<lparr>bl_list := Some (l\<lparr>root := listSliceNode newElements,
                                                           size_l := newLen\<rparr>),
                                      bl_buffer := []\<rparr>)
                        else Inl OutOfBounds)
                | _ \<Rightarrow>
                    (case append_all l (bl_buffer b) of
                       Inl e \<Rightarrow> Inl e
                     | Inr l' \<Rightarrow> Inr (b\<lparr>bl_list := Some l', bl_buffer := []\<rparr>))))"

definition BatchListBuilder_Append ::
  "'a::zero BatchListBuilder \<Rightarrow> 'a \<Rightarrow> error + 'a BatchListBuilder" where
  "BatchListBuilder_Append b v =
     (let b = b\<lparr>bl_buffer := bl_buffer b @ [v]\<rparr>
      in if int (length (bl_buffer b)) \<ge> bl_batchSize b then BatchListBuilder_Flush b else Inr b)"

fun AppendSlice :: "'a::zero BatchListBuilder \<Rightarrow> 'a list \<Rightarrow> error + 'a BatchListBuilder" where
  "AppendSlice b [] = Inr b"
| "AppendSlice b (v # vs) =
     (case BatchListBuilder_Append b v of Inl e \<Rightarrow> Inl e | Inr b' \<Rightarrow> AppendSlice b' vs)"

definition BatchListBuilder_Reset :: "'a::zero BatchListBuilder \<Rightarrow> error + 'a BatchListBuilder" where
  "BatchListBuilder_Reset b =
     (case NewList [] of
        Inl e \<Rightarrow> Inl e
      | Inr l \<Rightarrow> Inr (b\<lparr>bl_list := Some l, bl_buffer := []\<rparr>))"

text \<open>\<open>List()\<close> returns the list pointer and the invalidated builder.\<close>

definition BatchListBuilder_List ::
  "'a::zero BatchListBuilder \<Rightarrow> error + ('a List option \<times> 'a BatchListBuilder)" where
  "BatchListBuilder_List b =
     (case BatchListBuilder_Flush b of
        Inl e \<Rightarrow> Inl e
      | Inr b' \<Rightarrow> Inr (bl_list b', b'\<lparr>bl_list := None\<rparr>))"

definition BatchListBuilder_Len :: "'a BatchListBuilder \<Rightarrow> int" where
  "BatchListBuilder_Len b =
     (case bl_list b of None \<Rightarrow> 0 | Some l \<Rightarrow> Len l + int (length (bl_buffer b)))"

subsection \<open>BatchMapBuilder\<close>

text \<open>
  The map implementation itself is not among the files at hand; \<open>Flush\<close> uses its types,
  one constant and two functions.

  Modelled from the spec: the map array node is a vector of up to \<open>maxArrayMapSize = 8\<close>
  key/value entries (a \<open>mapEntry\<close> is a pair here); every other node shape of the hash
  trie is kept abstract (type \<open>'n\<close>).  A map is a root (nil for the empty map), a size
  and a hasher (nil when none was given); a hasher provides \<open>Hash\<close> and \<open>Equal\<close>.
  \<open>Map.set\<close> and \<open>NewHasher\<close> are parameters (\<open>mset\<close>, \<open>newHasher\<close>) of \<open>Flush\<close>.
\<close>

definition maxArrayMapSize :: nat where
  "maxArrayMapSize = 8"

record 'k Hasher =
  Hash :: "'k \<Rightarrow> 32 word"
  Equal :: "'k \<Rightarrow> 'k \<Rightarrow> bool"

datatype ('k, 'v, 'n) mapNode =
    mapArrayNode "('k \<times> 'v) list"
  | mapTrieNode 'n

record ('k, 'v, 'n) Map =
  m_root :: "('k, 'v, 'n) mapNode option"
  m_size :: int
  hasher :: "'k Hasher option"

record ('k, 'v, 'n) BatchMapBuilder =
  bm_m :: "('k, 'v, 'n) Map option"
  bm_batchSize :: int
  bm_buffer :: "('k \<times> 'v) list"

text \<open>Modelled from the spec: \<open>NewMap(hasher)\<close> is the empty map carrying the hasher.\<close>

definition NewMap :: "'k Hasher option \<Rightarrow> ('k, 'v, 'n) Map" where
  "NewMap h = \<lparr>m_root = None, m_size = 0, hasher = h\<rparr>"

text \<open>
  Modelled from the spec: \<open>get\<close> on an array node scans the entries linearly with the
  hasher's equality and returns the value and a present flag.
\<close>

definition array_get :: "('k \<Rightarrow> 'k \<Rightarrow> bool) \<Rightarrow> ('k \<times> 'v) list \<Rightarrow> 'k \<Rightarrow> 'v option" where
  "array_get eq entries k = map_option snd (find (\<lambda>e. eq (fst e) k) entries)"

text \<open>The key comparison written out at each use in \<open>Flush\<close>: the hasher's \<open>Equal\<close>, or \<open>==\<close> without a hasher.\<close>

definition key_eq :: "'k Hasher option \<Rightarrow> 'k \<Rightarrow> 'k \<Rightarrow> bool" where
  "key_eq h a b = (case h of Some hs \<Rightarrow> Equal hs a b | None \<Rightarrow> a = b)"

text \<open>
  The loops of \<open>Flush\<close>.  \<open>scan_last\<close> walks the buffer from its end
  (\<open>for i := len(b.buffer) - 1; i >= 0; i--\<close>, called on the reversed buffer) and
  appends an entry unless an entry with an equal key is already staged; \<open>scan_seen\<close> is
  the same walk with a Go map of the keys seen; both results are reversed afterwards.
\<close>

fun scan_last ::
  "('k \<Rightarrow> 'k \<Rightarrow> bool) \<Rightarrow> ('k \<times> 'v) list \<Rightarrow> ('k \<times> 'v) list \<Rightarrow> ('k \<times> 'v) list" where
  "scan_last eq [] dedup = dedup"
| "scan_last eq (e # es) dedup =
     scan_last eq es (if list_ex (\<lambda>d. eq (fst d) (fst e)) dedup then dedup else dedup @ [e])"

fun scan_seen :: "('k \<times> 'v) list \<Rightarrow> 'k set \<Rightarrow> ('k \<times> 'v) list \<Rightarrow> ('k \<times> 'v) list" where
  "scan_seen [] seen dedup = dedup"
| "scan_seen (e # es) seen dedup =
     (if fst e \<in> seen then scan_seen es seen dedup
      else scan_seen es (insert (fst e) seen) (dedup @ [e]))"

text \<open>The override pass over the existing entries: the first staged entry with a matching key replaces the value.\<close>

definition override :: "('k \<Rightarrow> 'k \<Rightarrow> bool) \<Rightarrow> ('k \<times> 'v) list \<Rightarrow> 'k \<times> 'v \<Rightarrow> 'k \<times> 'v" where
  "override eq lasts e =
     (case find (\<lambda>le. eq (fst e) (fst le)) lasts of
        None \<Rightarrow> e
      | Some le \<Rightarrow> (fst e, snd le))"

fun set_all ::
  "(('k, 'v, 'n) Map \<Rightarrow> 'k \<Rightarrow> 'v \<Rightarrow> bool \<Rightarrow> ('k, 'v, 'n) Map) \<Rightarrow> ('k, 'v, 'n) Map \<Rightarrow>
   ('k \<times> 'v) list \<Rightarrow> ('k, 'v, 'n) Map" where
  "set_all mset m [] = m"
| "set_all mset m (e # es) = set_all mset (mset m (fst e) (snd e) True) es"

definition BatchMapBuilder_Flush ::
  "(('k, 'v, 'n) Map \<Rightarrow> 'k \<Rightarrow> 'v \<Rightarrow> bool \<Rightarrow> ('k, 'v, 'n) Map) \<Rightarrow> ('k \<Rightarrow> 'k Hasher) \<Rightarrow>
   ('k, 'v, 'n) BatchMapBuilder \<Rightarrow> error + ('k, 'v, 'n) BatchMapBuilder" where
  "BatchMapBuilder_Flush mset newHasher b =
     (if length (bm_buffer b) = 0 then Inr b
      else case bm_m b of
             None \<Rightarrow> Inl NilPointer
           | Some m \<Rightarrow>
               (case m_root m of
                  None \<Rightarrow>
                    (let dedup =
                           (if length (bm_buffer b) \<le> maxArrayMapSize
                            then rev (scan_last (key_eq (hasher m)) (rev (bm_buffer b)) [])
                            else rev (scan_seen (rev (bm_buffer b)) {} []));
                         m = (if hasher m = None \<and> length dedup > 0
                              then m\<lparr>hasher := Some (newHasher (fst (hd dedup)))\<rparr>
                              else m);
                         m = m\<lparr>m_size := int (length dedup), m_root := Some (mapArrayNode dedup)\<rparr>
                     in Inr (b\<lparr>bm_m := Some m, bm_buffer := []\<rparr>))
                | Some (mapArrayNode entries) \<Rightarrow>
                    (let lasts =
                           (if length (bm_buffer b) \<le> maxArrayMapSize
                            then rev (scan_last (key_eq (hasher m)) (rev (bm_buffer b)) [])
                            else scan_seen (bm_buffer b) {} []);
                         orig = fst ` set entries;
                         newEntries = map (override (key_eq (hasher m)) lasts) entries;
                         toAppend = filter (\<lambda>le. fst le \<notin> orig) lasts;
                         newCount = length newEntries + length toAppend
                     in if newCount \<le> maxArrayMapSize
                        then Inr (b\<lparr>bm_m := Some (m\<lparr>m_size := int newCount,
                                         m_root := Some (mapArrayNode (newEntries @ toAppend))\<rparr>),
                                      bm_buffer := []\<rparr>)
                        else Inr (b\<lparr>bm_m := Some (set_all mset m (bm_buffer b)), bm_buffer := []\<rparr>))
                | Some (mapTrieNode n) \<Rightarrow>
                    Inr (b\<lparr>bm_m := Some (set_all mset m (bm_buffer b)), bm_buffer := []\<rparr>)))"

definition NewBatchMapBuilder :: "'k Hasher option \<Rightarrow> int \<Rightarrow> ('k, 'v, 'n) BatchMapBuilder" where
  "NewBatchMapBuilder h batchSize =
     (let batchSize = (if batchSize \<le> 0 then 32 else batchSize)
      in \<lparr>bm_m = Some (NewMap h), bm_batchSize = batchSize, bm_buffer = []\<rparr>)"

definition BatchMapBuilder_Set ::
  "(('k, 'v, 'n) Map \<Rightarrow> 'k \<Rightarrow> 'v \<Rightarrow> bool \<Rightarrow> ('k, 'v, 'n) Map) \<Rightarrow> ('k \<Rightarrow> 'k Hasher) \<Rightarrow>
   ('k, 'v, 'n) BatchMapBuilder \<Rightarrow> 'k \<Rightarrow> 'v \<Rightarrow> error + ('k, 'v, 'n) BatchMapBuilder" where
  "BatchMapBuilder_Set mset newHasher b k v =
     (let b = b\<lparr>bm_buffer := bm_buffer b @ [(k, v)]\<rparr>
      in if int (length (bm_buffer b)) \<ge> bm_batchSize b
         then BatchMapBuilder_Flush mset newHasher b else Inr b)"

fun set_entries ::
  "(('k, 'v, 'n) Map \<Rightarrow> 'k \<Rightarrow> 'v \<Rightarrow> bool \<Rightarrow> ('k, 'v, 'n) Map) \<Rightarrow> ('k \<Rightarrow> 'k Hasher) \<Rightarrow>
   ('k, 'v, 'n) BatchMapBuilder \<Rightarrow> ('k \<times> 'v) list \<Rightarrow> error + ('k, 'v, 'n) BatchMapBuilder" where
  "set_entries mset newHasher b [] = Inr b"
| "set_entries mset newHasher b (e # es) =
     (case BatchMapBuilder_Set mset newHasher b (fst e) (snd e) of
        Inl err \<Rightarrow> Inl err
      | Inr b' \<Rightarrow> set_entries mset newHasher b' es)"

definition BatchMapBuilder_Map ::
  "(('k, 'v, 'n) Map \<Rightarrow> 'k \<Rightarrow> 'v \<Rightarrow> bool \<Rightarrow> ('k, 'v, 'n) Map) \<Rightarrow> ('k \<Rightarrow> 'k Hasher) \<Rightarrow>
   ('k, 'v, 'n) BatchMapBuilder \<Rightarrow> error + (('k, 'v, 'n) Map option \<times> ('k, 'v, 'n) BatchMapBuilder)" where
  "BatchMapBuilder_Map mset newHasher b =
     (case BatchMapBuilder_Flush mset newHasher b of
        Inl e \<Rightarrow> Inl e
      | Inr b' \<Rightarrow> Inr (bm_m b', b'\<lparr>bm_m := None\<rparr>))"

section \<open>Store model: nodes, lists and queues as objects on a heap\<close>

text \<open>
  The value model cannot tell a copy from the original.  Where a property is about
  identity or about writing through a shared pointer, the same code is embedded over an
  explicit store: every \<open>&listBranchNode{}\<close>, \<open>&listLeafNode{}\<close>, \<open>&listSliceNode{}\<close>,
  \<open>&List{}\<close> and \<open>&Queue{}\<close> is a cell of the heap, a pointer is an address, nil is
  \<open>None\<close>.  A slice node owns its backing array (every \<open>elements\<close> comes from a
  \<open>make\<close> of its own), so the array is part of the cell.  Allocation takes the next free
  address.  Recursion through pointers is bounded by \<open>fuel\<close>; running out of it is the
  result \<open>Inl Diverges\<close>.  Dereferencing an address without a cell is \<open>Inl NilPointer\<close>,
  a cell of the wrong kind \<open>Inl TypeAssertion\<close>.
\<close>

type_synonym addr = nat

datatype 'a obj =
    BranchObj nat "addr option list"
  | LeafObj "'a list" "32 word"
  | SliceObj "'a list"
  | ListObj addr int int
  | QueueObj "addr option" "addr option" int

record 'a heap =
  cells :: "addr \<Rightarrow> 'a obj option"
  next_addr :: addr

definition empty_heap :: "'a heap" where
  "empty_heap = \<lparr>cells = (\<lambda>a. None), next_addr = 0\<rparr>"

definition alloc :: "'a heap \<Rightarrow> 'a obj \<Rightarrow> 'a heap \<times> addr" where
  "alloc h ob =
     (h\<lparr>cells := (cells h)(next_addr h := Some ob), next_addr := next_addr h + 1\<rparr>, next_addr h)"

definition store :: "'a heap \<Rightarrow> addr \<Rightarrow> 'a obj \<Rightarrow> 'a heap" where
  "store h a ob = h\<lparr>cells := (cells h)(a := Some ob)\<rparr>"

text \<open>The cell at an address; nothing is allocated from \<open>next_addr\<close> on.\<close>

definition lookup :: "'a heap \<Rightarrow> addr \<Rightarrow> 'a obj option" where
  "lookup h a = (if a < next_addr h then cells h a else None)"

definition ptr_at :: "addr option list \<Rightarrow> nat \<Rightarrow> addr option" where
  "ptr_at cs i = (if i < length cs then cs ! i else None)"

text \<open>The assignment \<open>other.children[idx] = c\<close> on the branch at \<open>other\<close>.\<close>

definition set_child :: "'a heap \<Rightarrow> addr \<Rightarrow> nat \<Rightarrow> addr \<Rightarrow> error + 'a heap" where
  "set_child h other idx c =
     (case lookup h other of
        None \<Rightarrow> Inl NilPointer
      | Some (BranchObj d cs) \<Rightarrow>
          if idx < length cs then Inr (store h other (BranchObj d (cs[idx := Some c])))
          else Inl OutOfBounds
      | Some _ \<Rightarrow> Inl TypeAssertion)"

subsection \<open>Nodes\<close>

definition h_depth :: "'a heap \<Rightarrow> addr \<Rightarrow> error + nat" where
  "h_depth h a =
     (case lookup h a of
        None \<Rightarrow> Inl NilPointer
      | Some (BranchObj d cs) \<Rightarrow> Inr d
      | Some (LeafObj cs occ) \<Rightarrow> Inr 0
      | Some (SliceObj es) \<Rightarrow> Inr 0
      | Some _ \<Rightarrow> Inl TypeAssertion)"

fun h_get :: "nat \<Rightarrow> 'a heap \<Rightarrow> addr \<Rightarrow> int \<Rightarrow> error + 'a" where
  "h_get 0 h a index = Inl Diverges"
| "h_get (Suc fuel) h a index =
     (case lookup h a of
        None \<Rightarrow> Inl NilPointer
      | Some (BranchObj d cs) \<Rightarrow>
          (case ptr_at cs (slot d index) of
             None \<Rightarrow> Inl NilPointer
           | Some c \<Rightarrow> h_get fuel h c index)
      | Some (LeafObj cs occ) \<Rightarrow>
          if slot 0 index < length cs then Inr (cs ! slot 0 index) else Inl OutOfBounds
      | Some (SliceObj es) \<Rightarrow>
          if 0 \<le> index \<and> index < int (length es) then Inr (es ! nat index)
          else Inl OutOfBounds
      | Some _ \<Rightarrow> Inl TypeAssertion)"

definition h_newListNode :: "'a::zero heap \<Rightarrow> nat \<Rightarrow> 'a heap \<times> addr" where
  "h_newListNode h d =
     alloc h (if d = 0 then LeafObj (replicate listNodeSize 0) 0
              else BranchObj d (replicate listNodeSize None))"

text \<open>
  \<open>set\<close>: with \<open>mutable\<close> the receiver's cell is written in place, otherwise
  \<open>tmp := *n; other = &tmp\<close> allocates a copy first and the child slot of the copy is
  assigned after the recursive call has returned.
\<close>

fun h_set :: "nat \<Rightarrow> 'a::zero heap \<Rightarrow> addr \<Rightarrow> int \<Rightarrow> 'a \<Rightarrow> bool \<Rightarrow> error + ('a heap \<times> addr)" where
  "h_set 0 h a index v mutable = Inl Diverges"
| "h_set (Suc fuel) h a index v mutable =
     (case lookup h a of
        None \<Rightarrow> Inl NilPointer
      | Some (BranchObj d cs) \<Rightarrow>
          (let idx = slot d index;
               hc = (case ptr_at cs idx of
                       None \<Rightarrow> h_newListNode h (d - 1)
                     | Some c \<Rightarrow> (h, c));
               ho = (if mutable then (fst hc, a) else alloc (fst hc) (BranchObj d cs))
           in case h_set fuel (fst ho) (snd hc) index v mutable of
                Inl e \<Rightarrow> Inl e
              | Inr (h3, c') \<Rightarrow>
                  (case set_child h3 (snd ho) idx c' of
                     Inl e \<Rightarrow> Inl e
                   | Inr h4 \<Rightarrow> Inr (h4, snd ho)))
      | Some (LeafObj cs occ) \<Rightarrow>
          (let idx = slot 0 index;
               ho = (if mutable then (h, a) else alloc h (LeafObj cs occ))
           in Inr (store (fst ho) (snd ho) (LeafObj (cs[idx := v]) (occ OR push_bit idx 1)),
                   snd ho))
      | Some (SliceObj es) \<Rightarrow>
          (if 0 \<le> index \<and> index < int (length es)
           then (if mutable then Inr (store h a (SliceObj (es[nat index := v])), a)
                 else Inr (alloc h (SliceObj (es[nat index := v]))))
           else Inl OutOfBounds)
      | Some _ \<Rightarrow> Inl TypeAssertion)"

fun h_containsBefore :: "nat \<Rightarrow> 'a heap \<Rightarrow> addr \<Rightarrow> int \<Rightarrow> error + bool" where
  "h_containsBefore 0 h a index = Inl Diverges"
| "h_containsBefore (Suc fuel) h a index =
     (case lookup h a of
        None \<Rightarrow> Inl NilPointer
      | Some (BranchObj d cs) \<Rightarrow>
          (let idx = slot d index
           in if list_ex (\<lambda>c. c \<noteq> None) (take idx cs) then Inr True
              else (case ptr_at cs idx of
                      None \<Rightarrow> Inr False
                    | Some c \<Rightarrow> h_containsBefore fuel h c index))
      | Some (LeafObj cs occ) \<Rightarrow> Inr (TrailingZeros32 occ < slot 0 index)
      | Some (SliceObj es) \<Rightarrow> Inr True
      | Some _ \<Rightarrow> Inl TypeAssertion)"

fun h_containsAfter :: "nat \<Rightarrow> 'a heap \<Rightarrow> addr \<Rightarrow> int \<Rightarrow> error + bool" where
  "h_containsAfter 0 h a index = Inl Diverges"
| "h_containsAfter (Suc fuel) h a index =
     (case lookup h a of
        None \<Rightarrow> Inl NilPointer
      | Some (BranchObj d cs) \<Rightarrow>
          (let idx = slot d index
           in if list_ex (\<lambda>c. c \<noteq> None) (drop (idx + 1) cs) then Inr True
              else (case ptr_at cs idx of
                      None \<Rightarrow> Inr False
                    | Some c \<Rightarrow> h_containsAfter fuel h c index))
      | Some (LeafObj cs occ) \<Rightarrow> Inr (31 - int (LeadingZeros32 occ) > int (slot 0 index))
      | Some (SliceObj es) \<Rightarrow> Inr True
      | Some _ \<Rightarrow> Inl TypeAssertion)"

text \<open>
  \<open>deleteBefore\<close> returns the receiver itself when nothing lies before \<open>index\<close>;
  otherwise it clears the slots in place (\<open>mutable\<close>) or fills a fresh node.
\<close>

fun h_deleteBefore :: "nat \<Rightarrow> 'a::zero heap \<Rightarrow> addr \<Rightarrow> int \<Rightarrow> bool \<Rightarrow> error + ('a heap \<times> addr)" where
  "h_deleteBefore 0 h a index mutable = Inl Diverges"
| "h_deleteBefore (Suc fuel) h a index mutable =
     (case h_containsBefore (Suc fuel) h a index of
        Inl e \<Rightarrow> Inl e
      | Inr b \<Rightarrow>
          if \<not> b then Inr (h, a)
          else (case lookup h a of
                  None \<Rightarrow> Inl NilPointer
                | Some (BranchObj d cs) \<Rightarrow>
                    (let idx = slot d index;
                         others = kept_from mutable None idx cs;
                         ho = (if mutable then (store h a (BranchObj d others), a)
                               else alloc h (BranchObj d others))
                     in case ptr_at others idx of
                          None \<Rightarrow> Inr ho
                        | Some c \<Rightarrow>
                            (case h_deleteBefore fuel (fst ho) c index mutable of
                               Inl e \<Rightarrow> Inl e
                             | Inr (h2, c') \<Rightarrow>
                                 (case set_child h2 (snd ho) idx c' of
                                    Inl e \<Rightarrow> Inl e
                                  | Inr h3 \<Rightarrow> Inr (h3, snd ho))))
                | Some (LeafObj cs occ) \<Rightarrow>
                    (let idx = slot 0 index;
                         ob = LeafObj (kept_from mutable 0 idx cs) (occ AND NOT (push_bit idx 1 - 1))
                     in if mutable then Inr (store h a ob, a) else Inr (alloc h ob))
                | Some (SliceObj es) \<Rightarrow> Inr (h, a)
                | Some _ \<Rightarrow> Inl TypeAssertion))"

fun h_deleteAfter :: "nat \<Rightarrow> 'a::zero heap \<Rightarrow> addr \<Rightarrow> int \<Rightarrow> bool \<Rightarrow> error + ('a heap \<times> addr)" where
  "h_deleteAfter 0 h a index mutable = Inl Diverges"
| "h_deleteAfter (Suc fuel) h a index mutable =
     (case h_containsAfter (Suc fuel) h a index of
        Inl e \<Rightarrow> Inl e
      | Inr b \<Rightarrow>
          if \<not> b then Inr (h, a)
          else (case lookup h a of
                  None \<Rightarrow> Inl NilPointer
                | Some (BranchObj d cs) \<Rightarrow>
                    (let idx = slot d index;
                         others = kept_upto mutable None idx cs;
                         ho = (if mutable then (store h a (BranchObj d others), a)
                               else alloc h (BranchObj d others))
                     in case ptr_at others idx of
                          None \<Rightarrow> Inr ho
                        | Some c \<Rightarrow>
                            (case h_deleteAfter fuel (fst ho) c index mutable of
                               Inl e \<Rightarrow> Inl e
                             | Inr (h2, c') \<Rightarrow>
                                 (case set_child h2 (snd ho) idx c' of
                                    Inl e \<Rightarrow> Inl e
                                  | Inr h3 \<Rightarrow> Inr (h3, snd ho))))
                | Some (LeafObj cs occ) \<Rightarrow>
                    (let idx = slot 0 index;
                         ob = LeafObj (kept_upto mutable 0 idx cs) (occ AND (push_bit (idx + 1) 1 - 1))
                     in if mutable then Inr (store h a ob, a) else Inr (alloc h ob))
                | Some (SliceObj es) \<Rightarrow> Inr (h, a)
                | Some _ \<Rightarrow> Inl TypeAssertion))"

subsection \<open>toTrie\<close>

fun alloc_all :: "'a heap \<Rightarrow> 'a obj list \<Rightarrow> 'a heap \<times> addr list" where
  "alloc_all h [] = (h, [])"
| "alloc_all h (ob # obs) =
     (let ha = alloc h ob;
          hs = alloc_all (fst ha) obs
      in (fst hs, snd ha # snd hs))"

lemma length_alloc_all [simp]: "length (snd (alloc_all h obs)) = length obs"
  by (induction obs arbitrary: h) (simp_all add: Let_def)

definition leaf_obj :: "'a::zero list \<Rightarrow> 'a obj" where
  "leaf_obj chunk =
     LeafObj (copy_at (replicate listNodeSize 0) 0 chunk) (push_bit (length chunk) 1 - 1)"

definition branch_obj :: "nat \<Rightarrow> addr list \<Rightarrow> 'a obj" where
  "branch_obj d chunk = BranchObj d (copy_at (replicate listNodeSize None) 0 (map Some chunk))"

function h_wrap_layers :: "'a heap \<Rightarrow> addr list \<Rightarrow> nat \<Rightarrow> error + ('a heap \<times> addr)" where
  "h_wrap_layers h nodes d =
     (if length nodes > 1
      then h_wrap_layers (fst (alloc_all h (map (branch_obj d) (chunks nodes))))
             (snd (alloc_all h (map (branch_obj d) (chunks nodes)))) (d + 1)
      else (case nodes of [] \<Rightarrow> Inl OutOfBounds | n # _ \<Rightarrow> Inr (h, n)))"
  by pat_completeness auto
termination
  by (relation "measure (\<lambda>(h, nodes, d). length nodes)")
     (auto simp: length_chunks listNodeSize_def listNodeBits_def)

declare h_wrap_layers.simps [simp del]

definition h_toTrie :: "'a::zero heap \<Rightarrow> addr \<Rightarrow> bool \<Rightarrow> error + ('a heap \<times> addr)" where
  "h_toTrie h a mutable =
     (case lookup h a of
        None \<Rightarrow> Inl NilPointer
      | Some (SliceObj es) \<Rightarrow>
          if length es = 0 then Inr (alloc h (LeafObj (replicate listNodeSize 0) 0))
          else (let hs = alloc_all h (map leaf_obj (chunks es))
                in h_wrap_layers (fst hs) (snd hs) 1)
      | Some _ \<Rightarrow> Inl TypeAssertion)"

subsection \<open>List\<close>

text \<open>The fields of the \<open>List\<close> at an address, and assignments to them.\<close>

definition list_at :: "'a heap \<Rightarrow> addr \<Rightarrow> error + (addr \<times> int \<times> int)" where
  "list_at h l =
     (case lookup h l of
        None \<Rightarrow> Inl NilPointer
      | Some (ListObj r org sz) \<Rightarrow> Inr (r, org, sz)
      | Some _ \<Rightarrow> Inl TypeAssertion)"

definition set_root :: "'a heap \<Rightarrow> addr \<Rightarrow> addr \<Rightarrow> error + 'a heap" where
  "set_root h l r =
     (case list_at h l of
        Inl e \<Rightarrow> Inl e
      | Inr (r0, org, sz) \<Rightarrow> Inr (store h l (ListObj r org sz)))"

definition is_slice_at :: "'a heap \<Rightarrow> addr \<Rightarrow> error + bool" where
  "is_slice_at h a =
     (case lookup h a of
        None \<Rightarrow> Inl NilPointer
      | Some (SliceObj es) \<Rightarrow> Inr True
      | Some _ \<Rightarrow> Inr False)"

text \<open>\<open>other := l; if !mutable { other = l.clone() }\<close>.\<close>

definition h_other :: "'a heap \<Rightarrow> addr \<Rightarrow> bool \<Rightarrow> error + ('a heap \<times> addr)" where
  "h_other h l mutable =
     (case list_at h l of
        Inl e \<Rightarrow> Inl e
      | Inr (r, org, sz) \<Rightarrow> if mutable then Inr (h, l) else Inr (alloc h (ListObj r org sz)))"

text \<open>
  The end of the slice branch of \<open>append\<close> and \<open>prepend\<close>:
  \<open>other.root = &listSliceNode[T]{elements: newElements}; other.size++\<close>.
\<close>

definition h_grow_slice ::
  "'a heap \<Rightarrow> addr \<Rightarrow> 'a list \<Rightarrow> bool \<Rightarrow> error + ('a heap \<times> addr)" where
  "h_grow_slice h l newElements mutable =
     (case h_other h l mutable of
        Inl e \<Rightarrow> Inl e
      | Inr (h1, other) \<Rightarrow>
          (let hn = alloc h1 (SliceObj newElements)
           in case list_at (fst hn) other of
                Inl e \<Rightarrow> Inl e
              | Inr (r1, org1, sz1) \<Rightarrow>
                  Inr (store (fst hn) other (ListObj (snd hn) org1 (sz1 + 1)), other)))"

definition h_Len :: "'a heap \<Rightarrow> addr \<Rightarrow> error + int" where
  "h_Len h l = (case list_at h l of Inl e \<Rightarrow> Inl e | Inr (r, org, sz) \<Rightarrow> Inr sz)"

definition h_Get :: "nat \<Rightarrow> 'a heap \<Rightarrow> addr \<Rightarrow> int \<Rightarrow> error + 'a" where
  "h_Get fuel h l index =
     (case list_at h l of
        Inl e \<Rightarrow> Inl e
      | Inr (r, org, sz) \<Rightarrow>
          if index < 0 \<or> index \<ge> sz then Inl OutOfBounds
          else (case is_slice_at h r of
                  Inl e \<Rightarrow> Inl e
                | Inr b \<Rightarrow> if b then h_get fuel h r index else h_get fuel h r (org + index)))"

definition h_List_set ::
  "nat \<Rightarrow> 'a::zero heap \<Rightarrow> addr \<Rightarrow> int \<Rightarrow> 'a \<Rightarrow> bool \<Rightarrow> error + ('a heap \<times> addr)" where
  "h_List_set fuel h l index v mutable =
     (case list_at h l of
        Inl e \<Rightarrow> Inl e
      | Inr (r, org, sz) \<Rightarrow>
          if index < 0 \<or> index \<ge> sz then Inl OutOfBounds
          else (case is_slice_at h r of
                  Inl e \<Rightarrow> Inl e
                | Inr b \<Rightarrow>
                    (case h_other h l mutable of
                       Inl e \<Rightarrow> Inl e
                     | Inr (h1, other) \<Rightarrow>
                         (case h_set fuel h1 r (if b then index else org + index) v mutable of
                            Inl e \<Rightarrow> Inl e
                          | Inr (h2, r') \<Rightarrow>
                              (case set_root h2 other r' of
                                 Inl e \<Rightarrow> Inl e
                               | Inr h3 \<Rightarrow> Inr (h3, other))))))"

definition h_Set :: "nat \<Rightarrow> 'a::zero heap \<Rightarrow> addr \<Rightarrow> int \<Rightarrow> 'a \<Rightarrow> error + ('a heap \<times> addr)" where
  "h_Set fuel h l index v = h_List_set fuel h l index v False"

text \<open>
  The trie part of \<open>append\<close>.  \<open>other.root\<close>, \<open>other.size\<close> are assigned on the cell of
  \<open>other\<close> as the code goes; \<open>l.cap()\<close> reads the depth of the receiver's root.
\<close>

definition h_append_trie ::
  "nat \<Rightarrow> 'a::zero heap \<Rightarrow> addr \<Rightarrow> 'a \<Rightarrow> bool \<Rightarrow> error + ('a heap \<times> addr)" where
  "h_append_trie fuel h l v mutable =
     (case h_other h l mutable of
        Inl e \<Rightarrow> Inl e
      | Inr (h1, other) \<Rightarrow>
     (case list_at h1 other of
        Inl e \<Rightarrow> Inl e
      | Inr (r, org, sz) \<Rightarrow>
     (case h_depth h1 r of
        Inl e \<Rightarrow> Inl e
      | Inr d \<Rightarrow>
          (let hr = (if sz + org \<ge> push_bit (d * listNodeBits) 1
                     then alloc h1 (BranchObj (d + 1) ((replicate listNodeSize None)[0 := Some r]))
                     else (h1, r));
               h2 = store (fst hr) other (ListObj (snd hr) org (sz + 1))
           in case h_set fuel h2 (snd hr) (org + (sz + 1) - 1) v mutable of
                Inl e \<Rightarrow> Inl e
              | Inr (h3, r') \<Rightarrow>
                  (case set_root h3 other r' of
                     Inl e \<Rightarrow> Inl e
                   | Inr h4 \<Rightarrow> Inr (h4, other))))))"

definition h_List_append ::
  "nat \<Rightarrow> 'a::zero heap \<Rightarrow> addr \<Rightarrow> 'a \<Rightarrow> bool \<Rightarrow> error + ('a heap \<times> addr)" where
  "h_List_append fuel h l v mutable =
     (case list_at h l of
        Inl e \<Rightarrow> Inl e
      | Inr (r, org, sz) \<Rightarrow>
          (case lookup h r of
             None \<Rightarrow> Inl NilPointer
           | Some (SliceObj es) \<Rightarrow>
               if sz < listSliceThreshold then
                 (let newElements = copy_at (replicate (nat (sz + 1)) 0) 0 es
                  in if nat sz < length newElements
                     then h_grow_slice h l (newElements[nat sz := v]) mutable
                     else Inl OutOfBounds)
               else
                 (case h_toTrie h r True of
                    Inl e \<Rightarrow> Inl e
                  | Inr (h1, trieRoot) \<Rightarrow>
                      (let ht = alloc h1 (ListObj trieRoot 0 sz)
                       in h_append_trie fuel (fst ht) (snd ht) v mutable))
           | Some _ \<Rightarrow> h_append_trie fuel h l v mutable))"

definition h_Append :: "nat \<Rightarrow> 'a::zero heap \<Rightarrow> addr \<Rightarrow> 'a \<Rightarrow> error + ('a heap \<times> addr)" where
  "h_Append fuel h l v = h_List_append fuel h l v False"

definition h_prepend_trie ::
  "nat \<Rightarrow> 'a::zero heap \<Rightarrow> addr \<Rightarrow> 'a \<Rightarrow> bool \<Rightarrow> error + ('a heap \<times> addr)" where
  "h_prepend_trie fuel h l v mutable =
     (case h_other h l mutable of
        Inl e \<Rightarrow> Inl e
      | Inr (h1, other) \<Rightarrow>
     (case list_at h1 other of
        Inl e \<Rightarrow> Inl e
      | Inr (r, org, sz) \<Rightarrow>
     (case (if org = 0
            then (case h_depth h1 r of
                    Inl e \<Rightarrow> Inl e
                  | Inr d \<Rightarrow>
                      (let hr = alloc h1 (BranchObj (d + 1)
                                  ((replicate listNodeSize None)[listNodeSize - 1 := Some r]))
                       in Inr (hr, org + push_bit ((d + 1) * listNodeBits) (int listNodeSize - 1))))
            else Inr ((h1, r), org)) of
        Inl e \<Rightarrow> Inl e
      | Inr (hr, org1) \<Rightarrow>
          (let h2 = store (fst hr) other (ListObj (snd hr) (org1 - 1) (sz + 1))
           in case h_set fuel h2 (snd hr) (org1 - 1) v mutable of
                Inl e \<Rightarrow> Inl e
              | Inr (h3, r') \<Rightarrow>
                  (case set_root h3 other r' of
                     Inl e \<Rightarrow> Inl e
                   | Inr h4 \<Rightarrow> Inr (h4, other))))))"

definition h_List_prepend ::
  "nat \<Rightarrow> 'a::zero heap \<Rightarrow> addr \<Rightarrow> 'a \<Rightarrow> bool \<Rightarrow> error + ('a heap \<times> addr)" where
  "h_List_prepend fuel h l v mutable =
     (case list_at h l of
        Inl e \<Rightarrow> Inl e
      | Inr (r, org, sz) \<Rightarrow>
          (case lookup h r of
             None \<Rightarrow> Inl NilPointer
           | Some (SliceObj es) \<Rightarrow>
               if sz < listSliceThreshold then
                 (let newElements = copy_at ((replicate (nat (sz + 1)) 0)[0 := v]) 1 es
                  in if 0 < length newElements
                     then h_grow_slice h l newElements mutable
                     else Inl OutOfBounds)
               else
                 (case h_toTrie h r True of
                    Inl e \<Rightarrow> Inl e
                  | Inr (h1, trieRoot) \<Rightarrow>
                      (let ht = alloc h1 (ListObj trieRoot 0 sz)
                       in h_prepend_trie fuel (fst ht) (snd ht) v mutable))
           | Some _ \<Rightarrow> h_prepend_trie fuel h l v mutable))"

definition h_Prepend :: "nat \<Rightarrow> 'a::zero heap \<Rightarrow> addr \<Rightarrow> 'a \<Rightarrow> error + ('a heap \<times> addr)" where
  "h_Prepend fuel h l v = h_List_prepend fuel h l v False"

text \<open>The contraction loop of \<open>slice\<close>; it reads nodes and only moves root and origin.\<close>

fun h_contract :: "nat \<Rightarrow> 'a heap \<Rightarrow> addr \<Rightarrow> int \<Rightarrow> int \<Rightarrow> error + (addr \<times> int)" where
  "h_contract 0 h r org sz = Inl Diverges"
| "h_contract (Suc fuel) h r org sz =
     (case lookup h r of
        None \<Rightarrow> Inl NilPointer
      | Some (BranchObj d cs) \<Rightarrow>
          if d > 1 then
            (let i = slot d org;
                 j = slot d (org + sz - 1)
             in if i \<noteq> j then Inr (r, org)
                else (case ptr_at cs i of
                        None \<Rightarrow> Inl NilPointer
                      | Some c \<Rightarrow> h_contract fuel h c (org - push_bit (d * listNodeBits) (int i)) sz))
          else Inr (r, org)
      | Some (LeafObj cs occ) \<Rightarrow> Inr (r, org)
      | Some (SliceObj es) \<Rightarrow> Inr (r, org)
      | Some _ \<Rightarrow> Inl TypeAssertion)"

definition h_List_slice ::
  "nat \<Rightarrow> 'a::zero heap \<Rightarrow> addr \<Rightarrow> int \<Rightarrow> int \<Rightarrow> bool \<Rightarrow> error + ('a heap \<times> addr)" where
  "h_List_slice fuel h l start end mutable =
     (case list_at h l of
        Inl e \<Rightarrow> Inl e
      | Inr (r, org, sz) \<Rightarrow>
          if start < 0 \<or> start > sz then Inl OutOfBounds
          else if end < 0 \<or> end > sz then Inl OutOfBounds
          else if start > end then Inl OutOfBounds
          else if start = 0 \<and> end = sz then Inr (h, l)
          else (case lookup h r of
                  None \<Rightarrow> Inl NilPointer
                | Some (SliceObj es) \<Rightarrow>
                    if nat end \<le> length es then
                      (let hn = alloc h (SliceObj (take (nat (end - start)) (drop (nat start) es)))
                       in Inr (alloc (fst hn) (ListObj (snd hn) 0 (end - start))))
                    else Inl OutOfBounds
                | Some _ \<Rightarrow>
                    (case h_other h l mutable of
                       Inl e \<Rightarrow> Inl e
                     | Inr (h1, other) \<Rightarrow>
                    (case h_contract fuel h1 r (org + start) (end - start) of
                       Inl e \<Rightarrow> Inl e
                     | Inr (r1, org1) \<Rightarrow>
                         (let h2 = store h1 other (ListObj r1 org1 (end - start))
                          in case h_deleteBefore fuel h2 r1 org1 mutable of
                               Inl e \<Rightarrow> Inl e
                             | Inr (h3, r2) \<Rightarrow>
                          (case set_root h3 other r2 of
                             Inl e \<Rightarrow> Inl e
                           | Inr h4 \<Rightarrow>
                          (case h_deleteAfter fuel h4 r2 (org1 + (end - start) - 1) mutable of
                             Inl e \<Rightarrow> Inl e
                           | Inr (h5, r3) \<Rightarrow>
                          (case set_root h5 other r3 of
                             Inl e \<Rightarrow> Inl e
                           | Inr h6 \<Rightarrow> Inr (h6, other)))))))))"

definition h_Slice :: "nat \<Rightarrow> 'a::zero heap \<Rightarrow> addr \<Rightarrow> int \<Rightarrow> int \<Rightarrow> error + ('a heap \<times> addr)" where
  "h_Slice fuel h l start end = h_List_slice fuel h l start end False"

fun h_append_all :: "nat \<Rightarrow> 'a::zero heap \<Rightarrow> addr \<Rightarrow> 'a list \<Rightarrow> error + ('a heap \<times> addr)" where
  "h_append_all fuel h l [] = Inr (h, l)"
| "h_append_all fuel h l (v # vs) =
     (case h_List_append fuel h l v True of
        Inl e \<Rightarrow> Inl e
      | Inr (h1, l1) \<Rightarrow> h_append_all fuel h1 l1 vs)"

definition h_NewList :: "nat \<Rightarrow> 'a::zero heap \<Rightarrow> 'a list \<Rightarrow> error + ('a heap \<times> addr)" where
  "h_NewList fuel h values =
     (if int (length values) > listSliceThreshold
      then (let hr = alloc h (LeafObj (replicate listNodeSize 0) 0);
                hl = alloc (fst hr) (ListObj (snd hr) 0 0)
            in h_append_all fuel (fst hl) (snd hl) values)
      else (let hr = alloc h (SliceObj (copy_at (replicate (length values) 0) 0 values))
            in Inr (alloc (fst hr) (ListObj (snd hr) 0 (int (length values))))))"

subsection \<open>ListIterator over the store\<close>

text \<open>The iterator is private to its caller; it is a value holding addresses of nodes.\<close>

record h_ListIterator =
  hi_list :: addr
  hi_index :: int
  hi_stack :: "(addr option \<times> nat) list"
  hi_depth :: nat

definition h_Done :: "'a heap \<Rightarrow> h_ListIterator \<Rightarrow> error + bool" where
  "h_Done h itr =
     (case h_Len h (hi_list itr) of
        Inl e \<Rightarrow> Inl e
      | Inr n \<Rightarrow> Inr (hi_index itr < 0 \<or> hi_index itr \<ge> n))"

fun h_seek_loop :: "nat \<Rightarrow> 'a heap \<Rightarrow> h_ListIterator \<Rightarrow> int \<Rightarrow> error + h_ListIterator" where
  "h_seek_loop 0 h itr index = Inl Diverges"
| "h_seek_loop (Suc fuel) h itr index =
     (if hi_depth itr \<ge> length (hi_stack itr) then Inl OutOfBounds
      else case fst (hi_stack itr ! hi_depth itr) of
             None \<Rightarrow> Inl NilPointer
           | Some n \<Rightarrow>
               (case list_at h (hi_list itr) of
                  Inl e \<Rightarrow> Inl e
                | Inr (r, org, sz) \<Rightarrow>
                    (case lookup h n of
                       None \<Rightarrow> Inl NilPointer
                     | Some (BranchObj d cs) \<Rightarrow>
                         (let idx = slot d (org + index);
                              st = (hi_stack itr)[hi_depth itr := (Some n, idx)]
                          in if hi_depth itr + 1 \<ge> length st then Inl OutOfBounds
                             else h_seek_loop fuel h
                                    (itr\<lparr>hi_stack := st[hi_depth itr + 1 := (ptr_at cs idx, 0)],
                                         hi_depth := hi_depth itr + 1\<rparr>) index)
                     | Some (LeafObj cs occ) \<Rightarrow>
                         Inr (itr\<lparr>hi_stack := (hi_stack itr)[hi_depth itr :=
                                      (Some n, slot 0 (org + index))]\<rparr>)
                     | Some (SliceObj es) \<Rightarrow> Inl Diverges
                     | Some _ \<Rightarrow> Inl TypeAssertion)))"

definition h_seek :: "nat \<Rightarrow> 'a heap \<Rightarrow> h_ListIterator \<Rightarrow> int \<Rightarrow> error + h_ListIterator" where
  "h_seek fuel h itr index =
     (case list_at h (hi_list itr) of
        Inl e \<Rightarrow> Inl e
      | Inr (r, org, sz) \<Rightarrow>
          (case is_slice_at h r of
             Inl e \<Rightarrow> Inl e
           | Inr b \<Rightarrow> if b then Inr itr else h_seek_loop fuel h itr index))"

definition h_Seek :: "nat \<Rightarrow> 'a heap \<Rightarrow> h_ListIterator \<Rightarrow> int \<Rightarrow> error + h_ListIterator" where
  "h_Seek fuel h itr index =
     (case list_at h (hi_list itr) of
        Inl e \<Rightarrow> Inl e
      | Inr (r, org, sz) \<Rightarrow>
          if index < 0 \<or> index \<ge> sz then Inl OutOfBounds
          else if 0 < length (hi_stack itr)
          then h_seek fuel h (itr\<lparr>hi_index := index,
                                   hi_stack := (hi_stack itr)[0 := (Some r, 0)],
                                   hi_depth := 0\<rparr>) index
          else Inl OutOfBounds)"

definition h_First :: "nat \<Rightarrow> 'a heap \<Rightarrow> h_ListIterator \<Rightarrow> error + h_ListIterator" where
  "h_First fuel h itr =
     (case h_Len h (hi_list itr) of
        Inl e \<Rightarrow> Inl e
      | Inr n \<Rightarrow> if n \<noteq> 0 then h_Seek fuel h itr 0 else Inr itr)"

definition h_Iterator :: "nat \<Rightarrow> 'a heap \<Rightarrow> addr \<Rightarrow> error + h_ListIterator" where
  "h_Iterator fuel h l =
     h_First fuel h \<lparr>hi_list = l, hi_index = 0, hi_stack = replicate 32 (None, 0), hi_depth = 0\<rparr>"

definition h_Next ::
  "nat \<Rightarrow> 'a::zero heap \<Rightarrow> h_ListIterator \<Rightarrow> error + (h_ListIterator \<times> int \<times> 'a)" where
  "h_Next fuel h itr =
     (case h_Done h itr of
        Inl e \<Rightarrow> Inl e
      | Inr dn \<Rightarrow>
          if dn then Inr (itr, - 1, 0)
          else (case list_at h (hi_list itr) of
                  Inl e \<Rightarrow> Inl e
                | Inr (r, org, sz) \<Rightarrow>
                    (case lookup h r of
                       None \<Rightarrow> Inl NilPointer
                     | Some (SliceObj es) \<Rightarrow>
                         if 0 \<le> hi_index itr \<and> hi_index itr < int (length es)
                         then Inr (itr\<lparr>hi_index := hi_index itr + 1\<rparr>, hi_index itr,
                                   es ! nat (hi_index itr))
                         else Inl OutOfBounds
                     | Some _ \<Rightarrow>
                         if hi_depth itr \<ge> length (hi_stack itr) then Inl OutOfBounds
                         else (case hi_stack itr ! hi_depth itr of
                                 (None, ei) \<Rightarrow> Inl NilPointer
                               | (Some n, ei) \<Rightarrow>
                                   (case lookup h n of
                                      None \<Rightarrow> Inl NilPointer
                                    | Some (LeafObj cs occ) \<Rightarrow>
                                        if ei < length cs then
                                          (let itr' = itr\<lparr>hi_index := hi_index itr + 1\<rparr>
                                           in case h_Done h itr' of
                                                Inl e \<Rightarrow> Inl e
                                              | Inr dn' \<Rightarrow>
                                                  if dn' then Inr (itr', hi_index itr, cs ! ei)
                                                  else (case h_seek fuel h
                                                               (itr'\<lparr>hi_depth := pop_depth (hi_stack itr')
                                                                                   (hi_depth itr')\<rparr>)
                                                               (hi_index itr') of
                                                          Inl e \<Rightarrow> Inl e
                                                        | Inr itr'' \<Rightarrow>
                                                            Inr (itr'', hi_index itr, cs ! ei)))
                                        else Inl OutOfBounds
                                    | Some _ \<Rightarrow> Inl TypeAssertion)))))"

subsection \<open>Queue over the store\<close>

fun h_reverse_loop ::
  "nat \<Rightarrow> 'a::zero heap \<Rightarrow> h_ListIterator \<Rightarrow> 'a list \<Rightarrow> int \<Rightarrow> error + 'a list" where
  "h_reverse_loop 0 h itr vals idx = Inl Diverges"
| "h_reverse_loop (Suc fuel) h itr vals idx =
     (case h_Done h itr of
        Inl e \<Rightarrow> Inl e
      | Inr dn \<Rightarrow>
          if dn then Inr vals
          else (case h_Next (Suc fuel) h itr of
                  Inl e \<Rightarrow> Inl e
                | Inr (itr', i, v) \<Rightarrow>
                    if 0 \<le> idx \<and> idx < int (length vals)
                    then h_reverse_loop fuel h itr' (vals[nat idx := v]) (idx - 1)
                    else Inl OutOfBounds))"

definition h_reverseList ::
  "nat \<Rightarrow> 'a::zero heap \<Rightarrow> addr option \<Rightarrow> error + ('a heap \<times> addr)" where
  "h_reverseList fuel h lo =
     (case lo of
        None \<Rightarrow> h_NewList fuel h []
      | Some l \<Rightarrow>
          (case h_Len h l of
             Inl e \<Rightarrow> Inl e
           | Inr n \<Rightarrow>
               if n = 0 then h_NewList fuel h []
               else (case h_Iterator fuel h l of
                       Inl e \<Rightarrow> Inl e
                     | Inr itr \<Rightarrow>
                         (case h_reverse_loop fuel h itr (replicate (nat n) 0) (n - 1) of
                            Inl e \<Rightarrow> Inl e
                          | Inr vals \<Rightarrow> h_NewList fuel h vals))))"

definition queue_at :: "'a heap \<Rightarrow> addr \<Rightarrow> error + (addr option \<times> addr option \<times> int)" where
  "queue_at h q =
     (case lookup h q of
        None \<Rightarrow> Inl NilPointer
      | Some (QueueObj f b sz) \<Rightarrow> Inr (f, b, sz)
      | Some _ \<Rightarrow> Inl TypeAssertion)"

text \<open>The test \<open>l != nil && l.Len() > 0\<close>.\<close>

definition h_nonempty :: "'a heap \<Rightarrow> addr option \<Rightarrow> error + bool" where
  "h_nonempty h lo =
     (case lo of
        None \<Rightarrow> Inr False
      | Some l \<Rightarrow> (case h_Len h l of Inl e \<Rightarrow> Inl e | Inr n \<Rightarrow> Inr (n > 0)))"

definition h_NewQueue :: "nat \<Rightarrow> 'a::zero heap \<Rightarrow> 'a list \<Rightarrow> error + ('a heap \<times> addr)" where
  "h_NewQueue fuel h values =
     (case h_NewList fuel h values of
        Inl e \<Rightarrow> Inl e
      | Inr (h1, f) \<Rightarrow>
          (case h_NewList fuel h1 [] of
             Inl e \<Rightarrow> Inl e
           | Inr (h2, b) \<Rightarrow> Inr (alloc h2 (QueueObj (Some f) (Some b) (int (length values))))))"

definition h_Queue_Len :: "'a heap \<Rightarrow> addr option \<Rightarrow> error + int" where
  "h_Queue_Len h qo =
     (case qo of
        None \<Rightarrow> Inr 0
      | Some q \<Rightarrow> (case queue_at h q of Inl e \<Rightarrow> Inl e | Inr (f, b, sz) \<Rightarrow> Inr sz))"

definition h_normalize ::
  "nat \<Rightarrow> 'a::zero heap \<Rightarrow> addr option \<Rightarrow> error + ('a heap \<times> addr option)" where
  "h_normalize fuel h qo =
     (case qo of
        None \<Rightarrow> Inr (h, None)
      | Some q \<Rightarrow>
          (case queue_at h q of
             Inl e \<Rightarrow> Inl e
           | Inr (f, b, sz) \<Rightarrow>
               if sz = 0 then Inr (h, Some q)
               else (case h_nonempty h f of
                       Inl e \<Rightarrow> Inl e
                     | Inr fne \<Rightarrow>
                         if fne then Inr (h, Some q)
                         else (case h_nonempty h b of
                                 Inl e \<Rightarrow> Inl e
                               | Inr bne \<Rightarrow>
                                   if \<not> bne then Inr (h, Some q)
                                   else (case h_reverseList fuel h b of
                                           Inl e \<Rightarrow> Inl e
                                         | Inr (h1, f') \<Rightarrow>
                                             (case h_NewList fuel h1 [] of
                                                Inl e \<Rightarrow> Inl e
                                              | Inr (h2, b') \<Rightarrow>
                                                  (let hq = alloc h2 (QueueObj (Some f') (Some b') sz)
                                                   in Inr (fst hq, Some (snd hq)))))))))"

definition h_Enqueue ::
  "nat \<Rightarrow> 'a::zero heap \<Rightarrow> addr option \<Rightarrow> 'a \<Rightarrow> error + ('a heap \<times> addr)" where
  "h_Enqueue fuel h qo v =
     (case qo of
        None \<Rightarrow>
          (case h_NewList fuel h [] of
             Inl e \<Rightarrow> Inl e
           | Inr (h1, f) \<Rightarrow>
               (case h_NewList fuel h1 [v] of
                  Inl e \<Rightarrow> Inl e
                | Inr (h2, b) \<Rightarrow> Inr (alloc h2 (QueueObj (Some f) (Some b) 1))))
      | Some q \<Rightarrow>
          (case queue_at h q of
             Inl e \<Rightarrow> Inl e
           | Inr (f, b, sz) \<Rightarrow>
               (case b of
                  None \<Rightarrow> Inl NilPointer
                | Some bl \<Rightarrow>
                    (case h_Prepend fuel h bl v of
                       Inl e \<Rightarrow> Inl e
                     | Inr (h1, b') \<Rightarrow> Inr (alloc h1 (QueueObj f (Some b') (sz + 1)))))))"

text \<open>\<open>v := l.Get(0); newFront := l.Slice(1, l.Len())\<close> on the list at \<open>l\<close>.\<close>

definition h_pop_front ::
  "nat \<Rightarrow> 'a::zero heap \<Rightarrow> addr \<Rightarrow> error + ('a heap \<times> addr \<times> 'a)" where
  "h_pop_front fuel h l =
     (case h_Get fuel h l 0 of
        Inl e \<Rightarrow> Inl e
      | Inr v \<Rightarrow>
          (case h_Len h l of
             Inl e \<Rightarrow> Inl e
           | Inr n \<Rightarrow>
               (case h_Slice fuel h l 1 n of
                  Inl e \<Rightarrow> Inl e
                | Inr (h1, newFront) \<Rightarrow> Inr (h1, newFront, v))))"

definition h_Dequeue ::
  "nat \<Rightarrow> 'a::zero heap \<Rightarrow> addr option \<Rightarrow> error + ('a heap \<times> addr option \<times> 'a \<times> bool)" where
  "h_Dequeue fuel h qo =
     (case qo of
        None \<Rightarrow> Inr (h, None, 0, False)
      | Some q \<Rightarrow>
          (case queue_at h q of
             Inl e \<Rightarrow> Inl e
           | Inr (f, b, sz) \<Rightarrow>
               if sz = 0 then Inr (h, None, 0, False)
               else (case h_nonempty h f of
                       Inl e \<Rightarrow> Inl e
                     | Inr fne \<Rightarrow>
                         if fne then
                           (case f of
                              None \<Rightarrow> Inl NilPointer
                            | Some fl \<Rightarrow>
                                (case h_pop_front fuel h fl of
                                   Inl e \<Rightarrow> Inl e
                                 | Inr (h1, newFront, v) \<Rightarrow>
                                     (let hq = alloc h1 (QueueObj (Some newFront) b (sz - 1))
                                      in case h_normalize fuel (fst hq) (Some (snd hq)) of
                                           Inl e \<Rightarrow> Inl e
                                         | Inr (h2, nextQ) \<Rightarrow> Inr (h2, nextQ, v, True))))
                         else (case h_nonempty h b of
                                 Inl e \<Rightarrow> Inl e
                               | Inr bne \<Rightarrow>
                                   if bne then
                                     (case h_normalize fuel h (Some q) of
                                        Inl e \<Rightarrow> Inl e
                                      | Inr (h1, None) \<Rightarrow> Inl NilPointer
                                      | Inr (h1, Some norm) \<Rightarrow>
                                          (case queue_at h1 norm of
                                             Inl e \<Rightarrow> Inl e
                                           | Inr (nf, nb, nsz) \<Rightarrow>
                                               (case nf of
                                                  None \<Rightarrow> Inl NilPointer
                                                | Some fl \<Rightarrow>
                                                    (case h_pop_front fuel h1 fl of
                                                       Inl e \<Rightarrow> Inl e
                                                     | Inr (h2, newFront, v) \<Rightarrow>
                                                         (let hq = alloc h2 (QueueObj (Some newFront) nb (sz - 1))
                                                          in Inr (fst hq, Some (snd hq), v, True))))))
                                   else Inr (h, None, 0, False)))))"

text \<open>
  \<open>QueueIterator\<close> walks the queue from front to back without building anything: the front
  list by increasing index, then the back list by decreasing index.  \<open>h_Queue_values\<close>
  collects what \<open>Next\<close> returns until \<open>Done\<close>.
\<close>

record h_QueueIterator =
  qi_q :: "addr option"
  qi_stage :: int
  qi_frontIdx :: int
  qi_backIdx :: int
  qi_index :: int

definition h_Queue_First :: "'a heap \<Rightarrow> h_QueueIterator \<Rightarrow> error + h_QueueIterator" where
  "h_Queue_First h itr =
     (case qi_q itr of
        None \<Rightarrow> Inr (itr\<lparr>qi_stage := - 1\<rparr>)
      | Some q \<Rightarrow>
          (case queue_at h q of
             Inl e \<Rightarrow> Inl e
           | Inr (f, b, sz) \<Rightarrow>
               if sz = 0 then Inr (itr\<lparr>qi_stage := - 1\<rparr>)
               else (case h_nonempty h f of
                       Inl e \<Rightarrow> Inl e
                     | Inr fne \<Rightarrow>
                         if fne then Inr (itr\<lparr>qi_stage := 0, qi_frontIdx := 0, qi_backIdx := - 1,
                                                qi_index := 0\<rparr>)
                         else (case b of
                                 None \<Rightarrow> Inr (itr\<lparr>qi_stage := - 1\<rparr>)
                               | Some bl \<Rightarrow>
                                   (case h_Len h bl of
                                      Inl e \<Rightarrow> Inl e
                                    | Inr n \<Rightarrow>
                                        if n > 0
                                        then Inr (itr\<lparr>qi_stage := 1, qi_frontIdx := - 1,
                                                      qi_backIdx := n - 1, qi_index := 0\<rparr>)
                                        else Inr (itr\<lparr>qi_stage := - 1\<rparr>))))))"

definition h_Queue_Next ::
  "nat \<Rightarrow> 'a::zero heap \<Rightarrow> h_QueueIterator \<Rightarrow> error + (h_QueueIterator \<times> int \<times> 'a \<times> bool)" where
  "h_Queue_Next fuel h itr =
     (if qi_stage itr = - 1 then Inr (itr, - 1, 0, False)
      else case qi_q itr of
             None \<Rightarrow> Inl NilPointer
           | Some q \<Rightarrow>
               (case queue_at h q of
                  Inl e \<Rightarrow> Inl e
                | Inr (f, b, sz) \<Rightarrow>
                    if qi_stage itr = 0 then
                      (case f of
                         None \<Rightarrow> Inl NilPointer
                       | Some fl \<Rightarrow>
                           (case h_Get fuel h fl (qi_frontIdx itr) of
                              Inl e \<Rightarrow> Inl e
                            | Inr v \<Rightarrow>
                                (case h_Len h fl of
                                   Inl e \<Rightarrow> Inl e
                                 | Inr n \<Rightarrow>
                                     (let itr1 = itr\<lparr>qi_frontIdx := qi_frontIdx itr + 1,
                                                      qi_index := qi_index itr + 1\<rparr>
                                      in if qi_frontIdx itr1 \<ge> n then
                                           (case b of
                                              None \<Rightarrow> Inr (itr1\<lparr>qi_stage := - 1\<rparr>, qi_index itr, v, True)
                                            | Some bl \<Rightarrow>
                                                (case h_Len h bl of
                                                   Inl e \<Rightarrow> Inl e
                                                 | Inr m \<Rightarrow>
                                                     if m > 0
                                                     then Inr (itr1\<lparr>qi_stage := 1, qi_backIdx := m - 1\<rparr>,
                                                               qi_index itr, v, True)
                                                     else Inr (itr1\<lparr>qi_stage := - 1\<rparr>,
                                                               qi_index itr, v, True)))
                                         else Inr (itr1, qi_index itr, v, True)))))
                    else if qi_stage itr = 1 then
                      (case b of
                         None \<Rightarrow> Inl NilPointer
                       | Some bl \<Rightarrow>
                           (case h_Get fuel h bl (qi_backIdx itr) of
                              Inl e \<Rightarrow> Inl e
                            | Inr v \<Rightarrow>
                                (let itr1 = itr\<lparr>qi_backIdx := qi_backIdx itr - 1,
                                                 qi_index := qi_index itr + 1\<rparr>
                                 in Inr (if qi_backIdx itr1 < 0 then itr1\<lparr>qi_stage := - 1\<rparr> else itr1,
                                         qi_index itr, v, True))))
                    else Inr (itr, - 1, 0, False)))"

fun h_Queue_collect ::
  "nat \<Rightarrow> nat \<Rightarrow> 'a::zero heap \<Rightarrow> h_QueueIterator \<Rightarrow> error + 'a list" where
  "h_Queue_collect 0 fuel h itr = Inl Diverges"
| "h_Queue_collect (Suc steps) fuel h itr =
     (if qi_stage itr = - 1 then Inr []
      else case h_Queue_Next fuel h itr of
             Inl e \<Rightarrow> Inl e
           | Inr (itr', i, v, ok) \<Rightarrow>
               (case h_Queue_collect steps fuel h itr' of
                  Inl e \<Rightarrow> Inl e
                | Inr vs \<Rightarrow> Inr (v # vs)))"

definition h_Queue_values :: "nat \<Rightarrow> 'a::zero heap \<Rightarrow> addr option \<Rightarrow> error + 'a list" where
  "h_Queue_values fuel h qo =
     (case h_Queue_First h \<lparr>qi_q = qo, qi_stage = 0, qi_frontIdx = 0, qi_backIdx = 0, qi_index = 0\<rparr> of
        Inl e \<Rightarrow> Inl e
      | Inr itr \<Rightarrow> h_Queue_collect fuel fuel h itr)"

section \<open>Properties of the value model\<close>

subsection \<open>Slot arithmetic\<close>

lemma and_31: "(k::int) AND 31 = k mod 32"
proof -
  have "(31::int) = mask 5" by (simp add: mask_eq_exp_minus_1)
  then have "k AND 31 = take_bit 5 k" by (simp add: take_bit_eq_mask)
  then show ?thesis by (simp add: take_bit_eq_mod)
qed

lemma pow_32: "(2::int) ^ (d * 5) = 32 ^ d"
proof -
  have "(2::int) ^ (5 * d) = (2 ^ 5) ^ d" by (rule power_mult)
  then show ?thesis by (simp add: mult.commute)
qed

lemma slot_eq: "slot d i = nat (i div 32 ^ d mod 32)"
  by (simp add: slot_def listNodeMask_def listNodeSize_def listNodeBits_def drop_bit_eq_div
        and_31 pow_32)

lemma slot_lt: "slot d i < 32"
  by (simp add: slot_eq nat_less_iff)

lemma int_slot: "int (slot d i) = i div 32 ^ d mod 32"
  by (simp add: slot_eq)

lemma mod_split: "(i::int) mod 32 ^ Suc d = 32 ^ d * int (slot d i) + i mod 32 ^ d"
  using zmod_zmult2_eq [of 32 i "32 ^ d"] by (simp add: int_slot mult.commute)

lemma slot_cong: "(i::int) mod 32 ^ Suc d = j mod 32 ^ Suc d \<Longrightarrow> slot d i = slot d j"
proof -
  assume a: "i mod 32 ^ Suc d = j mod 32 ^ Suc d"
  have "i div 32 ^ d mod 32 = (i mod 32 ^ Suc d) div 32 ^ d" for i :: int
    using mod_split[of i d] by (simp add: int_slot)
  with a show ?thesis by (simp add: slot_eq)
qed

lemma mod_lower:
  "(i::int) mod 32 ^ Suc d = j mod 32 ^ Suc d \<Longrightarrow> i mod 32 ^ d = j mod 32 ^ d"
  by (metis dvd_triv_right mod_mod_cancel power_Suc2 mult.commute dvd_triv_left power_Suc)


subsection \<open>Well-formed tries\<close>

text \<open>
  A well-formed trie node: a leaf has 32 slots; a branch has a positive depth, 32 child
  slots, and every child present is a well-formed node exactly one level lower.  Slice
  nodes do not occur inside a trie.
\<close>

fun wf_node :: "'a listNode \<Rightarrow> bool" where
  "wf_node (listBranchNode d cs) =
     (0 < d \<and> length cs = listNodeSize \<and>
      (\<forall>c \<in> set cs. \<forall>n \<in> set_option c. depth n = d - 1 \<and> wf_node n))"
| "wf_node (listLeafNode cs occ) = (length cs = listNodeSize)"
| "wf_node (listSliceNode es) = False"

lemma listNodeSize_32 [simp]: "listNodeSize = 32"
  by (simp add: listNodeSize_def listNodeBits_def)

lemma wf_depth_0:
  "wf_node n \<Longrightarrow> depth n = 0 \<Longrightarrow> \<exists>cs occ. n = listLeafNode cs occ \<and> length cs = 32"
  by (cases n) auto

lemma wf_depth_Suc:
  "wf_node n \<Longrightarrow> depth n = Suc d \<Longrightarrow>
   \<exists>cs. n = listBranchNode (Suc d) cs \<and> length cs = 32 \<and>
     (\<forall>i c. child_at cs i = Some c \<longrightarrow> depth c = d \<and> wf_node c)"
proof (cases n)
  case (listBranchNode d' cs)
  assume "wf_node n" "depth n = Suc d"
  with listBranchNode have w: "d' = Suc d" "length cs = 32"
    "\<forall>c \<in> set cs. \<forall>n \<in> set_option c. depth n = d \<and> wf_node n" by simp_all
  have "depth c = d \<and> wf_node c" if "child_at cs i = Some c" for i c
  proof -
    from that have "Some c \<in> set cs" by (metis child_at_def nth_mem option.distinct(1))
    with w(3) show ?thesis by fastforce
  qed
  with listBranchNode w show ?thesis by blast
qed auto

lemma wf_branchI:
  "0 < d \<Longrightarrow> length cs = 32 \<Longrightarrow>
   (\<And>i c. i < 32 \<Longrightarrow> cs ! i = Some c \<Longrightarrow> depth c = d - 1 \<and> wf_node c) \<Longrightarrow>
   wf_node (listBranchNode d cs)"
  by (auto simp: in_set_conv_nth)

lemma node_set_branch:
  "node_set (listBranchNode (Suc d) cs) i v m =
     (case node_set (case child_at cs (slot (Suc d) i) of None \<Rightarrow> newListNode d | Some c \<Rightarrow> c) i v m of
        Inl e \<Rightarrow> Inl e
      | Inr c' \<Rightarrow> Inr (listBranchNode (Suc d) (cs[slot (Suc d) i := Some c'])))"
  unfolding node_set.simps Let_def diff_Suc_1 ..

lemma wf_newListNode: "wf_node (newListNode d :: 'a::zero listNode) \<and> depth (newListNode d :: 'a listNode) = d"
  by (auto simp: newListNode_def)

lemma child_at_update:
  "i < length cs \<Longrightarrow> child_at (cs[i := x]) j = (if j = i then x else child_at cs j)"
  by (auto simp: child_at_def)

lemma node_set_wf:
  "wf_node n \<Longrightarrow> depth n = d \<Longrightarrow>
   \<exists>n'. node_set n i v m = Inr n' \<and> wf_node n' \<and> depth n' = d"
proof (induction d arbitrary: n)
  case 0
  then obtain cs occ where "n = listLeafNode cs occ" "length cs = 32"
    using wf_depth_0 by blast
  then show ?case by (simp add: Let_def)
next
  case (Suc d)
  then obtain cs where n: "n = listBranchNode (Suc d) cs" and len: "length cs = 32"
    and ch: "\<And>i c. child_at cs i = Some c \<Longrightarrow> depth c = d \<and> wf_node c"
    using wf_depth_Suc by blast
  define child where "child = (case child_at cs (slot (Suc d) i) of None \<Rightarrow> newListNode d | Some c \<Rightarrow> c)"
  have "wf_node child \<and> depth child = d"
    using ch wf_newListNode by (auto simp: child_def split: option.splits)
  with Suc.IH obtain c' where c': "node_set child i v m = Inr c'" "wf_node c'" "depth c' = d"
    by blast
  have "wf_node (listBranchNode (Suc d) (cs[slot (Suc d) i := Some c']))"
  proof (rule wf_branchI)
    fix k c assume k: "k < 32" "cs[slot (Suc d) i := Some c'] ! k = Some c"
    show "depth c = Suc d - 1 \<and> wf_node c"
    proof (cases "k = slot (Suc d) i")
      case True
      with k len c' show ?thesis by simp
    next
      case False
      with k len have "child_at cs k = Some c" by (simp add: child_at_def)
      with ch show ?thesis by simp
    qed
  qed (simp_all add: len)
  with c' n show ?case by (simp add: child_def node_set_branch del: node_set.simps)
qed

lemma node_get_set_same:
  "wf_node n \<Longrightarrow> depth n = d \<Longrightarrow> node_set n i v m = Inr n' \<Longrightarrow> node_get n' i = Inr v"
proof (induction d arbitrary: n n')
  case 0
  then obtain cs occ where "n = listLeafNode cs occ" "length cs = 32"
    using wf_depth_0 by blast
  with 0 show ?case using slot_lt [of 0 i] by (auto simp: Let_def)
next
  case (Suc d)
  then obtain cs where n: "n = listBranchNode (Suc d) cs" and len: "length cs = 32"
    and ch: "\<And>i c. child_at cs i = Some c \<Longrightarrow> depth c = d \<and> wf_node c"
    using wf_depth_Suc by blast
  define child where "child = (case child_at cs (slot (Suc d) i) of None \<Rightarrow> newListNode d | Some c \<Rightarrow> c)"
  have wc: "wf_node child" "depth child = d"
    using ch wf_newListNode by (auto simp: child_def split: option.splits)
  with node_set_wf obtain c' where c': "node_set child i v m = Inr c'" by blast
  with Suc.prems n have n': "n' = listBranchNode (Suc d) (cs[slot (Suc d) i := Some c'])"
    by (simp add: child_def node_set_branch del: node_set.simps)
  from Suc.IH [OF wc c'] have "node_get c' i = Inr v" .
  with n' len slot_lt [of "Suc d" i] show ?case by (simp add: child_at_update)
qed

lemma node_get_newListNode:
  "node_get (newListNode d :: 'a::zero listNode) j = Inr x \<Longrightarrow> d = 0"
  using slot_lt [of d j] by (auto simp: newListNode_def child_at_def split: if_splits)

lemma node_get_set_other:
  "wf_node n \<Longrightarrow> depth n = d \<Longrightarrow> node_set n i v m = Inr n' \<Longrightarrow>
   i mod 32 ^ Suc d \<noteq> j mod 32 ^ Suc d \<Longrightarrow> node_get n j = Inr x \<Longrightarrow> node_get n' j = Inr x"
proof (induction d arbitrary: n n')
  case 0
  then obtain cs occ where n: "n = listLeafNode cs occ" "length cs = 32"
    using wf_depth_0 by blast
  from 0 have "slot 0 i \<noteq> slot 0 j"
    by (simp add: slot_eq)
  with 0 n show ?case using slot_lt [of 0 i] slot_lt [of 0 j] by (auto simp: Let_def)
next
  case (Suc d)
  then obtain cs where n: "n = listBranchNode (Suc d) cs" and len: "length cs = 32"
    and ch: "\<And>i c. child_at cs i = Some c \<Longrightarrow> depth c = d \<and> wf_node c"
    using wf_depth_Suc by blast
  define child where "child = (case child_at cs (slot (Suc d) i) of None \<Rightarrow> newListNode d | Some c \<Rightarrow> c)"
  have wc: "wf_node child" "depth child = d"
    using ch wf_newListNode by (auto simp: child_def split: option.splits)
  with node_set_wf obtain c' where c': "node_set child i v m = Inr c'" by blast
  with Suc.prems n have n': "n' = listBranchNode (Suc d) (cs[slot (Suc d) i := Some c'])"
    by (simp add: child_def node_set_branch del: node_set.simps)
  show ?case
  proof (cases "slot (Suc d) j = slot (Suc d) i")
    case False
    with Suc.prems(5) n n' len slot_lt [of "Suc d" i] show ?thesis
      by (simp add: child_at_update)
  next
    case True
    with Suc.prems(4) have ne: "i mod 32 ^ Suc d \<noteq> j mod 32 ^ Suc d"
      using mod_split [of i "Suc d"] mod_split [of j "Suc d"] by auto
    from Suc.prems(5) n True obtain c where c: "child_at cs (slot (Suc d) i) = Some c" "node_get c j = Inr x"
      by (auto split: option.splits)
    then have "child = c" by (simp add: child_def)
    with Suc.IH [OF wc c' ne] c have "node_get c' j = Inr x" by simp
    with n' len True slot_lt [of "Suc d" i] show ?thesis by (simp add: child_at_update)
  qed
qed

lemma node_get_mod:
  "wf_node n \<Longrightarrow> depth n = d \<Longrightarrow> i mod 32 ^ Suc d = j mod 32 ^ Suc d \<Longrightarrow>
   node_get n i = node_get n j"
proof (induction d arbitrary: n)
  case 0
  then obtain cs occ where n: "n = listLeafNode cs occ" "length cs = 32"
    using wf_depth_0 by blast
  from 0 have "slot 0 i = slot 0 j" by (simp add: slot_eq)
  with n show ?case by simp
next
  case (Suc d)
  then obtain cs where n: "n = listBranchNode (Suc d) cs" and len: "length cs = 32"
    and ch: "\<And>i c. child_at cs i = Some c \<Longrightarrow> depth c = d \<and> wf_node c"
    using wf_depth_Suc by blast
  from Suc.prems have s: "slot (Suc d) i = slot (Suc d) j" by (rule_tac slot_cong)
  from Suc.prems have m: "i mod 32 ^ Suc d = j mod 32 ^ Suc d" by (rule_tac mod_lower)
  show ?case
  proof (cases "child_at cs (slot (Suc d) i)")
    case None
    with n s show ?thesis by simp
  next
    case (Some c)
    with ch have "wf_node c" "depth c = d" by auto
    from Suc.IH [OF this m] n s Some show ?thesis by simp
  qed
qed



lemma slot_mono:
  assumes "(i::int) mod 32 ^ Suc d \<le> k mod 32 ^ Suc d"
  shows "slot d i \<le> slot d k"
proof (rule ccontr)
  assume "\<not> slot d i \<le> slot d k"
  then have "int (slot d k) + 1 \<le> int (slot d i)" by simp
  then have "(32::int) ^ d * (int (slot d k) + 1) \<le> 32 ^ d * int (slot d i)"
    by (intro mult_left_mono) simp_all
  then have c: "(32::int) ^ d * int (slot d k) + 32 ^ d \<le> 32 ^ d * int (slot d i)"
    by (simp add: ring_distribs)
  have a: "k mod 32 ^ d < 32 ^ d" by simp
  have b: "0 \<le> i mod 32 ^ d" by simp
  have "32 ^ d * int (slot d k) + k mod 32 ^ d < 32 ^ d * int (slot d i) + i mod 32 ^ d"
    using a b c by linarith
  then have "k mod 32 ^ Suc d < i mod 32 ^ Suc d"
    by (simp only: mod_split [of k d] mod_split [of i d])
  with assms show False by simp
qed

lemma slot_mono_lower:
  assumes "(i::int) mod 32 ^ Suc d \<le> k mod 32 ^ Suc d" "slot d i = slot d k"
  shows "i mod 32 ^ d \<le> k mod 32 ^ d"
  using assms unfolding mod_split [of k d] mod_split [of i d] by simp

lemma slot_0_mono: "(i::int) mod 32 ^ Suc 0 \<le> k mod 32 ^ Suc 0 \<Longrightarrow> slot 0 i \<le> slot 0 k"
  by (rule slot_mono)

lemma length_kept_from [simp]: "length cs = 32 \<Longrightarrow> idx < 32 \<Longrightarrow> length (kept_from m z idx cs) = 32"
  by (simp add: kept_from_def)

lemma nth_kept_from:
  "length cs = 32 \<Longrightarrow> idx < 32 \<Longrightarrow> j < 32 \<Longrightarrow>
   kept_from m z idx cs ! j = (if j < idx then z else cs ! j)"
  by (auto simp: kept_from_def nth_fold_update nth_copy_at)

lemma length_kept_upto [simp]: "length cs = 32 \<Longrightarrow> idx < 32 \<Longrightarrow> length (kept_upto m z idx cs) = 32"
  by (simp add: kept_upto_def)

lemma nth_kept_upto:
  "length cs = 32 \<Longrightarrow> idx < 32 \<Longrightarrow> j < 32 \<Longrightarrow>
   kept_upto m z idx cs ! j = (if j \<le> idx then cs ! j else z)"
  by (auto simp: kept_upto_def nth_fold_update nth_copy_at)

lemma child_at_kept_from_eq:
  "length cs = 32 \<Longrightarrow> idx < 32 \<Longrightarrow>
   child_at (kept_from m None idx cs) j = (if j < idx then None else child_at cs j)"
  by (auto simp: child_at_def nth_kept_from)

lemma child_at_kept_upto_eq:
  "length cs = 32 \<Longrightarrow> idx < 32 \<Longrightarrow>
   child_at (kept_upto m None idx cs) j = (if j \<le> idx then child_at cs j else None)"
  by (auto simp: child_at_def nth_kept_upto)




lemma deleteBefore_branch:
  "deleteBefore (listBranchNode d cs) index mutable =
     (if \<not> containsBefore (listBranchNode d cs) index then listBranchNode d cs
      else case child_at (kept_from mutable None (slot d index) cs) (slot d index) of
             None \<Rightarrow> listBranchNode d (kept_from mutable None (slot d index) cs)
           | Some c \<Rightarrow> listBranchNode d ((kept_from mutable None (slot d index) cs)
                          [slot d index := Some (deleteBefore c index mutable)]))"
  unfolding deleteBefore.simps Let_def ..

lemma deleteAfter_branch:
  "deleteAfter (listBranchNode d cs) index mutable =
     (if \<not> containsAfter (listBranchNode d cs) index then listBranchNode d cs
      else case child_at (kept_upto mutable None (slot d index) cs) (slot d index) of
             None \<Rightarrow> listBranchNode d (kept_upto mutable None (slot d index) cs)
           | Some c \<Rightarrow> listBranchNode d ((kept_upto mutable None (slot d index) cs)
                          [slot d index := Some (deleteAfter c index mutable)]))"
  unfolding deleteAfter.simps Let_def ..

lemma child_at_wf:
  "wf_node (listBranchNode d cs) \<Longrightarrow> child_at cs i = Some c \<Longrightarrow> depth c = d - 1 \<and> wf_node c"
  using wf_depth_Suc [of "listBranchNode d cs" "d - 1"] by auto

lemma deleteBefore_wf:
  "wf_node n \<Longrightarrow> depth n = d \<Longrightarrow>
   wf_node (deleteBefore n i m) \<and> depth (deleteBefore n i m) = d"
proof (induction d arbitrary: n)
  case 0
  then obtain cs occ where "n = listLeafNode cs occ" "length cs = 32"
    using wf_depth_0 by blast
  then show ?case using slot_lt [of 0 i] by (simp add: Let_def)
next
  case (Suc d)
  then obtain cs where n: "n = listBranchNode (Suc d) cs" and len: "length cs = 32"
    and ch: "\<And>i c. child_at cs i = Some c \<Longrightarrow> depth c = d \<and> wf_node c"
    using wf_depth_Suc by blast
  let ?idx = "slot (Suc d) i"
  let ?ks = "kept_from m None ?idx cs"
  have idx: "?idx < 32" by (rule slot_lt)
  have lk: "length ?ks = 32" using len idx by simp
  have wk: "wf_node (listBranchNode (Suc d) ?ks)"
  proof (rule wf_branchI)
    fix k c assume "k < 32" "?ks ! k = Some c"
    then have "child_at cs k = Some c"
      using len idx by (auto simp: nth_kept_from child_at_def split: if_splits)
    with ch show "depth c = Suc d - 1 \<and> wf_node c" by simp
  qed (simp_all add: lk)
  show ?case
  proof (cases "containsBefore n i")
    case False
    with n Suc.prems show ?thesis by (simp add: deleteBefore_branch del: deleteBefore.simps)
  next
    case True
    show ?thesis
    proof (cases "child_at ?ks ?idx")
      case None
      with True n wk show ?thesis by (simp add: deleteBefore_branch del: deleteBefore.simps)
    next
      case (Some c)
      then have "child_at cs ?idx = Some c" by (rule child_at_kept_from)
      with ch have "wf_node c" "depth c = d" by auto
      from Suc.IH [OF this] have c': "wf_node (deleteBefore c i m)" "depth (deleteBefore c i m) = d"
        by auto
      have "wf_node (listBranchNode (Suc d) (?ks[?idx := Some (deleteBefore c i m)]))"
      proof (rule wf_branchI)
        fix k c0 assume k: "k < 32" "?ks[?idx := Some (deleteBefore c i m)] ! k = Some c0"
        show "depth c0 = Suc d - 1 \<and> wf_node c0"
        proof (cases "k = ?idx")
          case True
          with k lk c' show ?thesis by simp
        next
          case False
          with k lk have "child_at ?ks k = Some c0" by (simp add: child_at_def)
          with child_at_wf [OF wk] show ?thesis by simp
        qed
      qed (simp_all add: lk)
      with True n Some show ?thesis by (simp add: deleteBefore_branch del: deleteBefore.simps)
    qed
  qed
qed

lemma deleteAfter_wf:
  "wf_node n \<Longrightarrow> depth n = d \<Longrightarrow>
   wf_node (deleteAfter n i m) \<and> depth (deleteAfter n i m) = d"
proof (induction d arbitrary: n)
  case 0
  then obtain cs occ where "n = listLeafNode cs occ" "length cs = 32"
    using wf_depth_0 by blast
  then show ?case using slot_lt [of 0 i] by (simp add: Let_def)
next
  case (Suc d)
  then obtain cs where n: "n = listBranchNode (Suc d) cs" and len: "length cs = 32"
    and ch: "\<And>i c. child_at cs i = Some c \<Longrightarrow> depth c = d \<and> wf_node c"
    using wf_depth_Suc by blast
  let ?idx = "slot (Suc d) i"
  let ?ks = "kept_upto m None ?idx cs"
  have idx: "?idx < 32" by (rule slot_lt)
  have lk: "length ?ks = 32" using len idx by simp
  have wk: "wf_node (listBranchNode (Suc d) ?ks)"
  proof (rule wf_branchI)
    fix k c assume "k < 32" "?ks ! k = Some c"
    then have "child_at cs k = Some c"
      using len idx by (auto simp: nth_kept_upto child_at_def split: if_splits)
    with ch show "depth c = Suc d - 1 \<and> wf_node c" by simp
  qed (simp_all add: lk)
  show ?case
  proof (cases "containsAfter n i")
    case False
    with n Suc.prems show ?thesis by (simp add: deleteAfter_branch del: deleteAfter.simps)
  next
    case True
    show ?thesis
    proof (cases "child_at ?ks ?idx")
      case None
      with True n wk show ?thesis by (simp add: deleteAfter_branch del: deleteAfter.simps)
    next
      case (Some c)
      then have "child_at cs ?idx = Some c" by (rule child_at_kept_upto)
      with ch have "wf_node c" "depth c = d" by auto
      from Suc.IH [OF this] have c': "wf_node (deleteAfter c i m)" "depth (deleteAfter c i m) = d"
        by auto
      have "wf_node (listBranchNode (Suc d) (?ks[?idx := Some (deleteAfter c i m)]))"
      proof (rule wf_branchI)
        fix k c0 assume k: "k < 32" "?ks[?idx := Some (deleteAfter c i m)] ! k = Some c0"
        show "depth c0 = Suc d - 1 \<and> wf_node c0"
        proof (cases "k = ?idx")
          case True
          with k lk c' show ?thesis by simp
        next
          case False
          with k lk have "child_at ?ks k = Some c0" by (simp add: child_at_def)
          with child_at_wf [OF wk] show ?thesis by simp
        qed
      qed (simp_all add: lk)
      with True n Some show ?thesis by (simp add: deleteAfter_branch del: deleteAfter.simps)
    qed
  qed
qed

lemma deleteBefore_get:
  "wf_node n \<Longrightarrow> depth n = d \<Longrightarrow> i mod 32 ^ Suc d \<le> k mod 32 ^ Suc d \<Longrightarrow>
   node_get n k = Inr x \<Longrightarrow> node_get (deleteBefore n i m) k = Inr x"
proof (induction d arbitrary: n)
  case 0
  then obtain cs occ where n: "n = listLeafNode cs occ" "length cs = 32"
    using wf_depth_0 by blast
  from "0.prems"(3) have le: "slot 0 i \<le> slot 0 k" by (rule slot_mono)
  from "0.prems"(4) n have x: "cs ! slot 0 k = x" using slot_lt [of 0 k] by simp
  show ?case unfolding n(1) using n(2) le x slot_lt [of 0 i] slot_lt [of 0 k]
    by (simp add: Let_def nth_kept_from)
next
  case (Suc d)
  then obtain cs where n: "n = listBranchNode (Suc d) cs" and len: "length cs = 32"
    and ch: "\<And>i c. child_at cs i = Some c \<Longrightarrow> depth c = d \<and> wf_node c"
    using wf_depth_Suc by blast
  let ?idx = "slot (Suc d) i"
  let ?ks = "kept_from m None ?idx cs"
  have idx: "?idx < 32" by (rule slot_lt)
  have lk: "length ?ks = 32" using len idx by simp
  from Suc.prems(3) have le: "?idx \<le> slot (Suc d) k" by (rule slot_mono)
  from Suc.prems(4) n obtain ck where ck: "child_at cs (slot (Suc d) k) = Some ck" "node_get ck k = Inr x"
    by (auto split: option.splits)
  have ksk: "child_at ?ks (slot (Suc d) k) = Some ck"
    using ck le len idx by (simp add: child_at_kept_from_eq)
  show ?case
  proof (cases "containsBefore n i")
    case False
    with n Suc.prems(4) show ?thesis by (simp add: deleteBefore_branch del: deleteBefore.simps)
  next
    case True
    show ?thesis
    proof (cases "child_at ?ks ?idx")
      case None
      with True n ksk ck show ?thesis by (simp add: deleteBefore_branch del: deleteBefore.simps)
    next
      case (Some c)
      then have c: "child_at cs ?idx = Some c" by (rule child_at_kept_from)
      with ch have wc: "wf_node c" "depth c = d" by auto
      have res: "deleteBefore n i m = listBranchNode (Suc d) (?ks[?idx := Some (deleteBefore c i m)])"
        using True n Some by (simp add: deleteBefore_branch del: deleteBefore.simps)
      show ?thesis
      proof (cases "slot (Suc d) k = ?idx")
        case True
        with c ck have "ck = c" by simp
        from Suc.prems(3) True [symmetric] have "i mod 32 ^ Suc d \<le> k mod 32 ^ Suc d"
          by (rule slot_mono_lower)
        from Suc.IH [OF wc this] ck \<open>ck = c\<close>
        have "node_get (deleteBefore c i m) k = Inr x" by simp
        with res True lk idx show ?thesis by (simp add: child_at_update)
      next
        case False
        with res ksk ck lk idx show ?thesis by (simp add: child_at_update)
      qed
    qed
  qed
qed

lemma deleteAfter_get:
  "wf_node n \<Longrightarrow> depth n = d \<Longrightarrow> k mod 32 ^ Suc d \<le> i mod 32 ^ Suc d \<Longrightarrow>
   node_get n k = Inr x \<Longrightarrow> node_get (deleteAfter n i m) k = Inr x"
proof (induction d arbitrary: n)
  case 0
  then obtain cs occ where n: "n = listLeafNode cs occ" "length cs = 32"
    using wf_depth_0 by blast
  from "0.prems"(3) have le: "slot 0 k \<le> slot 0 i" by (rule slot_mono)
  from "0.prems"(4) n have x: "cs ! slot 0 k = x" using slot_lt [of 0 k] by simp
  show ?case unfolding n(1) using n(2) le x slot_lt [of 0 i] slot_lt [of 0 k]
    by (simp add: Let_def nth_kept_upto)
next
  case (Suc d)
  then obtain cs where n: "n = listBranchNode (Suc d) cs" and len: "length cs = 32"
    and ch: "\<And>i c. child_at cs i = Some c \<Longrightarrow> depth c = d \<and> wf_node c"
    using wf_depth_Suc by blast
  let ?idx = "slot (Suc d) i"
  let ?ks = "kept_upto m None ?idx cs"
  have idx: "?idx < 32" by (rule slot_lt)
  have lk: "length ?ks = 32" using len idx by simp
  from Suc.prems(3) have le: "slot (Suc d) k \<le> ?idx" by (rule slot_mono)
  from Suc.prems(4) n obtain ck where ck: "child_at cs (slot (Suc d) k) = Some ck" "node_get ck k = Inr x"
    by (auto split: option.splits)
  have ksk: "child_at ?ks (slot (Suc d) k) = Some ck"
    using ck le len idx by (simp add: child_at_kept_upto_eq)
  show ?case
  proof (cases "containsAfter n i")
    case False
    with n Suc.prems(4) show ?thesis by (simp add: deleteAfter_branch del: deleteAfter.simps)
  next
    case True
    show ?thesis
    proof (cases "child_at ?ks ?idx")
      case None
      with True n ksk ck show ?thesis by (simp add: deleteAfter_branch del: deleteAfter.simps)
    next
      case (Some c)
      then have c: "child_at cs ?idx = Some c" by (rule child_at_kept_upto)
      with ch have wc: "wf_node c" "depth c = d" by auto
      have res: "deleteAfter n i m = listBranchNode (Suc d) (?ks[?idx := Some (deleteAfter c i m)])"
        using True n Some by (simp add: deleteAfter_branch del: deleteAfter.simps)
      show ?thesis
      proof (cases "slot (Suc d) k = ?idx")
        case True
        with c ck have "ck = c" by simp
        from Suc.prems(3) True have "k mod 32 ^ Suc d \<le> i mod 32 ^ Suc d"
          by (rule slot_mono_lower)
        from Suc.IH [OF wc this] ck \<open>ck = c\<close>
        have "node_get (deleteAfter c i m) k = Inr x" by simp
        with res True lk idx show ?thesis by (simp add: child_at_update)
      next
        case False
        with res ksk ck lk idx show ?thesis by (simp add: child_at_update)
      qed
    qed
  qed
qed



declare node_set.simps [simp del] deleteBefore.simps [simp del] deleteAfter.simps [simp del]

lemma append_trie_unfold:
  "append_trie l v m =
     (case node_set (if size_l l + origin l \<ge> cap l
                     then listBranchNode (depth (root l) + 1)
                            ((replicate listNodeSize None)[0 := Some (root l)])
                     else root l) (origin l + size_l l) v m of
        Inl e \<Rightarrow> Inl e
      | Inr r \<Rightarrow> Inr (l\<lparr>root := r, size_l := size_l l + 1\<rparr>))"
  by (simp add: append_trie_def Let_def clone_def split: sum.splits)

subsection \<open>Representation invariant of a list\<close>

text \<open>
  \<open>repr l xs\<close>: the list value \<open>l\<close> is well formed and holds exactly the sequence
  \<open>xs\<close>.  A slice-backed list stores \<open>xs\<close> itself and has at most 32 elements; a
  trie-backed list has a well-formed root of depth below 31 (the iterator stack has 32
  entries), a window \<open>[origin, origin + size)\<close> inside the \<open>32 ^ (depth + 1)\<close>
  addressable slots, and the element \<open>i\<close> at path \<open>origin + i\<close>.
\<close>

definition repr :: "'a List \<Rightarrow> 'a list \<Rightarrow> bool" where
  "repr l xs =
     (size_l l = int (length xs) \<and>
      (case root l of
         listSliceNode es \<Rightarrow> es = xs \<and> length xs \<le> 32
       | _ \<Rightarrow> wf_node (root l) \<and> 0 \<le> origin l
              \<and> origin l + size_l l \<le> 32 ^ Suc (depth (root l))
              \<and> (\<forall>i < length xs. node_get (root l) (origin l + int i) = Inr (xs ! i))))"

lemma repr_slice:
  "repr \<lparr>root = listSliceNode es, origin = o', size_l = s\<rparr> xs
   = (s = int (length xs) \<and> es = xs \<and> length xs \<le> 32)"
  by (simp add: repr_def)

lemma repr_trie:
  "\<not> is_slice (root l) \<Longrightarrow>
   repr l xs = (size_l l = int (length xs) \<and> wf_node (root l) \<and> 0 \<le> origin l
              \<and> origin l + size_l l \<le> 32 ^ Suc (depth (root l))
              \<and> (\<forall>i < length xs. node_get (root l) (origin l + int i) = Inr (xs ! i)))"
  by (cases "root l") (simp_all add: repr_def is_slice_def)

lemma wf_not_slice: "wf_node n \<Longrightarrow> \<not> is_slice n"
  by (cases n) (simp_all add: is_slice_def)

lemma Get_trie:
  "\<not> is_slice (root l) \<Longrightarrow> 0 \<le> i \<Longrightarrow> i < size_l l \<Longrightarrow>
   Get l i = node_get (root l) (origin l + i)"
  by (cases "root l") (simp_all add: Get_def is_slice_def)

lemma repr_Get: "repr l xs \<Longrightarrow> i < length xs \<Longrightarrow> Get l (int i) = Inr (xs ! i)"
proof (cases "is_slice (root l)")
  case True
  assume "repr l xs" "i < length xs"
  with True show ?thesis by (cases "root l") (simp_all add: repr_def Get_def is_slice_def)
next
  case False
  assume "repr l xs" "i < length xs"
  with False show ?thesis by (simp add: repr_trie Get_trie)
qed

lemma repr_Len: "repr l xs \<Longrightarrow> Len l = int (length xs)"
  by (simp add: repr_def Len_def)

text \<open>Distinct indices below the capacity have distinct residues.\<close>

lemma mod_neq:
  "0 \<le> (i::int) \<Longrightarrow> i < m \<Longrightarrow> 0 \<le> j \<Longrightarrow> j < m \<Longrightarrow> i \<noteq> j \<Longrightarrow> i mod m \<noteq> j mod m"
  by simp

lemma set_preserves_window:
  assumes wf: "wf_node r" and set: "node_set r p v m = Inr r'"
    and p: "0 \<le> p" "p < 32 ^ Suc (depth r)"
    and k: "0 \<le> k" "k < 32 ^ Suc (depth r)" "k \<noteq> p"
    and g: "node_get r k = Inr x"
  shows "node_get r' k = Inr x"
proof -
  have "p mod 32 ^ Suc (depth r) \<noteq> k mod 32 ^ Suc (depth r)"
    using p k by simp
  from node_get_set_other [OF wf refl set this g] show ?thesis .
qed

lemma cap_eq: "cap l = 32 ^ depth (root l)"
  by (simp add: cap_def push_bit_eq_mult listNodeBits_def pow_32)

lemma power32_mono: "(32::int) ^ d \<le> 32 ^ Suc d"
  by simp

lemma append_trie_repr:
  assumes r: "repr l xs" and ns: "\<not> is_slice (root l)"
  shows "\<exists>l'. append_trie l v m = Inr l' \<and> repr l' (xs @ [v]) \<and> \<not> is_slice (root l')"
proof -
  from r ns have s: "size_l l = int (length xs)" and wf: "wf_node (root l)"
    and o: "0 \<le> origin l" and b: "origin l + size_l l \<le> 32 ^ Suc (depth (root l))"
    and g: "\<And>i. i < length xs \<Longrightarrow> node_get (root l) (origin l + int i) = Inr (xs ! i)"
    by (simp_all add: repr_trie)
  define grow where "grow = (size_l l + origin l \<ge> cap l)"
  define r0 where "r0 = (if grow then listBranchNode (depth (root l) + 1)
                                        ((replicate listNodeSize None)[0 := Some (root l)])
                         else root l)"
  have wf0: "wf_node r0"
  proof (cases grow)
    case True
    have "wf_node (listBranchNode (depth (root l) + 1) ((replicate 32 None)[0 := Some (root l)]))"
    proof (rule wf_branchI)
      fix i c assume "i < 32" "(replicate 32 None)[0 := Some (root l)] ! i = Some c"
      then have "c = root l" by (cases "i = 0") auto
      with wf show "depth c = depth (root l) + 1 - 1 \<and> wf_node c" by simp
    qed simp_all
    with True show ?thesis by (simp add: r0_def)
  next
    case False
    with wf show ?thesis by (simp add: r0_def)
  qed
  have b0: "origin l + size_l l < 32 ^ Suc (depth r0)"
  proof (cases grow)
    case True
    have lt: "(32::int) ^ Suc (depth (root l)) < 32 ^ Suc (Suc (depth (root l)))" by simp
    have d0: "depth r0 = Suc (depth (root l))" using True by (simp add: r0_def)
    show ?thesis unfolding d0 using b lt by linarith
  next
    case False
    then have a: "origin l + size_l l < 32 ^ depth (root l)" by (simp add: grow_def cap_eq)
    have le: "(32::int) ^ depth (root l) \<le> 32 ^ Suc (depth (root l))" by simp
    have d0: "depth r0 = depth (root l)" using False by (simp add: r0_def)
    show ?thesis unfolding d0 using a le by linarith
  qed
  have g0: "node_get r0 (origin l + int i) = Inr (xs ! i)" if "i < length xs" for i
  proof (cases grow)
    case True
    from that s o b have "0 \<le> origin l + int i" "origin l + int i < 32 ^ Suc (depth (root l))"
      by simp_all
    then have "(origin l + int i) div 32 ^ Suc (depth (root l)) = 0" by simp
    then have "slot (Suc (depth (root l))) (origin l + int i) = 0" by (simp add: slot_eq)
    with True g [OF that] show ?thesis by (simp add: r0_def child_at_def)
  next
    case False
    with g [OF that] show ?thesis by (simp add: r0_def)
  qed
  from node_set_wf [OF wf0 refl] obtain r' where
    r': "node_set r0 (origin l + size_l l) v m = Inr r'" "wf_node r'" "depth r' = depth r0"
    by blast
  have unf: "append_trie l v m = Inr (l\<lparr>root := r', size_l := size_l l + 1\<rparr>)"
    using r' by (simp add: append_trie_unfold r0_def grow_def)
  have "repr (l\<lparr>root := r', size_l := size_l l + 1\<rparr>) (xs @ [v])"
  proof -
    have "node_get r' (origin l + int i) = Inr ((xs @ [v]) ! i)" if "i < length (xs @ [v])" for i
    proof (cases "i < length xs")
      case True
      have "node_get r' (origin l + int i) = Inr (xs ! i)"
      proof (rule set_preserves_window [OF wf0 r'(1) _ _ _ _ _ g0 [OF True]])
        show "0 \<le> origin l + size_l l" using o s by simp
        show "origin l + size_l l < 32 ^ Suc (depth r0)" by (rule b0)
        show "0 \<le> origin l + int i" using o by simp
        show "origin l + int i < 32 ^ Suc (depth r0)" using b0 True s by simp
        show "origin l + int i \<noteq> origin l + size_l l" using True s by simp
      qed
      with True show ?thesis by (simp add: nth_append)
    next
      case False
      with that have "i = length xs" by simp
      with node_get_set_same [OF wf0 refl r'(1)] s show ?thesis by simp
    qed
    moreover have "origin l + (size_l l + 1) \<le> 32 ^ Suc (depth r')"
      using b0 r'(3) by simp
    ultimately show ?thesis
      using r'(2) o s wf_not_slice [OF r'(2)] by (simp add: repr_trie)
  qed
  with unf wf_not_slice [OF r'(2)] show ?thesis by simp
qed



lemma prepend_trie_unfold:
  "prepend_trie l v m =
     (let grown = (origin l = 0);
          r0 = (if grown then listBranchNode (depth (root l) + 1)
                                ((replicate listNodeSize None)[listNodeSize - 1 := Some (root l)])
                else root l);
          o0 = (if grown then origin l + push_bit (depth r0 * listNodeBits) (int listNodeSize - 1)
                else origin l)
      in case node_set r0 (o0 - 1) v m of
           Inl e \<Rightarrow> Inl e
         | Inr r \<Rightarrow> Inr (l\<lparr>root := r, origin := o0 - 1, size_l := size_l l + 1\<rparr>))"
  by (simp add: prepend_trie_def Let_def clone_def split: sum.splits)

lemma push_31: "push_bit (Suc d * listNodeBits) (int listNodeSize - 1) = 31 * (32::int) ^ Suc d"
  using pow_32 [of "Suc d"] by (simp add: push_bit_eq_mult listNodeBits_def del: power_Suc)

lemma slot_top:
  assumes "0 \<le> k" "k < 32 ^ Suc d"
  shows "slot (Suc d) (31 * 32 ^ Suc d + k) = 31"
proof -
  have "(31 * 32 ^ Suc d + k) div 32 ^ Suc d = 31"
    using assms by (simp add: div_pos_pos_trivial del: power_Suc)
  then show ?thesis by (simp add: slot_eq del: power_Suc)
qed

lemma prepend_trie_repr:
  assumes r: "repr l xs" and ns: "\<not> is_slice (root l)"
  shows "\<exists>l'. prepend_trie l v m = Inr l' \<and> repr l' (v # xs) \<and> \<not> is_slice (root l')"
proof -
  from r ns have s: "size_l l = int (length xs)" and wf: "wf_node (root l)"
    and o: "0 \<le> origin l" and b: "origin l + size_l l \<le> 32 ^ Suc (depth (root l))"
    and g: "\<And>i. i < length xs \<Longrightarrow> node_get (root l) (origin l + int i) = Inr (xs ! i)"
    by (simp_all add: repr_trie)
  let ?d = "depth (root l)"
  define grown where "grown = (origin l = 0)"
  define r0 where "r0 = (if grown then listBranchNode (?d + 1)
                                ((replicate listNodeSize None)[listNodeSize - 1 := Some (root l)])
                         else root l)"
  define o0 where "o0 = (if grown then origin l + push_bit (depth r0 * listNodeBits) (int listNodeSize - 1)
                else origin l)"
  have o0_eq: "o0 = (if grown then 31 * 32 ^ Suc ?d else origin l)"
    using push_31 [of ?d] by (simp add: o0_def r0_def grown_def del: power_Suc)
  have wf0: "wf_node r0"
  proof (cases grown)
    case True
    have "wf_node (listBranchNode (?d + 1) ((replicate 32 None)[31 := Some (root l)]))"
    proof (rule wf_branchI)
      fix i c assume "i < 32" "(replicate 32 None)[31 := Some (root l)] ! i = Some c"
      then have "c = root l" by (cases "i = 31") auto
      with wf show "depth c = ?d + 1 - 1 \<and> wf_node c" by simp
    qed simp_all
    with True show ?thesis by (simp add: r0_def)
  next
    case False
    with wf show ?thesis by (simp add: r0_def)
  qed
  have pos: "0 < o0"
  proof (cases grown)
    case True
    have "(0::int) < 31 * 32 ^ Suc ?d" by simp
    with True o0_eq show ?thesis by simp
  next
    case False
    with o o0_eq show ?thesis by (simp add: grown_def)
  qed
  have b0: "o0 + size_l l \<le> 32 ^ Suc (depth r0)"
  proof (cases grown)
    case True
    then have sz: "size_l l \<le> 32 ^ Suc ?d" using b by (simp add: grown_def)
    have d0: "depth r0 = Suc ?d" using True by (simp add: r0_def)
    have "(32::int) ^ Suc (Suc ?d) = 31 * 32 ^ Suc ?d + 32 ^ Suc ?d" by simp
    with sz show ?thesis unfolding d0 o0_eq using True by simp
  next
    case False
    with b show ?thesis by (simp add: o0_eq r0_def)
  qed
  have g0: "node_get r0 (o0 + int i) = Inr (xs ! i)" if "i < length xs" for i
  proof (cases grown)
    case True
    then have sz: "size_l l \<le> 32 ^ Suc ?d" using b by (simp add: grown_def)
    with that s have k: "0 \<le> int i" "int i < 32 ^ Suc ?d" by simp_all
    have sl: "slot (Suc ?d) (31 * 32 ^ Suc ?d + int i) = 31"
      by (rule slot_top [OF k])
    have "(31 * 32 ^ Suc ?d + int i) mod 32 ^ Suc ?d = int i mod 32 ^ Suc ?d"
      by (simp del: power_Suc)
    from node_get_mod [OF wf refl this] g [OF that] True
    have "node_get (root l) (31 * 32 ^ Suc ?d + int i) = Inr (xs ! i)"
      by (simp add: grown_def)
    with True sl show ?thesis
      by (simp add: r0_def o0_eq child_at_def del: power_Suc)
  next
    case False
    with g [OF that] show ?thesis by (simp add: r0_def o0_eq)
  qed
  from node_set_wf [OF wf0 refl] obtain r' where
    r': "node_set r0 (o0 - 1) v m = Inr r'" "wf_node r'" "depth r' = depth r0"
    by blast
  have "prepend_trie l v m =
      (case node_set r0 (o0 - 1) v m of
         Inl e \<Rightarrow> Inl e
       | Inr r \<Rightarrow> Inr (l\<lparr>root := r, origin := o0 - 1, size_l := size_l l + 1\<rparr>))"
    unfolding prepend_trie_unfold Let_def r0_def o0_def grown_def by (rule refl)
  with r' have unf:
    "prepend_trie l v m = Inr (l\<lparr>root := r', origin := o0 - 1, size_l := size_l l + 1\<rparr>)"
    by simp
  have "repr (l\<lparr>root := r', origin := o0 - 1, size_l := size_l l + 1\<rparr>) (v # xs)"
  proof -
    have "node_get r' (o0 - 1 + int i) = Inr ((v # xs) ! i)" if "i < length (v # xs)" for i
    proof (cases i)
      case 0
      with node_get_set_same [OF wf0 refl r'(1)] show ?thesis by simp
    next
      case (Suc j)
      with that have j: "j < length xs" by simp
      have "node_get r' (o0 + int j) = Inr (xs ! j)"
      proof (rule set_preserves_window [OF wf0 r'(1) _ _ _ _ _ g0 [OF j]])
        show "0 \<le> o0 - 1" using pos by simp
        show "o0 - 1 < 32 ^ Suc (depth r0)" using b0 s by linarith
        show "0 \<le> o0 + int j" using pos by simp
        show "o0 + int j < 32 ^ Suc (depth r0)" using b0 j s by linarith
        show "o0 + int j \<noteq> o0 - 1" by simp
      qed
      with Suc show ?thesis by (simp add: algebra_simps)
    qed
    moreover have "o0 - 1 + (size_l l + 1) \<le> 32 ^ Suc (depth r')"
      using b0 r'(3) by simp
    moreover have "0 \<le> o0 - 1" using pos by simp
    ultimately show ?thesis
      using r'(2) s wf_not_slice [OF r'(2)] by (simp add: repr_trie)
  qed
  with unf wf_not_slice [OF r'(2)] show ?thesis by simp
qed



lemma copy_at_all: "copy_at (replicate (length xs) z) 0 xs = xs"
  by (simp add: copy_at_def)

lemma drop_replicate_last: "drop n (z # replicate n z) = [z]"
  by (induction n) simp_all

lemma copy_at_append: "copy_at (z # replicate (length xs) z) 0 xs = xs @ [z]"
  by (simp add: copy_at_def drop_replicate_last)

lemma copy_at_prepend: "copy_at (v # replicate (length xs) z) (Suc 0) xs = v # xs"
  by (simp add: copy_at_def)

lemma chunks_small: "xs \<noteq> [] \<Longrightarrow> length xs \<le> 32 \<Longrightarrow> chunks xs = [xs]"
  by (subst chunks.simps) (simp add: chunks.simps)

lemma toTrie_small:
  assumes "length es \<le> 32"
  shows "\<exists>r. toTrie es m = Inr r \<and> wf_node r \<and> depth r = 0
             \<and> (\<forall>i < length es. node_get r (int i) = Inr (es ! i))"
proof (cases "es = []")
  case True
  then show ?thesis by (simp add: toTrie_def)
next
  case False
  have "toTrie es m = Inr (leaf_of_chunk es)"
    using False assms by (simp add: toTrie_def chunks_small wrap_layers.simps)
  moreover have "wf_node (leaf_of_chunk es)" "depth (leaf_of_chunk es) = 0"
    by (simp_all add: leaf_of_chunk_def)
  moreover have "node_get (leaf_of_chunk es) (int i) = Inr (es ! i)" if "i < length es" for i
  proof -
    from that assms have i: "i < 32" by simp
    then have "slot 0 (int i) = i" by (simp add: slot_eq)
    with that i show ?thesis by (simp add: leaf_of_chunk_def nth_copy_at)
  qed
  ultimately show ?thesis by blast
qed

lemma List_append_trie:
  "\<not> is_slice (root l) \<Longrightarrow> List_append l v m = append_trie l v m"
  by (cases "root l") (simp_all add: List_append_def is_slice_def)

lemma List_prepend_trie:
  "\<not> is_slice (root l) \<Longrightarrow> List_prepend l v m = prepend_trie l v m"
  by (cases "root l") (simp_all add: List_prepend_def is_slice_def)

lemma repr_of_toTrie:
  assumes "length xs \<le> 32" "wf_node r" "depth r = 0"
    "\<forall>i < length xs. node_get r (int i) = Inr (xs ! i)"
  shows "repr \<lparr>root = r, origin = 0, size_l = int (length xs)\<rparr> xs"
  using assms wf_not_slice [OF assms(2)] by (simp add: repr_trie)

lemma List_append_repr:
  assumes r: "repr l xs"
  shows "\<exists>l'. List_append l v m = Inr l' \<and> repr l' (xs @ [v])"
proof (cases "is_slice (root l)")
  case False
  with append_trie_repr [OF r False] show ?thesis by (auto simp: List_append_trie)
next
  case True
  then obtain es where es: "root l = listSliceNode es" by (cases "root l") (simp_all add: is_slice_def)
  with r have s: "size_l l = int (length xs)" "es = xs" "length xs \<le> 32"
    by (simp_all add: repr_def)
  show ?thesis
  proof (cases "size_l l < listSliceThreshold")
    case True
    then have "length xs < 32" using s by (simp add: listSliceThreshold_def)
    with es s True show ?thesis
      by (simp add: List_append_def Let_def clone_def copy_at_append nat_add_distrib repr_def)
  next
    case False
    from toTrie_small [OF s(3), of True] obtain tr where
      tr: "toTrie xs True = Inr tr" "wf_node tr" "depth tr = 0"
      "\<forall>i < length xs. node_get tr (int i) = Inr (xs ! i)" by blast
    from repr_of_toTrie [OF s(3) tr(2,3,4)]
    have "repr \<lparr>root = tr, origin = 0, size_l = int (length xs)\<rparr> xs" .
    from append_trie_repr [OF this] wf_not_slice [OF tr(2)]
    obtain l' where "append_trie \<lparr>root = tr, origin = 0, size_l = int (length xs)\<rparr> v m = Inr l'"
      "repr l' (xs @ [v])" by auto
    with es s False tr(1) show ?thesis by (simp add: List_append_def)
  qed
qed

lemma List_prepend_repr:
  assumes r: "repr l xs"
  shows "\<exists>l'. List_prepend l v m = Inr l' \<and> repr l' (v # xs)"
proof (cases "is_slice (root l)")
  case False
  with prepend_trie_repr [OF r False] show ?thesis by (auto simp: List_prepend_trie)
next
  case True
  then obtain es where es: "root l = listSliceNode es" by (cases "root l") (simp_all add: is_slice_def)
  with r have s: "size_l l = int (length xs)" "es = xs" "length xs \<le> 32"
    by (simp_all add: repr_def)
  show ?thesis
  proof (cases "size_l l < listSliceThreshold")
    case True
    then have "length xs < 32" using s by (simp add: listSliceThreshold_def)
    with es s True show ?thesis
      by (simp add: List_prepend_def Let_def clone_def copy_at_prepend nat_add_distrib repr_def)
  next
    case False
    from toTrie_small [OF s(3), of True] obtain tr where
      tr: "toTrie xs True = Inr tr" "wf_node tr" "depth tr = 0"
      "\<forall>i < length xs. node_get tr (int i) = Inr (xs ! i)" by blast
    from repr_of_toTrie [OF s(3) tr(2,3,4)]
    have "repr \<lparr>root = tr, origin = 0, size_l = int (length xs)\<rparr> xs" .
    from prepend_trie_repr [OF this] wf_not_slice [OF tr(2)]
    obtain l' where "prepend_trie \<lparr>root = tr, origin = 0, size_l = int (length xs)\<rparr> v m = Inr l'"
      "repr l' (v # xs)" by auto
    with es s False tr(1) show ?thesis by (simp add: List_prepend_def)
  qed
qed

lemma append_all_repr:
  "repr l xs \<Longrightarrow> \<not> is_slice (root l) \<Longrightarrow>
   \<exists>l'. append_all l vs = Inr l' \<and> repr l' (xs @ vs) \<and> \<not> is_slice (root l')"
proof (induction vs arbitrary: l xs)
  case Nil
  then show ?case by simp
next
  case (Cons v vs)
  from append_trie_repr [OF Cons.prems] obtain l1 where
    l1: "append_trie l v True = Inr l1" "repr l1 (xs @ [v])" "\<not> is_slice (root l1)" by blast
  from Cons.IH [OF l1(2,3)] obtain l' where
    "append_all l1 vs = Inr l'" "repr l' ((xs @ [v]) @ vs)" "\<not> is_slice (root l')" by blast
  with l1(1) Cons.prems(2) show ?case by (simp add: List_append_trie)
qed

lemma repr_empty_leaf:
  "repr \<lparr>root = listLeafNode (replicate listNodeSize 0) 0, origin = 0, size_l = 0\<rparr> []"
  by (simp add: repr_def)

lemma NewList_repr: "\<exists>l. NewList xs = Inr l \<and> repr l xs"
proof (cases "int (length xs) > listSliceThreshold")
  case True
  from append_all_repr [OF repr_empty_leaf, of xs] obtain l' where
    "append_all \<lparr>root = listLeafNode (replicate listNodeSize 0) 0, origin = 0, size_l = 0\<rparr> xs = Inr l'"
    "repr l' xs" by (auto simp: is_slice_def)
  with True show ?thesis by (simp add: NewList_def)
next
  case False
  then show ?thesis
    by (simp add: NewList_def copy_at_all repr_def listSliceThreshold_def)
qed

lemma List_set_repr:
  assumes r: "repr l xs" and i: "i < length xs"
  shows "\<exists>l'. List_set l (int i) v m = Inr l' \<and> repr l' (xs[i := v])"
proof (cases "is_slice (root l)")
  case True
  then obtain es where es: "root l = listSliceNode es" by (cases "root l") (simp_all add: is_slice_def)
  with r have s: "size_l l = int (length xs)" "es = xs" "length xs \<le> 32"
    by (simp_all add: repr_def)
  with es i show ?thesis
    by (simp add: List_set_def node_set.simps clone_def repr_def)
next
  case False
  from r False have s: "size_l l = int (length xs)" and wf: "wf_node (root l)"
    and o: "0 \<le> origin l" and b: "origin l + size_l l \<le> 32 ^ Suc (depth (root l))"
    and g: "\<And>i. i < length xs \<Longrightarrow> node_get (root l) (origin l + int i) = Inr (xs ! i)"
    by (simp_all add: repr_trie)
  from node_set_wf [OF wf refl] obtain r' where
    r': "node_set (root l) (origin l + int i) v m = Inr r'" "wf_node r'" "depth r' = depth (root l)"
    by blast
  have unf: "List_set l (int i) v m = Inr (l\<lparr>root := r'\<rparr>)"
    using False i s r'(1) by (cases "root l") (simp_all add: List_set_def clone_def is_slice_def)
  have "node_get r' (origin l + int j) = Inr (xs[i := v] ! j)" if j: "j < length xs" for j
  proof (cases "j = i")
    case True
    with node_get_set_same [OF wf refl r'(1)] i show ?thesis by simp
  next
    case False
    have "node_get r' (origin l + int j) = Inr (xs ! j)"
    proof (rule set_preserves_window [OF wf r'(1) _ _ _ _ _ g [OF j]])
      show "0 \<le> origin l + int i" using o by simp
      show "origin l + int i < 32 ^ Suc (depth (root l))" using b i s by linarith
      show "0 \<le> origin l + int j" using o by simp
      show "origin l + int j < 32 ^ Suc (depth (root l))" using b j s by linarith
      show "origin l + int j \<noteq> origin l + int i" using False by simp
    qed
    with False show ?thesis by simp
  qed
  then have "repr (l\<lparr>root := r'\<rparr>) (xs[i := v])"
    using r'(2,3) s o b wf_not_slice [OF r'(2)] by (simp add: repr_trie)
  with unf show ?thesis by simp
qed



declare contract.simps [simp del]

lemma slot_block:
  assumes "0 \<le> k" "k < 32 * 32 ^ d"
  shows "int (slot d k) * 32 ^ d \<le> k \<and> k < (int (slot d k) + 1) * 32 ^ d"
proof -
  have "k div 32 ^ d < 32"
  proof (rule ccontr)
    assume "\<not> k div 32 ^ d < 32"
    then have "(32::int) ^ d * 32 \<le> 32 ^ d * (k div 32 ^ d)"
      by (intro mult_left_mono) simp_all
    moreover have "32 ^ d * (k div 32 ^ d) \<le> k"
    proof -
      have e: "32 ^ d * (k div 32 ^ d) + k mod 32 ^ d = k" by (rule mult_div_mod_eq)
      have m: "0 \<le> k mod 32 ^ d" by simp
      from e m show ?thesis by linarith
    qed
    ultimately show False using assms(2) by linarith
  qed
  moreover have "0 \<le> k div 32 ^ d" using assms by (simp add: pos_imp_zdiv_nonneg_iff)
  ultimately have s: "int (slot d k) = k div 32 ^ d" by (simp add: int_slot)
  have "k = 32 ^ d * (k div 32 ^ d) + k mod 32 ^ d" by simp
  moreover have "0 \<le> k mod 32 ^ d" "k mod 32 ^ d < 32 ^ d" by simp_all
  ultimately have "(k div 32 ^ d) * 32 ^ d \<le> k \<and> k < (k div 32 ^ d) * 32 ^ d + 32 ^ d"
    by (metis add.commute add_strict_left_mono le_add_same_cancel2 mult.commute)
  then show ?thesis by (simp add: s algebra_simps)
qed

lemma slot_in_block:
  assumes "int i * 32 ^ d \<le> k" "k < (int i + 1) * 32 ^ d" "i < 32"
  shows "slot d k = i"
proof -
  have "k div 32 ^ d = int i"
  proof (rule int_div_pos_eq [where r = "k - int i * 32 ^ d"])
    show "k = 32 ^ d * int i + (k - int i * 32 ^ d)" by simp
    show "0 \<le> k - int i * 32 ^ d" using assms by simp
    show "k - int i * 32 ^ d < 32 ^ d" using assms by (simp add: algebra_simps)
  qed
  then show ?thesis using assms(3) by (simp add: slot_eq)
qed

lemma slot_capacity: "slot d (32 * 32 ^ d) = 0"
  by (simp add: slot_eq)

lemma slot_capacity_pred: "slot d (32 * 32 ^ d - 1) = 31"
proof (rule slot_in_block)
  show "int 31 * 32 ^ d \<le> 32 * 32 ^ d - 1"
  proof -
    have "(1::int) \<le> 32 ^ d" by simp
    then show ?thesis by simp
  qed
qed simp_all

lemma push_slot: "push_bit (d * listNodeBits) (int i) = int i * 32 ^ d"
  by (simp add: push_bit_eq_mult listNodeBits_def pow_32)

lemma contract_branch:
  "contract (listBranchNode d cs) org sz =
     (if d > 1 then
        (if slot d org \<noteq> slot d (org + sz - 1) then Inr (listBranchNode d cs, org)
         else (case child_at cs (slot d org) of
                 None \<Rightarrow> Inl NilPointer
               | Some c \<Rightarrow> contract c (org - int (slot d org) * 32 ^ d) sz))
      else Inr (listBranchNode d cs, org))"
  unfolding contract.simps Let_def push_slot by simp

lemma node_get_child:
  "child_at cs (slot d k) = Some c \<Longrightarrow> node_get (listBranchNode d cs) k = node_get c k"
  by simp

lemma contract_ok:
  assumes "wf_node r" "depth r = d" "0 \<le> lo" "lo \<le> o'" "o' + s \<le> hi" "lo < hi"
    "hi \<le> 32 ^ Suc d" "0 \<le> s"
    "\<forall>k. lo \<le> k \<and> k < hi \<longrightarrow> (\<exists>v. node_get r k = Inr v)"
  shows "\<exists>r' o2. contract r o' s = Inr (r', o2) \<and> wf_node r' \<and> 0 \<le> o2
           \<and> o2 + s \<le> 32 ^ Suc (depth r')
           \<and> (\<forall>t. 0 \<le> t \<and> t < s \<longrightarrow> node_get r' (o2 + t) = node_get r (o' + t))"
  using assms
proof (induction d arbitrary: r o' lo hi)
  case 0
  then obtain cs occ where "r = listLeafNode cs occ" using wf_depth_0 by blast
  with 0 show ?case by (simp add: contract.simps)
next
  case (Suc d)
  then obtain cs where n: "r = listBranchNode (Suc d) cs" and len: "length cs = 32"
    and ch: "\<And>i c. child_at cs i = Some c \<Longrightarrow> depth c = d \<and> wf_node c"
    using wf_depth_Suc by blast
  let ?B = "(32::int) ^ Suc d"
  let ?i = "slot (Suc d) o'"
  note p = Suc.prems
  have o_nonneg: "0 \<le> o'" using p by simp
  have triv: ?case if "contract r o' s = Inr (r, o')"
    using that p by auto
  show ?case
  proof (cases "Suc d > 1 \<and> ?i = slot (Suc d) (o' + s - 1)")
    case False
    then have "contract r o' s = Inr (r, o')" by (auto simp: n contract_branch)
    then show ?thesis by (rule triv)
  next
    case True
    then have same: "?i = slot (Suc d) (o' + s - 1)" and d1: "Suc d > 1" by simp_all
    have cap: "hi \<le> 32 * ?B" using p(7) by simp
    have o_lt: "o' < 32 * ?B"
    proof (rule ccontr)
      assume "\<not> o' < 32 * ?B"
      with p(5,8) cap have e: "o' = 32 * ?B" "s = 0" by simp_all
      with same slot_capacity [of "Suc d"] slot_capacity_pred [of "Suc d"]
      show False by simp
    qed
    from slot_block [OF o_nonneg o_lt]
    have F1: "int ?i * ?B \<le> o'" "o' < (int ?i + 1) * ?B" by simp_all
    have F2: "o' + s \<le> (int ?i + 1) * ?B"
    proof (cases "s = 0")
      case True
      with F1 show ?thesis by simp
    next
      case False
      with p(8) have "0 \<le> o' + s - 1" "o' + s - 1 < 32 * ?B"
        using o_nonneg p(5) cap by simp_all
      from slot_block [OF this] same show ?thesis by simp
    qed
    have F3: "int ?i * ?B < hi"
    proof (cases "o' < hi")
      case True
      with F1 show ?thesis by simp
    next
      case False
      with p(5,8) have e: "o' = hi" "s = 0" by simp_all
      with p(3,6) cap have "0 \<le> o' + s - 1" "o' + s - 1 < 32 * ?B" by simp_all
      from slot_block [OF this] same e show ?thesis by simp
    qed
    have F4: "lo < (int ?i + 1) * ?B" using F1 p(4) by simp
    have i32: "?i < 32" by (rule slot_lt)
    define lo2 where "lo2 = max lo (int ?i * ?B) - int ?i * ?B"
    define hi2 where "hi2 = min hi ((int ?i + 1) * ?B) - int ?i * ?B"
    have in_block: "slot (Suc d) (k + int ?i * ?B) = ?i" if "0 \<le> k" "k < ?B" for k
      by (rule slot_in_block) (use that i32 in \<open>simp_all add: algebra_simps\<close>)
    obtain p0 where p0: "lo \<le> p0" "p0 < hi" "slot (Suc d) p0 = ?i"
    proof (cases "o' < hi")
      case True
      with p(4) that show ?thesis by blast
    next
      case False
      with p(5,8) have e: "o' = hi" "s = 0" by simp_all
      with p(6) same that [of "o' - 1"] show ?thesis by simp
    qed
    from p(9) p0 obtain v0 where "node_get r p0 = Inr v0" by blast
    with n p0(3) obtain c where c: "child_at cs ?i = Some c"
      by (auto split: option.splits)
    with ch have wc: "wf_node c" "depth c = d" by auto
    have shift: "node_get c (k + int ?i * ?B) = node_get c k" for k
      by (rule node_get_mod [OF wc]) simp
    have unf: "contract r o' s = contract c (o' - int ?i * ?B) s"
      using d1 same c by (simp add: n contract_branch)
    have "\<exists>r' o2. contract c (o' - int ?i * ?B) s = Inr (r', o2) \<and> wf_node r' \<and> 0 \<le> o2
           \<and> o2 + s \<le> 32 ^ Suc (depth r')
           \<and> (\<forall>t. 0 \<le> t \<and> t < s \<longrightarrow> node_get r' (o2 + t) = node_get c (o' - int ?i * ?B + t))"
    proof (rule Suc.IH [OF wc, of lo2 _ hi2])
      show "0 \<le> lo2" by (simp add: lo2_def)
      show "lo2 \<le> o' - int ?i * ?B" using F1 p(4) by (simp add: lo2_def)
      show "o' - int ?i * ?B + s \<le> hi2" using F2 p(5) by (simp add: hi2_def)
      show "lo2 < hi2" using F3 F4 p(6) by (simp add: lo2_def hi2_def)
      show "hi2 \<le> 32 ^ Suc d" by (simp add: hi2_def algebra_simps)
      show "0 \<le> s" by (rule p(8))
      show "\<forall>k. lo2 \<le> k \<and> k < hi2 \<longrightarrow> (\<exists>v. node_get c k = Inr v)"
      proof (intro allI impI)
        fix k assume k: "lo2 \<le> k \<and> k < hi2"
        then have r: "lo \<le> k + int ?i * ?B" "k + int ?i * ?B < hi" "0 \<le> k" "k < ?B"
          by (simp_all add: lo2_def hi2_def algebra_simps)
        with p(9) obtain v where "node_get r (k + int ?i * ?B) = Inr v" by blast
        with n c in_block [OF r(3,4)] have "node_get c (k + int ?i * ?B) = Inr v" by simp
        with shift show "\<exists>v. node_get c k = Inr v" by simp
      qed
    qed
    then obtain r' o2 where res: "contract c (o' - int ?i * ?B) s = Inr (r', o2)" "wf_node r'"
      "0 \<le> o2" "o2 + s \<le> 32 ^ Suc (depth r')"
      "\<And>t. 0 \<le> t \<Longrightarrow> t < s \<Longrightarrow> node_get r' (o2 + t) = node_get c (o' - int ?i * ?B + t)"
      by blast
    have "node_get r' (o2 + t) = node_get r (o' + t)" if t: "0 \<le> t" "t < s" for t
    proof -
      have b: "0 \<le> o' - int ?i * ?B + t" "o' - int ?i * ?B + t < ?B"
        using F1 F2 t by (simp_all add: algebra_simps)
      have "node_get c (o' - int ?i * ?B + t) = node_get c (o' - int ?i * ?B + t + int ?i * ?B)"
        by (rule shift [symmetric])
      also have "\<dots> = node_get c (o' + t)" by simp
      also have "\<dots> = node_get r (o' + t)"
        using in_block [OF b] c by (simp add: n)
      finally show ?thesis using res(5) [OF t] by simp
    qed
    with res unf show ?thesis by auto
  qed
qed



lemma List_slice_trie:
  assumes "\<not> is_slice (root l)" "0 \<le> a" "a \<le> b" "b \<le> size_l l" "\<not> (a = 0 \<and> b = size_l l)"
  shows "List_slice l a b m =
     (case contract (root l) (origin l + a) (b - a) of
        Inl e \<Rightarrow> Inl e
      | Inr (r, org) \<Rightarrow>
          Inr (l\<lparr>root := deleteAfter (deleteBefore r org m) (org + (b - a) - 1) m,
                  origin := org, size_l := b - a\<rparr>))"
  using assms
  by (cases "root l")
     (auto simp: List_slice_def is_slice_def clone_def Let_def split: sum.splits prod.splits)

lemma mod_le_in_range:
  "0 \<le> (i::int) \<Longrightarrow> i \<le> k \<Longrightarrow> k < m \<Longrightarrow> i mod m \<le> k mod m"
  by simp

lemma List_slice_repr:
  assumes r: "repr l xs" and a: "a \<le> b" and b: "b \<le> length xs"
  shows "\<exists>l'. List_slice l (int a) (int b) m = Inr l' \<and> repr l' (take (b - a) (drop a xs))"
proof (cases "a = 0 \<and> b = length xs")
  case True
  with r show ?thesis by (simp add: List_slice_def repr_def)
next
  case False
  note whole = this
  from r have s: "size_l l = int (length xs)" by (simp add: repr_def)
  show ?thesis
  proof (cases "is_slice (root l)")
    case True
    then obtain es where es: "root l = listSliceNode es"
      by (cases "root l") (simp_all add: is_slice_def)
    with r have "es = xs" "length xs \<le> 32" by (simp_all add: repr_def)
    with es s a b whole show ?thesis
      by (auto simp: List_slice_def repr_def nat_diff_distrib)
  next
    case False
    from r False have wf: "wf_node (root l)"
      and o: "0 \<le> origin l" and bd: "origin l + size_l l \<le> 32 ^ Suc (depth (root l))"
      and g: "\<And>i. i < length xs \<Longrightarrow> node_get (root l) (origin l + int i) = Inr (xs ! i)"
      by (simp_all add: repr_trie)
    let ?s = "int b - int a"
    have ne: "0 < length xs" using whole a b by auto
    have pop: "\<forall>k. origin l \<le> k \<and> k < origin l + size_l l \<longrightarrow> (\<exists>v. node_get (root l) k = Inr v)"
    proof (intro allI impI)
      fix k assume k: "origin l \<le> k \<and> k < origin l + size_l l"
      then have "nat (k - origin l) < length xs" using s by linarith
      from g [OF this] k show "\<exists>v. node_get (root l) k = Inr v" by simp
    qed
    have "\<exists>r' o2. contract (root l) (origin l + int a) ?s = Inr (r', o2) \<and> wf_node r' \<and> 0 \<le> o2
           \<and> o2 + ?s \<le> 32 ^ Suc (depth r')
           \<and> (\<forall>t. 0 \<le> t \<and> t < ?s \<longrightarrow>
                  node_get r' (o2 + t) = node_get (root l) (origin l + int a + t))"
    proof (rule contract_ok [OF wf refl o _ _ _ bd _ pop])
      show "origin l \<le> origin l + int a" by simp
      show "origin l + int a + ?s \<le> origin l + size_l l" using b s by simp
      show "origin l < origin l + size_l l" using ne s by simp
      show "0 \<le> ?s" using a by simp
    qed
    then obtain r' o2 where c: "contract (root l) (origin l + int a) ?s = Inr (r', o2)"
      and wr: "wf_node r'" and o2: "0 \<le> o2" and b2: "o2 + ?s \<le> 32 ^ Suc (depth r')"
      and g2: "\<And>t. 0 \<le> t \<Longrightarrow> t < ?s \<Longrightarrow>
                  node_get r' (o2 + t) = node_get (root l) (origin l + int a + t)"
      by blast
    let ?r1 = "deleteBefore r' o2 m"
    let ?r2 = "deleteAfter ?r1 (o2 + ?s - 1) m"
    from deleteBefore_wf [OF wr refl] have w1: "wf_node ?r1" "depth ?r1 = depth r'" by simp_all
    from deleteAfter_wf [OF w1(1) refl] w1(2)
    have w2: "wf_node ?r2" "depth ?r2 = depth r'" by simp_all
    have unf: "List_slice l (int a) (int b) m =
        Inr (l\<lparr>root := ?r2, origin := o2, size_l := ?s\<rparr>)"
      using False a b s whole c by (subst List_slice_trie) auto
    have len: "length (take (b - a) (drop a xs)) = b - a" using a b by simp
    have sz: "int (b - a) = ?s" using a by simp
    have gets: "node_get ?r2 (o2 + int i) = Inr (take (b - a) (drop a xs) ! i)"
      if i: "i < b - a" for i
    proof -
      from i a b have ib: "int i < ?s" "a + i < length xs" by simp_all
      have "node_get r' (o2 + int i) = Inr (xs ! (a + i))"
        using g2 [of "int i"] ib g [OF ib(2)] by (simp add: algebra_simps)
      then have "node_get ?r1 (o2 + int i) = Inr (xs ! (a + i))"
      proof (rule deleteBefore_get [OF wr refl, rotated])
        show "o2 mod 32 ^ Suc (depth r') \<le> (o2 + int i) mod 32 ^ Suc (depth r')"
          by (rule mod_le_in_range) (use o2 b2 ib in simp_all)
      qed
      then have "node_get ?r2 (o2 + int i) = Inr (xs ! (a + i))"
      proof (rule deleteAfter_get [OF w1(1) refl, rotated])
        show "(o2 + int i) mod 32 ^ Suc (depth ?r1) \<le> (o2 + ?s - 1) mod 32 ^ Suc (depth ?r1)"
          unfolding w1(2) by (rule mod_le_in_range) (use o2 b2 ib in simp_all)
      qed
      moreover have "take (b - a) (drop a xs) ! i = xs ! (a + i)"
        using i ib by simp
      ultimately show ?thesis by simp
    qed
    have "repr (l\<lparr>root := ?r2, origin := o2, size_l := ?s\<rparr>) (take (b - a) (drop a xs))"
    proof -
      have ns: "\<not> is_slice (root (l\<lparr>root := ?r2, origin := o2, size_l := ?s\<rparr>))"
        using wf_not_slice [OF w2(1)] by simp
      show ?thesis
        unfolding repr_trie [OF ns] len
        using w2 o2 b2 gets by (simp add: sz)
    qed
    with unf show ?thesis by simp
  qed
qed



subsection \<open>Batch map flush into the empty map\<close>

text \<open>
  \<open>last_writes\<close> states last-write-wins in the words of the claim: an entry of the
  buffer is retained iff no later entry has its key, and the retained entries keep their
  buffer order.  \<open>first_seen_keys\<close> is the order in which the keys first appear.
\<close>

fun last_writes :: "('k \<times> 'v) list \<Rightarrow> ('k \<times> 'v) list" where
  "last_writes [] = []"
| "last_writes (e # es) = (if fst e \<in> fst ` set es then last_writes es else e # last_writes es)"

definition first_seen_keys :: "('k \<times> 'v) list \<Rightarrow> 'k list" where
  "first_seen_keys buffer = rev (remdups (rev (map fst buffer)))"

fun first_new :: "('k \<times> 'v) list \<Rightarrow> 'k set \<Rightarrow> ('k \<times> 'v) list" where
  "first_new [] S = []"
| "first_new (e # es) S =
     (if fst e \<in> S then first_new es S else e # first_new es (insert (fst e) S))"

lemma scan_last_first_new:
  "scan_last (=) xs acc = acc @ first_new xs (fst ` set acc)"
proof (induction xs arbitrary: acc)
  case Nil
  then show ?case by simp
next
  case (Cons e xs)
  have "list_ex (\<lambda>d. fst d = fst e) acc = (fst e \<in> fst ` set acc)"
    unfolding list_ex_iff image_iff by (rule bex_cong [OF refl]) auto
  then show ?case by (simp add: Cons.IH)
qed

lemma scan_seen_first_new: "scan_seen xs S acc = acc @ first_new xs S"
  by (induction xs arbitrary: S acc) simp_all

lemma first_new_snoc:
  "first_new (xs @ [e]) S = first_new xs S @ (if fst e \<in> S \<union> fst ` set xs then [] else [e])"
  by (induction xs arbitrary: S) auto

lemma rev_first_new: "rev (first_new (rev buf) {}) = last_writes buf"
  by (induction buf) (simp_all add: first_new_snoc)

lemma keys_last_writes: "map fst (last_writes buf) = remdups (map fst buf)"
  by (induction buf) auto

lemma length_last_writes: "length (last_writes buf) = card (fst ` set buf)"
proof -
  have "length (last_writes buf) = length (remdups (map fst buf))"
    by (metis keys_last_writes length_map)
  then show ?thesis by (simp add: length_remdups_card_conv)
qed

lemma last_writes_is_last:
  "(k, v) \<in> set (last_writes buf) \<Longrightarrow>
   \<exists>pre post. buf = pre @ (k, v) # post \<and> k \<notin> fst ` set post"
proof (induction buf)
  case Nil
  then show ?case by simp
next
  case (Cons e es)
  show ?case
  proof (cases "(k, v) \<in> set (last_writes es)")
    case True
    from Cons.IH [OF this] obtain pre post where "es = pre @ (k, v) # post" "k \<notin> fst ` set post"
      by blast
    then have "e # es = (e # pre) @ (k, v) # post" by simp
    with \<open>k \<notin> fst ` set post\<close> show ?thesis by blast
  next
    case False
    with Cons.prems have "e = (k, v)" "fst e \<notin> fst ` set es" by (auto split: if_splits)
    then have "e # es = [] @ (k, v) # es \<and> k \<notin> fst ` set es" by simp
    then show ?thesis by blast
  qed
qed

lemma array_get_last_writes:
  "(k, v) \<in> set (last_writes buf) \<Longrightarrow> array_get (=) (last_writes buf) k = Some v"
proof -
  assume a: "(k, v) \<in> set (last_writes buf)"
  have d: "distinct (map fst (last_writes buf))" by (simp add: keys_last_writes)
  have "find (\<lambda>e. fst e = k) es = Some (k, v)" if "distinct (map fst es)" "(k, v) \<in> set es" for es
    using that by (induction es) (auto simp: rev_image_eqI)
  from this [OF d a] show ?thesis by (simp add: array_get_def)
qed

definition hasher_is_equality :: "'k Hasher option \<Rightarrow> bool" where
  "hasher_is_equality h = (key_eq h = (=))"

lemma Flush_empty_root:
  assumes "bm_m b = Some m" "m_root m = None" "bm_buffer b \<noteq> []" "hasher_is_equality (hasher m)"
  shows "BatchMapBuilder_Flush mset newHasher b =
     Inr (b\<lparr>bm_m := Some
               ((if hasher m = None
                 then m\<lparr>hasher := Some (newHasher (fst (hd (last_writes (bm_buffer b)))))\<rparr>
                 else m)
                \<lparr>m_size := int (length (last_writes (bm_buffer b))),
                 m_root := Some (mapArrayNode (last_writes (bm_buffer b)))\<rparr>),
            bm_buffer := []\<rparr>)"
proof -
  have ne: "last_writes (bm_buffer b) \<noteq> []"
    using assms(3) keys_last_writes [of "bm_buffer b"]
    by (metis map_is_Nil_conv remdups_eq_nil_iff)
  have d: "(if length (bm_buffer b) \<le> maxArrayMapSize
            then rev (scan_last (key_eq (hasher m)) (rev (bm_buffer b)) [])
            else rev (scan_seen (rev (bm_buffer b)) {} [])) = last_writes (bm_buffer b)"
    using assms(4)
    by (simp add: hasher_is_equality_def scan_last_first_new scan_seen_first_new rev_first_new)
  show ?thesis
    apply (simp only: BatchMapBuilder_Flush_def assms(1,2) option.case)
    apply (simp only: d)
    using assms(3) ne apply (simp add: Let_def)
    done
qed



text \<open>
  The same with the key comparison of the map, \<open>key_eq (hasher m)\<close>, in place of
  equality: \<open>last_writes_by eq buf\<close> keeps an entry of the buffer when no later entry
  has a key that \<open>eq\<close> identifies with its key, and \<open>key_class eq k\<close> is the class of the
  keys identified with \<open>k\<close>.  \<open>unseen\<close> is the forward reading of the backward walk
  \<open>scan_last\<close>.
\<close>

fun last_writes_by :: "('k \<Rightarrow> 'k \<Rightarrow> bool) \<Rightarrow> ('k \<times> 'v) list \<Rightarrow> ('k \<times> 'v) list" where
  "last_writes_by eq [] = []"
| "last_writes_by eq (e # es) =
     (if list_ex (\<lambda>d. eq (fst d) (fst e)) es then last_writes_by eq es
      else e # last_writes_by eq es)"

fun unseen :: "('k \<Rightarrow> 'k \<Rightarrow> bool) \<Rightarrow> ('k \<times> 'v) list \<Rightarrow> ('k \<times> 'v) list \<Rightarrow> ('k \<times> 'v) list" where
  "unseen eq [] seen = []"
| "unseen eq (e # es) seen =
     (if list_ex (\<lambda>d. eq (fst d) (fst e)) seen then unseen eq es (seen @ [e])
      else e # unseen eq es (seen @ [e]))"

definition key_class :: "('k \<Rightarrow> 'k \<Rightarrow> bool) \<Rightarrow> 'k \<Rightarrow> 'k set" where
  "key_class eq k = {k'. eq k k'}"

lemma scan_last_unseen:
  assumes tr: "transp eq"
  shows "(\<And>k. list_ex (\<lambda>d. eq (fst d) k) acc = list_ex (\<lambda>d. eq (fst d) k) seen) \<Longrightarrow>
         scan_last eq xs acc = acc @ unseen eq xs seen"
proof (induction xs arbitrary: acc seen)
  case Nil
  show ?case by simp
next
  case (Cons e xs)
  show ?case
  proof (cases "list_ex (\<lambda>d. eq (fst d) (fst e)) acc")
    case True
    then obtain d where d: "d \<in> set acc" "eq (fst d) (fst e)" by (auto simp: list_ex_iff)
    have "list_ex (\<lambda>d. eq (fst d) k) acc = list_ex (\<lambda>d. eq (fst d) k) (seen @ [e])" for k
    proof (cases "eq (fst e) k")
      case True
      with d(2) tr have "eq (fst d) k" by (meson transpD)
      with d(1) True show ?thesis by (auto simp: list_ex_iff)
    next
      case False
      with Cons.prems [of k] show ?thesis by simp
    qed
    from Cons.IH [OF this] True Cons.prems [of "fst e"] show ?thesis by simp
  next
    case False
    have "list_ex (\<lambda>d. eq (fst d) k) (acc @ [e]) = list_ex (\<lambda>d. eq (fst d) k) (seen @ [e])" for k
      using Cons.prems [of k] by simp
    from Cons.IH [OF this] False Cons.prems [of "fst e"] show ?thesis by simp
  qed
qed

lemma unseen_snoc:
  "unseen eq (xs @ [e]) seen =
     unseen eq xs seen @ (if list_ex (\<lambda>d. eq (fst d) (fst e)) (seen @ xs) then [] else [e])"
  by (induction xs arbitrary: seen) simp_all

lemma rev_unseen: "rev (unseen eq (rev buf) []) = last_writes_by eq buf"
  by (induction buf) (simp_all add: unseen_snoc list_ex_iff)

lemma scan_last_last_writes_by:
  "transp eq \<Longrightarrow> rev (scan_last eq (rev buf) []) = last_writes_by eq buf"
  using scan_last_unseen [of eq "[]" "[]" "rev buf"] by (simp add: rev_unseen)

lemma last_writes_by_equality: "last_writes_by (=) buf = last_writes buf"
proof (induction buf)
  case Nil
  show ?case by simp
next
  case (Cons e es)
  have "list_ex (\<lambda>d. fst d = fst e) es = (fst e \<in> fst ` set es)"
    unfolding list_ex_iff image_iff by (rule bex_cong [OF refl]) auto
  with Cons show ?case by simp
qed

lemma set_last_writes_by: "set (last_writes_by eq buf) \<subseteq> set buf"
  by (induction buf) auto

lemma last_writes_by_is_last:
  "(k, v) \<in> set (last_writes_by eq buf) \<Longrightarrow>
   \<exists>pre post. buf = pre @ (k, v) # post \<and> \<not> list_ex (\<lambda>d. eq (fst d) k) post"
proof (induction buf)
  case Nil
  then show ?case by simp
next
  case (Cons e es)
  show ?case
  proof (cases "(k, v) \<in> set (last_writes_by eq es)")
    case True
    from Cons.IH [OF this] obtain pre post where
      "es = pre @ (k, v) # post" "\<not> list_ex (\<lambda>d. eq (fst d) k) post" by blast
    then have "e # es = (e # pre) @ (k, v) # post \<and> \<not> list_ex (\<lambda>d. eq (fst d) k) post" by simp
    then show ?thesis by blast
  next
    case False
    with Cons.prems have "e = (k, v)" "\<not> list_ex (\<lambda>d. eq (fst d) (fst e)) es"
      by (auto split: if_splits)
    then have "e # es = [] @ (k, v) # es \<and> \<not> list_ex (\<lambda>d. eq (fst d) k) es" by simp
    then show ?thesis by blast
  qed
qed

lemma last_writes_by_covers:
  assumes "reflp eq" "transp eq"
  shows "e \<in> set buf \<Longrightarrow> \<exists>d \<in> set (last_writes_by eq buf). eq (fst d) (fst e)"
proof (induction buf arbitrary: e)
  case Nil
  then show ?case by simp
next
  case (Cons x xs)
  have tail: "\<exists>d \<in> set (last_writes_by eq (x # xs)). eq (fst d) (fst y)" if "y \<in> set xs" for y
    using Cons.IH [OF that] by auto
  show ?case
  proof (cases "e \<in> set xs")
    case True
    then show ?thesis by (rule tail)
  next
    case False
    with Cons.prems have ex: "e = x" by simp
    show ?thesis
    proof (cases "list_ex (\<lambda>d. eq (fst d) (fst x)) xs")
      case True
      then obtain y where y: "y \<in> set xs" "eq (fst y) (fst x)" by (auto simp: list_ex_iff)
      from tail [OF y(1)] obtain d where
        "d \<in> set (last_writes_by eq (x # xs))" "eq (fst d) (fst y)" by blast
      with y(2) assms(2) ex show ?thesis by (meson transpD)
    next
      case False
      with ex assms(1) show ?thesis by (auto simp: reflp_def)
    qed
  qed
qed

lemma array_get_last_writes_by:
  assumes "reflp eq" "symp eq"
  shows "(k, v) \<in> set (last_writes_by eq buf) \<Longrightarrow>
         array_get eq (last_writes_by eq buf) k = Some v"
proof (induction buf)
  case Nil
  then show ?case by simp
next
  case (Cons e es)
  show ?case
  proof (cases "list_ex (\<lambda>d. eq (fst d) (fst e)) es")
    case True
    with Cons show ?thesis by simp
  next
    case False
    show ?thesis
    proof (cases "e = (k, v)")
      case True
      with False assms(1) show ?thesis by (simp add: array_get_def reflp_def)
    next
      case ne: False
      with Cons.prems False have in_tl: "(k, v) \<in> set (last_writes_by eq es)" by simp
      with set_last_writes_by [of eq es] have "(k, v) \<in> set es" by blast
      with False have "\<not> eq k (fst e)" by (auto simp: list_ex_iff)
      with assms(2) have "\<not> eq (fst e) k" by (meson sympD)
      with Cons.IH [OF in_tl] False show ?thesis by (simp add: array_get_def)
    qed
  qed
qed

lemma key_class_eq:
  assumes "symp eq" "transp eq" "eq a b"
  shows "key_class eq a = key_class eq b"
  unfolding key_class_def using assms by (auto elim: transpE dest: sympD)

lemma length_last_writes_by:
  assumes "equivp eq"
  shows "length (last_writes_by eq buf) = card (key_class eq ` fst ` set buf)"
proof (induction buf)
  case Nil
  show ?case by simp
next
  case (Cons e es)
  from assms have r: "reflp eq" and s: "symp eq" and t: "transp eq"
    by (auto elim: equivpE)
  show ?case
  proof (cases "list_ex (\<lambda>d. eq (fst d) (fst e)) es")
    case True
    then obtain d where d: "d \<in> set es" "eq (fst d) (fst e)" by (auto simp: list_ex_iff)
    from key_class_eq [OF s t d(2)] d(1)
    have "key_class eq (fst e) \<in> key_class eq ` fst ` set es" by (metis imageI)
    then have "key_class eq ` fst ` set (e # es) = key_class eq ` fst ` set es" by auto
    with True Cons show ?thesis by simp
  next
    case False
    have "key_class eq (fst e) \<notin> key_class eq ` fst ` set es"
    proof
      assume "key_class eq (fst e) \<in> key_class eq ` fst ` set es"
      then obtain d where d: "d \<in> set es" "key_class eq (fst e) = key_class eq (fst d)" by auto
      from r have "fst e \<in> key_class eq (fst e)" by (simp add: key_class_def reflp_def)
      with d(2) have "eq (fst d) (fst e)" by (simp add: key_class_def)
      with d(1) False show False by (auto simp: list_ex_iff)
    qed
    then have "card (key_class eq ` fst ` set (e # es)) = Suc (card (key_class eq ` fst ` set es))"
      by simp
    with False Cons show ?thesis by simp
  qed
qed

lemma last_writes_by_positions:
  "last_writes_by eq buf =
     map (nth buf)
       (filter (\<lambda>i. \<not> list_ex (\<lambda>d. eq (fst d) (fst (buf ! i))) (drop (Suc i) buf))
          [0..<length buf])"
proof (induction buf)
  case Nil
  show ?case by simp
next
  case (Cons e es)
  have up: "[0..<length (e # es)] = 0 # map Suc [0..<length es]"
    by (simp add: upt_conv_Cons map_Suc_upt del: upt_Suc)
  show ?case
    unfolding up by (simp add: filter_map comp_def Cons.IH del: upt_Suc)
qed

lemma length_last_writes_by_le: "length (last_writes_by eq buf) \<le> length buf"
  by (induction buf) auto


lemma last_writes_by_agree:
  "(\<forall>e \<in> set buf. \<forall>d \<in> set buf. eq (fst d) (fst e) = (fst d = fst e)) \<Longrightarrow>
   last_writes_by eq buf = last_writes buf"
proof (induction buf)
  case Nil
  show ?case by simp
next
  case (Cons e es)
  have "list_ex (\<lambda>d. eq (fst d) (fst e)) es = (fst e \<in> fst ` set es)"
    using Cons.prems by (auto simp: list_ex_iff)
  moreover have "last_writes_by eq es = last_writes es"
    using Cons by simp
  ultimately show ?case by simp
qed

lemma classes_last_writes_by:
  assumes "equivp eq"
  shows "set (map (\<lambda>e. key_class eq (fst e)) (last_writes_by eq buf)) = key_class eq ` fst ` set buf"
proof -
  from assms have r: "reflp eq" and sy: "symp eq" and t: "transp eq" by (auto elim: equivpE)
  have "key_class eq (fst e) \<in> (\<lambda>d. key_class eq (fst d)) ` set (last_writes_by eq buf)"
    if "e \<in> set buf" for e
  proof -
    from last_writes_by_covers [OF r t that] obtain d
      where d: "d \<in> set (last_writes_by eq buf)" "eq (fst d) (fst e)" by blast
    from d(2) have "key_class eq (fst d) = key_class eq (fst e)"
      by (rule key_class_eq [OF sy t])
    then have "key_class eq (fst e) = (\<lambda>d. key_class eq (fst d)) d" by simp
    then show ?thesis using d(1) by (rule image_eqI)
  qed
  then have sup: "key_class eq ` fst ` set buf \<subseteq> (\<lambda>d. key_class eq (fst d)) ` set (last_writes_by eq buf)"
    by auto
  have "set (last_writes_by eq buf) \<subseteq> set buf" by (rule set_last_writes_by)
  then have "(\<lambda>d. key_class eq (fst d)) ` set (last_writes_by eq buf) \<subseteq> (\<lambda>d. key_class eq (fst d)) ` set buf"
    by (rule image_mono)
  also have "(\<lambda>d. key_class eq (fst d)) ` set buf = key_class eq ` fst ` set buf"
    by (simp add: image_image)
  finally show ?thesis using sup by simp
qed

lemma distinct_classes_last_writes_by:
  assumes "equivp eq"
  shows "distinct (map (\<lambda>e. key_class eq (fst e)) (last_writes_by eq buf))"
proof (rule card_distinct)
  show "card (set (map (\<lambda>e. key_class eq (fst e)) (last_writes_by eq buf))) =
        length (map (\<lambda>e. key_class eq (fst e)) (last_writes_by eq buf))"
    by (simp only: classes_last_writes_by [OF assms] length_map length_last_writes_by [OF assms])
qed

lemma Flush_empty_root_dedup:
  assumes "bm_m b = Some m" "m_root m = None" "bm_buffer b \<noteq> []"
    and d: "(if length (bm_buffer b) \<le> maxArrayMapSize
             then rev (scan_last (key_eq (hasher m)) (rev (bm_buffer b)) [])
             else rev (scan_seen (rev (bm_buffer b)) {} [])) = es"
  shows "BatchMapBuilder_Flush mset newHasher b =
     Inr (b\<lparr>bm_m := Some
               ((if hasher m = None \<and> 0 < length es
                 then m\<lparr>hasher := Some (newHasher (fst (hd es)))\<rparr>
                 else m)
                \<lparr>m_size := int (length es), m_root := Some (mapArrayNode es)\<rparr>),
            bm_buffer := []\<rparr>)"
  apply (simp only: BatchMapBuilder_Flush_def assms(1,2) option.case)
  apply (simp only: d)
  using assms(3) apply (simp add: Let_def)
  done

lemma equivp_key_eq_None: "equivp (key_eq None)"
  by (auto intro!: equivpI reflpI sympI transpI simp: key_eq_def)


subsection \<open>The iterator stack\<close>

text \<open>\<open>node_at r t k\<close> is the node \<open>k\<close> levels below \<open>r\<close> on the path of index \<open>t\<close>.\<close>

fun node_at :: "'a listNode \<Rightarrow> int \<Rightarrow> nat \<Rightarrow> 'a listNode option" where
  "node_at n t 0 = Some n"
| "node_at n t (Suc k) =
     (case n of
        listBranchNode d cs \<Rightarrow>
          (case child_at cs (slot d t) of None \<Rightarrow> None | Some c \<Rightarrow> node_at c t k)
      | _ \<Rightarrow> None)"

text \<open>
  The stack holds the path of \<open>t\<close> down to level \<open>L\<close>, the child indices being recorded
  above level \<open>L\<close> (\<open>stack_ok\<close>) or on all levels (\<open>full_ok\<close>).
\<close>

definition stack_ok ::
  "('a listNode option \<times> nat) list \<Rightarrow> 'a listNode \<Rightarrow> int \<Rightarrow> nat \<Rightarrow> bool" where
  "stack_ok st r t L =
     (\<forall>k \<le> L. \<exists>n. node_at r t k = Some n \<and> fst (st ! k) = Some n
                \<and> (k < L \<longrightarrow> snd (st ! k) = slot (depth n) t))"

definition full_ok ::
  "('a listNode option \<times> nat) list \<Rightarrow> 'a listNode \<Rightarrow> int \<Rightarrow> nat \<Rightarrow> bool" where
  "full_ok st r t L =
     (\<forall>k \<le> L. \<exists>n. node_at r t k = Some n \<and> st ! k = (Some n, slot (depth n) t))"

lemma stack_ok_below:
  "stack_ok st r t L \<Longrightarrow> k < L \<Longrightarrow>
   \<exists>n. node_at r t k = Some n \<and> fst (st ! k) = Some n \<and> snd (st ! k) = slot (depth n) t"
  unfolding stack_ok_def by (metis less_imp_le_nat)

lemma stack_ok_top:
  "stack_ok st r t L \<Longrightarrow> \<exists>n. node_at r t L = Some n \<and> fst (st ! L) = Some n"
  unfolding stack_ok_def by blast

lemma full_ok_at:
  "full_ok st r t L \<Longrightarrow> k \<le> L \<Longrightarrow>
   \<exists>n. node_at r t k = Some n \<and> st ! k = (Some n, slot (depth n) t)"
  unfolding full_ok_def by blast

lemma node_at_wf:
  "wf_node r \<Longrightarrow> node_at r t k = Some n \<Longrightarrow> wf_node n \<and> depth n + k = depth r"
proof (induction k arbitrary: r)
  case 0
  then show ?case by simp
next
  case (Suc k)
  from Suc.prems(2) obtain d cs c where r: "r = listBranchNode d cs"
    and c: "child_at cs (slot d t) = Some c" and n: "node_at c t k = Some n"
    by (auto split: listNode.splits option.splits)
  from child_at_wf [OF Suc.prems(1) [unfolded r] c] have wc: "wf_node c" "depth c = d - 1" by auto
  from Suc.prems(1) r have "0 < d" by simp
  with Suc.IH [OF wc(1) n] wc(2) r show ?case by simp
qed

lemma node_at_Suc:
  "node_at r t (Suc k) =
     (case node_at r t k of
        Some (listBranchNode d cs) \<Rightarrow> child_at cs (slot d t)
      | _ \<Rightarrow> None)"
proof (induction k arbitrary: r)
  case 0
  show ?case by (simp split: listNode.splits option.splits)
next
  case (Suc k)
  show ?case
  proof (cases r)
    case (listBranchNode d cs)
    show ?thesis
    proof (cases "child_at cs (slot d t)")
      case None
      with listBranchNode show ?thesis by simp
    next
      case (Some c)
      with listBranchNode Suc.IH [of c] show ?thesis by simp
    qed
  qed simp_all
qed

lemma node_at_get:
  "wf_node r \<Longrightarrow> node_get r t = Inr v \<Longrightarrow> k \<le> depth r \<Longrightarrow>
   \<exists>n. node_at r t k = Some n \<and> node_get n t = Inr v"
proof (induction k arbitrary: r)
  case 0
  then show ?case by simp
next
  case (Suc k)
  then obtain d where "depth r = Suc d" by (cases "depth r") auto
  with Suc.prems(1) obtain cs where r: "r = listBranchNode (Suc d) cs"
    and ch: "\<And>i c. child_at cs i = Some c \<Longrightarrow> depth c = d \<and> wf_node c"
    using wf_depth_Suc by blast
  from Suc.prems(2) r obtain c where c: "child_at cs (slot (Suc d) t) = Some c"
    "node_get c t = Inr v" by (auto split: option.splits)
  from ch [OF c(1)] Suc.prems(3) r have "wf_node c" "k \<le> depth c" by simp_all
  from Suc.IH [OF this(1) c(2) this(2)] r c(1) show ?case by simp
qed

lemma node_at_cong:
  "wf_node r \<Longrightarrow> k \<le> depth r \<Longrightarrow> (\<forall>j < k. slot (depth r - j) t = slot (depth r - j) t') \<Longrightarrow>
   node_at r t k = node_at r t' k"
proof (induction k arbitrary: r)
  case 0
  show ?case by simp
next
  case (Suc k)
  then obtain d where d: "depth r = Suc d" by (cases "depth r") auto
  with Suc.prems(1) obtain cs where r: "r = listBranchNode (Suc d) cs"
    and ch: "\<And>i c. child_at cs i = Some c \<Longrightarrow> depth c = d \<and> wf_node c"
    using wf_depth_Suc by blast
  from Suc.prems(3) [rule_format, of 0] d have s: "slot (Suc d) t = slot (Suc d) t'" by simp
  show ?case
  proof (cases "child_at cs (slot (Suc d) t)")
    case None
    with r s show ?thesis by simp
  next
    case (Some c)
    from ch [OF Some] have wc: "wf_node c" "depth c = d" by auto
    have "\<forall>j < k. slot (depth c - j) t = slot (depth c - j) t'"
    proof (intro allI impI)
      fix j assume "j < k"
      with Suc.prems(3) [rule_format, of "Suc j"] d wc show "slot (depth c - j) t = slot (depth c - j) t'"
        by simp
    qed
    from Suc.IH [OF wc(1) _ this] Suc.prems(2) d wc r s Some show ?thesis by simp
  qed
qed

lemma seek_loop_branch:
  assumes "itr_depth itr < length (itr_stack itr)"
    "fst (itr_stack itr ! itr_depth itr) = Some (listBranchNode d cs)"
    "Suc (itr_depth itr) < length (itr_stack itr)"
  shows "seek_loop itr index =
     seek_loop (itr\<lparr>itr_stack := (itr_stack itr)
                  [itr_depth itr := (Some (listBranchNode d cs), slot d (origin (itr_list itr) + index)),
                   Suc (itr_depth itr) := (child_at cs (slot d (origin (itr_list itr) + index)), 0)],
                itr_depth := Suc (itr_depth itr)\<rparr>) index"
  using assms by (subst seek_loop.simps) (simp add: Let_def)

lemma seek_loop_leaf:
  assumes "itr_depth itr < length (itr_stack itr)"
    "fst (itr_stack itr ! itr_depth itr) = Some (listLeafNode cs occ)"
  shows "seek_loop itr index =
     Inr (itr\<lparr>itr_stack := (itr_stack itr)[itr_depth itr :=
            (Some (listLeafNode cs occ), slot 0 (origin (itr_list itr) + index))]\<rparr>)"
  using assms by (subst seek_loop.simps) simp

lemma seek_loop_ok:
  assumes "wf_node r" "depth r = D" "D < 32" "node_get r t = Inr v"
  shows "itr_depth itr = L \<Longrightarrow> D - L = m \<Longrightarrow> L \<le> D \<Longrightarrow> length (itr_stack itr) = 32 \<Longrightarrow>
         stack_ok (itr_stack itr) r t L \<Longrightarrow> t = origin (itr_list itr) + index \<Longrightarrow>
         \<exists>itr'. seek_loop itr index = Inr itr' \<and> itr_depth itr' = D
           \<and> itr_list itr' = itr_list itr \<and> itr_index itr' = itr_index itr
           \<and> length (itr_stack itr') = 32 \<and> full_ok (itr_stack itr') r t D"
proof (induction m arbitrary: itr L)
  case 0
  then have LD: "L = D" by simp
  from stack_ok_top [OF 0(5)]
  obtain n where n: "node_at r t L = Some n" "fst (itr_stack itr ! L) = Some n" by blast
  from node_at_wf [OF assms(1) n(1)] LD assms(2) have "wf_node n" "depth n = 0" by auto
  then obtain cs occ where leaf: "n = listLeafNode cs occ" using wf_depth_0 by blast
  let ?st = "(itr_stack itr)[L := (Some n, slot 0 t)]"
  have d1: "itr_depth itr < length (itr_stack itr)" using 0(1,4) LD assms(3) by simp
  have d2: "fst (itr_stack itr ! itr_depth itr) = Some (listLeafNode cs occ)"
    using n(2) leaf 0(1) by simp
  have res: "seek_loop itr index = Inr (itr\<lparr>itr_stack := ?st\<rparr>)"
    unfolding seek_loop_leaf [OF d1 d2] by (simp only: 0(1) leaf 0(6))
  have "full_ok ?st r t D"
    unfolding full_ok_def
  proof (intro allI impI)
    fix k assume k: "k \<le> D"
    show "\<exists>n. node_at r t k = Some n \<and> ?st ! k = (Some n, slot (depth n) t)"
    proof (cases "k = L")
      case True
      with n leaf 0(4) LD assms(3) show ?thesis by simp
    next
      case False
      with k LD have "k < L" by simp
      from stack_ok_below [OF 0(5) this]
      obtain n' where "node_at r t k = Some n'" "fst (itr_stack itr ! k) = Some n'"
        "snd (itr_stack itr ! k) = slot (depth n') t" by blast
      with False show ?thesis by (simp add: prod_eq_iff)
    qed
  qed
  with res 0(1,4) LD show ?case by simp
next
  case (Suc m)
  then have LD: "L < D" by simp
  from stack_ok_top [OF Suc(6)]
  obtain n where n: "node_at r t L = Some n" "fst (itr_stack itr ! L) = Some n" by blast
  from node_at_wf [OF assms(1) n(1)] LD assms(2) have wn: "wf_node n" "depth n = D - L" by auto
  have "0 < depth n" using wn(2) LD by simp
  then obtain d where "depth n = Suc d" using gr0_implies_Suc by blast
  with wn obtain cs where br: "n = listBranchNode (Suc d) cs" using wf_depth_Suc by blast
  from node_at_get [OF assms(1,4), of "Suc L"] LD assms(2)
  obtain c where c: "node_at r t (Suc L) = Some c" by auto
  have ch: "child_at cs (slot (Suc d) t) = Some c"
    using c unfolding node_at_Suc n(1) br by simp
  let ?st = "(itr_stack itr)[L := (Some n, slot (Suc d) t), Suc L := (Some c, 0)]"
  let ?itr = "itr\<lparr>itr_stack := ?st, itr_depth := Suc L\<rparr>"
  have d1: "itr_depth itr < length (itr_stack itr)" using Suc(2,5) LD assms(3) by simp
  have d2: "fst (itr_stack itr ! itr_depth itr) = Some (listBranchNode (Suc d) cs)"
    using n(2) br Suc(2) by simp
  have d3: "Suc (itr_depth itr) < length (itr_stack itr)" using Suc(2,5) LD assms(3) by simp
  have step: "seek_loop itr index = seek_loop ?itr index"
    unfolding seek_loop_branch [OF d1 d2 d3, of index]
    by (simp only: Suc(2) br Suc(7) [symmetric] ch)
  have ok: "stack_ok ?st r t (Suc L)"
    unfolding stack_ok_def
  proof (intro allI impI)
    fix k assume k: "k \<le> Suc L"
    have len: "L < length (itr_stack itr)" "Suc L < length (itr_stack itr)"
      using LD assms(3) Suc(5) by simp_all
    consider "k = Suc L" | "k = L" | "k < L" using k by linarith
    then show "\<exists>n. node_at r t k = Some n \<and> fst (?st ! k) = Some n
                \<and> (k < Suc L \<longrightarrow> snd (?st ! k) = slot (depth n) t)"
    proof cases
      case 1
      with c len show ?thesis by simp
    next
      case 2
      with n br len show ?thesis by simp
    next
      case 3
      from stack_ok_below [OF Suc(6) this]
      obtain n' where "node_at r t k = Some n'" "fst (itr_stack itr ! k) = Some n'"
        "snd (itr_stack itr ! k) = slot (depth n') t" by blast
      with 3 show ?thesis by simp
    qed
  qed
  have "\<exists>itr'. seek_loop ?itr index = Inr itr' \<and> itr_depth itr' = D
           \<and> itr_list itr' = itr_list ?itr \<and> itr_index itr' = itr_index ?itr
           \<and> length (itr_stack itr') = 32 \<and> full_ok (itr_stack itr') r t D"
  proof (rule Suc.IH [of ?itr "Suc L"])
    show "itr_depth ?itr = Suc L" by simp
    show "D - Suc L = m" using Suc(3) by simp
    show "Suc L \<le> D" using LD by simp
    show "length (itr_stack ?itr) = 32" using Suc(5) by simp
    show "stack_ok (itr_stack ?itr) r t (Suc L)" using ok by simp
    show "t = origin (itr_list ?itr) + index" using Suc(7) by simp
  qed
  with step show ?case by simp
qed



subsection \<open>Advancing the iterator by one\<close>

lemma low_digits_31:
  "(\<forall>e < m. slot e t = 31) \<Longrightarrow> t mod 32 ^ m = 32 ^ m - 1"
proof (induction m)
  case 0
  then show ?case by simp
next
  case (Suc m)
  then have "t mod 32 ^ m = 32 ^ m - 1" "slot m t = 31" by simp_all
  then have "t mod 32 ^ Suc m = 32 ^ m * 31 + (32 ^ m - 1)"
    by (simp only: mod_split [of t m])
  then show ?case by simp
qed

lemma div_succ_same:
  assumes "0 < (b::int)" "a mod b + 1 < b"
  shows "(a + 1) div b = a div b"
proof (rule int_div_pos_eq [where r = "a mod b + 1"])
  show "a + 1 = b * (a div b) + (a mod b + 1)" by simp
  show "0 \<le> a mod b + 1" using assms(1) by (simp add: add_nonneg_nonneg)
  show "a mod b + 1 < b" by (rule assms(2))
qed

lemma slot_via_div:
  assumes "m \<le> e"
  shows "slot e t = nat ((t div 32 ^ m) div 32 ^ (e - m) mod 32)"
proof -
  have "(32::int) ^ e = 32 ^ m * 32 ^ (e - m)"
    using assms by (simp flip: power_add)
  then have "t div 32 ^ e = (t div 32 ^ m) div 32 ^ (e - m)"
    by (simp add: zdiv_zmult2_eq)
  then show ?thesis by (simp add: slot_eq)
qed

lemma succ_high_digits:
  assumes low: "t mod 32 ^ m = 32 ^ m - 1" and dig: "slot m t < 31" and e: "m < e"
  shows "slot e (t + 1) = slot e t"
proof -
  have "int (slot m t) \<le> 30" using dig by simp
  then have "32 ^ m * int (slot m t) \<le> (32::int) ^ m * 30"
    by (intro mult_left_mono) simp_all
  moreover have "t mod 32 ^ Suc m = 32 ^ m * int (slot m t) + (32 ^ m - 1)"
    by (simp only: mod_split [of t m] low)
  ultimately have "t mod 32 ^ Suc m + 1 \<le> 32 ^ m * 30 + 32 ^ m" by linarith
  also have "\<dots> < (32::int) ^ Suc m" by simp
  finally have "(t + 1) div 32 ^ Suc m = t div 32 ^ Suc m"
    by (intro div_succ_same) simp_all
  with e show ?thesis by (simp only: slot_via_div [of "Suc m" e] Suc_leI)
qed

lemma pop_depth_le: "pop_depth st D \<le> D"
  by (induction D) auto

lemma pop_depth_above:
  "pop_depth st D < k \<Longrightarrow> k \<le> D \<Longrightarrow> snd (st ! k) \<ge> 31"
proof (induction D)
  case 0
  then show ?case by simp
next
  case (Suc D)
  show ?case
  proof (cases "snd (st ! Suc D) \<ge> listNodeSize - 1")
    case True
    with Suc show ?thesis by (cases "k = Suc D") auto
  next
    case False
    with Suc.prems show ?thesis by simp
  qed
qed

lemma pop_depth_stop:
  "pop_depth st D = 0 \<or> snd (st ! pop_depth st D) < 31"
  by (induction D) auto

definition itr_at :: "'a List \<Rightarrow> 'a ListIterator \<Rightarrow> nat \<Rightarrow> bool" where
  "itr_at l itr i =
     (itr_list itr = l \<and> itr_index itr = int i \<and>
      (\<not> is_slice (root l) \<and> int i < size_l l \<longrightarrow>
         itr_depth itr = depth (root l) \<and> length (itr_stack itr) = 32 \<and>
         full_ok (itr_stack itr) (root l) (origin l + int i) (depth (root l))))"

lemma Next_slice:
  assumes "\<not> Done itr" "root (itr_list itr) = listSliceNode es"
  shows "Next itr =
     (case node_get (listSliceNode es) (itr_index itr) of
        Inl e \<Rightarrow> Inl e
      | Inr v \<Rightarrow> Inr (itr\<lparr>itr_index := itr_index itr + 1\<rparr>, itr_index itr, v))"
  using assms by (simp add: Next_def)

lemma Next_trie:
  assumes "\<not> Done itr" "\<not> is_slice (root (itr_list itr))"
    "itr_depth itr < length (itr_stack itr)"
    "itr_stack itr ! itr_depth itr = (Some (listLeafNode cs occ), ei)" "ei < length cs"
  shows "Next itr =
     (if Done (itr\<lparr>itr_index := itr_index itr + 1\<rparr>)
      then Inr (itr\<lparr>itr_index := itr_index itr + 1\<rparr>, itr_index itr, cs ! ei)
      else (case seek (itr\<lparr>itr_index := itr_index itr + 1,
                          itr_depth := pop_depth (itr_stack itr) (itr_depth itr)\<rparr>)
                      (itr_index itr + 1) of
              Inl e \<Rightarrow> Inl e
            | Inr itr'' \<Rightarrow> Inr (itr'', itr_index itr, cs ! ei)))"
  using assms by (cases "root (itr_list itr)") (simp_all add: Next_def Let_def is_slice_def)



lemma stack_ok_succ:
  assumes wf: "wf_node r" and D: "depth r = D" and full: "full_ok st r t D"
    and L: "L = pop_depth st D"
  shows "stack_ok st r (t + 1) L"
proof -
  have LD: "L \<le> D" unfolding L by (rule pop_depth_le)
  have at: "\<exists>n. node_at r t k = Some n \<and> st ! k = (Some n, slot (D - k) t)" if "k \<le> D" for k
  proof -
    from full_ok_at [OF full that] obtain n where
      n: "node_at r t k = Some n" "st ! k = (Some n, slot (depth n) t)" by blast
    from node_at_wf [OF wf n(1)] have "depth n + k = depth r" by simp
    with D have "depth n = D - k" by linarith
    with n show ?thesis by simp
  qed
  have hi: "slot e (t + 1) = slot e t" if "L \<noteq> 0" "D - L < e" for e
  proof -
    have low: "\<forall>e' < D - L. slot e' t = 31"
    proof (intro allI impI)
      fix e' assume e': "e' < D - L"
      define k where "k = D - e'"
      have k: "L < k" "k \<le> D" "D - k = e'" using e' by (simp_all add: k_def)
      from pop_depth_above [of st D k] k L have "31 \<le> snd (st ! k)" by simp
      moreover from at [OF k(2)] k(3) have "snd (st ! k) = slot e' t" by auto
      moreover have "slot e' t < 32" by (rule slot_lt)
      ultimately show "slot e' t = 31" by simp
    qed
    from pop_depth_stop [of st D] that(1) L have "snd (st ! L) < 31" by simp
    moreover from at [OF LD] have "snd (st ! L) = slot (D - L) t" by auto
    ultimately have dig: "slot (D - L) t < 31" by simp
    from succ_high_digits [OF low_digits_31 [OF low] dig that(2)] show ?thesis .
  qed
  show ?thesis
    unfolding stack_ok_def
  proof (intro allI impI)
    fix k assume k: "k \<le> L"
    with LD have kD: "k \<le> D" by simp
    from at [OF kD] obtain n where
      n: "node_at r t k = Some n" "st ! k = (Some n, slot (D - k) t)" by blast
    from node_at_wf [OF wf n(1)] have "depth n + k = depth r" by simp
    with D have dn: "depth n = D - k" by linarith
    have "\<forall>j < k. slot (depth r - j) (t + 1) = slot (depth r - j) t"
    proof (intro allI impI)
      fix j assume j: "j < k"
      with k LD have "L \<noteq> 0" "D - L < D - j" by simp_all
      from hi [OF this] D show "slot (depth r - j) (t + 1) = slot (depth r - j) t" by simp
    qed
    from node_at_cong [OF wf _ this] kD D have same: "node_at r (t + 1) k = node_at r t k"
      by simp
    have "snd (st ! k) = slot (depth n) (t + 1)" if "k < L"
    proof -
      from that LD have "L \<noteq> 0" "D - L < D - k" by simp_all
      from hi [OF this] n(2) dn show ?thesis by simp
    qed
    with same n show "\<exists>n. node_at r (t + 1) k = Some n \<and> fst (st ! k) = Some n \<and>
              (k < L \<longrightarrow> snd (st ! k) = slot (depth n) (t + 1))"
      by simp
  qed
qed

lemma Next_ok_slice:
  assumes r: "repr l xs" and sl: "is_slice (root l)" and at: "itr_at l itr i"
    and i: "i < length xs"
  shows "\<exists>itr'. Next itr = Inr (itr', int i, xs ! i) \<and> itr_at l itr' (Suc i)"
proof -
  from sl obtain es where es: "root l = listSliceNode es"
    by (cases "root l") (simp_all add: is_slice_def)
  with r have s: "size_l l = int (length xs)" "es = xs" by (simp_all add: repr_def)
  from at have a: "itr_list itr = l" "itr_index itr = int i" by (simp_all add: itr_at_def)
  have nd: "\<not> Done itr" using a s i by (simp add: Done_def Len_def)
  show ?thesis
    using Next_slice [OF nd, of es] a es s i sl by (simp add: itr_at_def)
qed

lemma Next_ok_trie:
  assumes r: "repr l xs" and ns: "\<not> is_slice (root l)" and dp: "depth (root l) < 32"
    and at: "itr_at l itr i" and i: "i < length xs"
  shows "\<exists>itr'. Next itr = Inr (itr', int i, xs ! i) \<and> itr_at l itr' (Suc i)"
proof -
  define D where "D = depth (root l)"
  define t where "t = origin l + int i"
  from r ns have s: "size_l l = int (length xs)" and wf: "wf_node (root l)"
    and get: "\<And>j. j < length xs \<Longrightarrow> node_get (root l) (origin l + int j) = Inr (xs ! j)"
    by (simp_all add: repr_trie)
  from at ns i s have a: "itr_list itr = l" "itr_index itr = int i" "itr_depth itr = D"
    "length (itr_stack itr) = 32" "full_ok (itr_stack itr) (root l) t D"
    by (simp_all add: itr_at_def D_def t_def)
  have nd: "\<not> Done itr" using a s i by (simp add: Done_def Len_def)
  from full_ok_at [OF a(5) le_refl] obtain n where
    n: "node_at (root l) t D = Some n" "itr_stack itr ! D = (Some n, slot (depth n) t)" by blast
  from node_at_wf [OF wf n(1)] have wn: "wf_node n" "depth n = 0" by (simp_all add: D_def)
  from wf_depth_0 [OF wn] obtain cs occ where
    leaf: "n = listLeafNode cs occ" "length cs = 32" by blast
  from node_at_get [OF wf get [OF i], of D] n(1) have "node_get n t = Inr (xs ! i)"
    by (simp add: D_def t_def)
  with leaf have v: "cs ! slot 0 t = xs ! i" by (simp add: slot_lt)
  have top: "itr_stack itr ! itr_depth itr = (Some (listLeafNode cs occ), slot 0 t)"
    using n(2) leaf a(3) wn(2) by simp
  have lt: "slot 0 t < length cs" using leaf by (simp add: slot_lt)
  have dl: "itr_depth itr < length (itr_stack itr)" using a dp by (simp add: D_def)
  have ns': "\<not> is_slice (root (itr_list itr))" using a ns by simp
  note nx = Next_trie [OF nd ns' dl top lt]
  show ?thesis
  proof (cases "Suc i < length xs")
    case False
    with i s a have "Done (itr\<lparr>itr_index := itr_index itr + 1\<rparr>)"
      by (simp add: Done_def Len_def)
    with nx v a False s show ?thesis by (simp add: itr_at_def)
  next
    case True
    with s a have nd': "\<not> Done (itr\<lparr>itr_index := itr_index itr + 1\<rparr>)"
      by (simp add: Done_def Len_def)
    define L where "L = pop_depth (itr_stack itr) D"
    define itr1 where "itr1 = itr\<lparr>itr_index := itr_index itr + 1,
                          itr_depth := pop_depth (itr_stack itr) (itr_depth itr)\<rparr>"
    have so: "stack_ok (itr_stack itr1) (root l) (t + 1) L"
      using stack_ok_succ [OF wf D_def [symmetric] a(5) L_def] by (simp add: itr1_def)
    have LD: "L \<le> D" unfolding L_def by (rule pop_depth_le)
    have g: "node_get (root l) (t + 1) = Inr (xs ! Suc i)"
      using get [OF True] by (simp add: t_def ac_simps)
    have "\<exists>itr'. seek_loop itr1 (itr_index itr + 1) = Inr itr' \<and> itr_depth itr' = D
           \<and> itr_list itr' = itr_list itr1 \<and> itr_index itr' = itr_index itr1
           \<and> length (itr_stack itr') = 32 \<and> full_ok (itr_stack itr') (root l) (t + 1) D"
    proof (rule seek_loop_ok [OF wf D_def [symmetric] _ g _ refl LD _ so])
      show "D < 32" using dp by (simp add: D_def)
      show "itr_depth itr1 = L" by (simp add: itr1_def L_def a)
      show "length (itr_stack itr1) = 32" by (simp add: itr1_def a)
      show "t + 1 = origin (itr_list itr1) + (itr_index itr + 1)"
        by (simp add: itr1_def a t_def)
    qed
    then obtain itr' where
      sk: "seek_loop itr1 (itr_index itr + 1) = Inr itr'" "itr_depth itr' = D"
        "itr_list itr' = itr_list itr1" "itr_index itr' = itr_index itr1"
        "length (itr_stack itr') = 32" "full_ok (itr_stack itr') (root l) (t + 1) D"
      by blast
    have "seek itr1 (itr_index itr + 1) = Inr itr'"
      using sk(1) ns a by (simp add: seek_def itr1_def)
    with nx nd' have "Next itr = Inr (itr', itr_index itr, cs ! slot 0 t)"
      by (simp add: itr1_def)
    moreover have "itr_at l itr' (Suc i)"
      using sk a by (simp add: itr_at_def itr1_def D_def t_def ac_simps)
    ultimately show ?thesis using v a by simp
  qed
qed

lemma Next_ok:
  assumes "repr l xs" "depth (root l) < 32" "itr_at l itr i" "i < length xs"
  shows "\<exists>itr'. Next itr = Inr (itr', int i, xs ! i) \<and> itr_at l itr' (Suc i)"
  using assms Next_ok_slice Next_ok_trie by (cases "is_slice (root l)") blast+



subsection \<open>Iterating and reversing a list\<close>

lemma Iterator_ok:
  assumes r: "repr l xs" and dp: "depth (root l) < 32"
  shows "\<exists>itr. Iterator l = Inr itr \<and> itr_at l itr 0"
proof (cases "xs = []")
  case True
  with r have "size_l l = 0" by (simp add: repr_def)
  then show ?thesis by (simp add: Iterator_def First_def Len_def itr_at_def)
next
  case False
  from r have s: "size_l l = int (length xs)" by (simp add: repr_def)
  with False have pos: "0 < size_l l" by simp
  define itr0 where "itr0 = \<lparr>itr_list = l, itr_index = 0,
       itr_stack = (replicate 32 (None, 0))[0 := (Some (root l), 0)], itr_depth = 0\<rparr>"
  have it: "Iterator l = seek itr0 0"
    using pos by (simp add: Iterator_def First_def Seek_def Len_def itr0_def)
  show ?thesis
  proof (cases "is_slice (root l)")
    case True
    then show ?thesis by (simp add: it seek_def itr_at_def itr0_def)
  next
    case ns: False
    from r ns have wf: "wf_node (root l)"
      and get: "\<And>j. j < length xs \<Longrightarrow> node_get (root l) (origin l + int j) = Inr (xs ! j)"
      by (simp_all add: repr_trie)
    from False get [of 0] have g: "node_get (root l) (origin l) = Inr (xs ! 0)" by simp
    have so: "stack_ok (itr_stack itr0) (root l) (origin l) 0"
      by (simp add: stack_ok_def itr0_def)
    have "\<exists>itr'. seek_loop itr0 0 = Inr itr' \<and> itr_depth itr' = depth (root l)
           \<and> itr_list itr' = itr_list itr0 \<and> itr_index itr' = itr_index itr0
           \<and> length (itr_stack itr') = 32
           \<and> full_ok (itr_stack itr') (root l) (origin l) (depth (root l))"
    proof (rule seek_loop_ok [OF wf refl dp g _ refl _ _ so])
      show "itr_depth itr0 = 0" by (simp add: itr0_def)
      show "0 \<le> depth (root l)" by simp
      show "length (itr_stack itr0) = 32" by (simp add: itr0_def)
      show "origin l = origin (itr_list itr0) + 0" by (simp add: itr0_def)
    qed
    then obtain itr' where
      sk: "seek_loop itr0 0 = Inr itr'" "itr_depth itr' = depth (root l)"
        "itr_list itr' = itr_list itr0" "itr_index itr' = itr_index itr0"
        "length (itr_stack itr') = 32"
        "full_ok (itr_stack itr') (root l) (origin l) (depth (root l))"
      by blast
    have "Iterator l = Inr itr'" using it sk(1) ns by (simp add: seek_def itr0_def)
    moreover have "itr_at l itr' 0" using sk by (simp add: itr_at_def itr0_def)
    ultimately show ?thesis by blast
  qed
qed

lemma reverse_loop_ok:
  assumes r: "repr l xs" and dp: "depth (root l) < 32"
  shows "itr_at l itr i \<Longrightarrow> length xs - i = m \<Longrightarrow> i \<le> length xs \<Longrightarrow>
         length vals = length xs \<Longrightarrow> idx = int (length xs) - 1 - int i \<Longrightarrow>
         \<exists>vals'. reverse_loop itr vals idx = Inr vals' \<and> length vals' = length xs \<and>
           (\<forall>j < length xs. vals' ! j =
               (if int j \<le> idx then xs ! (length xs - 1 - j) else vals ! j))"
proof (induction m arbitrary: itr i vals idx)
  case 0
  then have i: "i = length xs" by simp
  from r have s: "size_l l = int (length xs)" by (simp add: repr_def)
  from 0 i s have "Done itr" by (simp add: itr_at_def Done_def Len_def)
  then have "reverse_loop itr vals idx = Inr vals" by (subst reverse_loop.simps) simp
  with 0 i show ?case by simp
next
  case (Suc m)
  then have i: "i < length xs" by simp
  from r have s: "size_l l = int (length xs)" by (simp add: repr_def)
  from Suc.prems i s have nd: "\<not> Done itr" by (simp add: itr_at_def Done_def Len_def)
  from Next_ok [OF r dp Suc.prems(1) i] obtain itr' where
    nx: "Next itr = Inr (itr', int i, xs ! i)" "itr_at l itr' (Suc i)" by blast
  have idx: "0 \<le> idx" "idx < int (length vals)" "nat idx = length xs - 1 - i"
    using Suc.prems i by simp_all
  have unf: "reverse_loop itr vals idx = reverse_loop itr' (vals[nat idx := xs ! i]) (idx - 1)"
    using nd nx(1) idx by (subst reverse_loop.simps) simp
  have "\<exists>vals'. reverse_loop itr' (vals[nat idx := xs ! i]) (idx - 1) = Inr vals'
          \<and> length vals' = length xs \<and>
           (\<forall>j < length xs. vals' ! j =
               (if int j \<le> idx - 1 then xs ! (length xs - 1 - j)
                else (vals[nat idx := xs ! i]) ! j))"
  proof (rule Suc.IH [OF nx(2)])
    show "length xs - Suc i = m" using Suc.prems by simp
    show "Suc i \<le> length xs" using i by simp
    show "length (vals[nat idx := xs ! i]) = length xs" using Suc.prems by simp
    show "idx - 1 = int (length xs) - 1 - int (Suc i)" using Suc.prems by simp
  qed
  then obtain vals' where
    v: "reverse_loop itr' (vals[nat idx := xs ! i]) (idx - 1) = Inr vals'"
       "length vals' = length xs"
       "\<And>j. j < length xs \<Longrightarrow> vals' ! j =
               (if int j \<le> idx - 1 then xs ! (length xs - 1 - j)
                else (vals[nat idx := xs ! i]) ! j)"
    by blast
  have "vals' ! j = (if int j \<le> idx then xs ! (length xs - 1 - j) else vals ! j)"
    if j: "j < length xs" for j
  proof (cases "j = nat idx")
    case True
    with idx i have a: "length xs - 1 - j = i" "\<not> int j \<le> idx - 1" "int j \<le> idx"
      by simp_all
    from v(3) [OF j] a(2) have "vals' ! j = (vals[nat idx := xs ! i]) ! j" by (simp only: if_False)
    also have "\<dots> = xs ! i" using True j Suc.prems(4) by (simp only: nth_list_update_eq)
    finally show ?thesis using a(1,3) by (simp only: if_True)
  next
    case False
    with idx have "(int j \<le> idx - 1) = (int j \<le> idx)" by linarith
    with v(3) [OF j] False show ?thesis by simp
  qed
  with unf v(1,2) show ?case by simp
qed

lemma reverseList_ok:
  assumes r: "repr l xs" and dp: "depth (root l) < 32"
  shows "\<exists>l'. reverseList (Some l) = Inr l' \<and> repr l' (rev xs)"
proof (cases "xs = []")
  case True
  with r have "Len l = 0" by (simp add: repr_def Len_def)
  with NewList_repr [of "[]"] True show ?thesis by (simp add: reverseList_def)
next
  case False
  from r have s: "Len l = int (length xs)" by (simp add: repr_def Len_def)
  from Iterator_ok [OF r dp] obtain itr where
    it: "Iterator l = Inr itr" "itr_at l itr 0" by blast
  have "\<exists>vals'. reverse_loop itr (replicate (length xs) 0) (int (length xs) - 1) = Inr vals'
          \<and> length vals' = length xs \<and>
           (\<forall>j < length xs. vals' ! j =
               (if int j \<le> int (length xs) - 1 then xs ! (length xs - 1 - j)
                else (replicate (length xs) 0) ! j))"
    by (rule reverse_loop_ok [OF r dp it(2)]) simp_all
  then obtain vals' where
    v: "reverse_loop itr (replicate (length xs) 0) (int (length xs) - 1) = Inr vals'"
       "length vals' = length xs"
       "\<And>j. j < length xs \<Longrightarrow> vals' ! j = xs ! (length xs - 1 - j)"
    by auto
  have "vals' = rev xs"
    using v(2,3) by (intro nth_equalityI) (simp_all add: rev_nth)
  moreover from s False have "Len l \<noteq> 0" by simp
  ultimately show ?thesis
    using NewList_repr [of "rev xs"] it(1) v(1) s by (simp add: reverseList_def)
qed



subsection \<open>Lists grown by prepending only\<close>

text \<open>
  The back list of a queue only ever grows by \<open>Prepend\<close>.  Once it is a trie it ends
  exactly at the capacity of its root and fills at least one slot of the top level, so its
  depth is logarithmic in its size.
\<close>

definition dense :: "'a List \<Rightarrow> bool" where
  "dense l = (is_slice (root l) \<or>
     (origin l + size_l l = 32 ^ Suc (depth (root l)) \<and> 32 ^ depth (root l) \<le> size_l l))"

lemma dense_depth:
  assumes "dense l" "size_l l < 2 ^ 63"
  shows "depth (root l) < 32"
proof (cases "is_slice (root l)")
  case True
  then show ?thesis by (cases "root l") (simp_all add: is_slice_def)
next
  case False
  with assms have le: "(32::int) ^ depth (root l) \<le> size_l l" by (simp add: dense_def)
  show ?thesis
  proof (rule ccontr)
    assume "\<not> depth (root l) < 32"
    then have "(32::int) ^ 32 \<le> 32 ^ depth (root l)" by (intro power_increasing) simp_all
    with le assms(2) show False by simp
  qed
qed

lemma wf_grown:
  assumes "wf_node r"
  shows "wf_node (listBranchNode (depth r + 1) ((replicate listNodeSize None)[listNodeSize - 1 := Some r]))"
proof -
  have "wf_node (listBranchNode (depth r + 1) ((replicate 32 None)[31 := Some r]))"
  proof (rule wf_branchI)
    fix i c assume "i < 32" "(replicate 32 None)[31 := Some r] ! i = Some c"
    then have "c = r" by (cases "i = 31") auto
    with assms show "depth c = depth r + 1 - 1 \<and> wf_node c" by simp
  qed simp_all
  then show ?thesis by simp
qed

lemma prepend_trie_shape:
  assumes wf: "wf_node (root l)" and p: "prepend_trie l v m = Inr l'"
  shows "size_l l' = size_l l + 1 \<and>
     (if origin l = 0
      then depth (root l') = Suc (depth (root l)) \<and> origin l' = 31 * 32 ^ Suc (depth (root l)) - 1
      else depth (root l') = depth (root l) \<and> origin l' = origin l - 1)"
proof -
  let ?d = "depth (root l)"
  define grown where "grown = (origin l = 0)"
  define r0 where "r0 = (if grown then listBranchNode (?d + 1)
                                ((replicate listNodeSize None)[listNodeSize - 1 := Some (root l)])
                         else root l)"
  define o0 where "o0 = (if grown then origin l + push_bit (depth r0 * listNodeBits) (int listNodeSize - 1)
                else origin l)"
  have o0_eq: "o0 = (if grown then 31 * 32 ^ Suc ?d else origin l)"
    using push_31 [of ?d] by (simp add: o0_def r0_def grown_def del: power_Suc)
  have wf0: "wf_node r0"
    using wf wf_grown [OF wf] by (simp add: r0_def)
  have d0: "depth r0 = (if grown then Suc ?d else ?d)" by (simp add: r0_def)
  from node_set_wf [OF wf0 refl] obtain r' where
    r': "node_set r0 (o0 - 1) v m = Inr r'" "depth r' = depth r0" by blast
  have "prepend_trie l v m =
      (case node_set r0 (o0 - 1) v m of
         Inl e \<Rightarrow> Inl e
       | Inr r \<Rightarrow> Inr (l\<lparr>root := r, origin := o0 - 1, size_l := size_l l + 1\<rparr>))"
    unfolding prepend_trie_unfold Let_def r0_def o0_def grown_def by (rule refl)
  with r' p have "l' = l\<lparr>root := r', origin := o0 - 1, size_l := size_l l + 1\<rparr>" by simp
  then have "size_l l' = size_l l + 1" "depth (root l') = depth r0" "origin l' = o0 - 1"
    using r'(2) by simp_all
  then show ?thesis unfolding d0 o0_eq grown_def by simp
qed

lemma prepend_trie_dense:
  assumes wf: "wf_node (root l)" and p: "prepend_trie l v m = Inr l'"
    and sum: "origin l + size_l l = 32 ^ Suc (depth (root l))"
    and low: "32 ^ depth (root l) \<le> size_l l"
  shows "dense l'"
proof (cases "origin l = 0")
  case True
  with prepend_trie_shape [OF wf p] have
    s: "size_l l' = size_l l + 1" "depth (root l') = Suc (depth (root l))"
       "origin l' = 31 * 32 ^ Suc (depth (root l)) - 1" by simp_all
  from True sum have sz: "size_l l = 32 ^ Suc (depth (root l))" by simp
  have "(32::int) ^ Suc (Suc (depth (root l))) = 31 * 32 ^ Suc (depth (root l)) + 32 ^ Suc (depth (root l))"
    by simp
  with sz have "origin l' + size_l l' = 32 ^ Suc (depth (root l'))"
    unfolding s by linarith
  moreover have "32 ^ depth (root l') \<le> size_l l'" unfolding s sz by simp
  ultimately show ?thesis by (simp add: dense_def)
next
  case False
  with prepend_trie_shape [OF wf p] have
    s: "size_l l' = size_l l + 1" "depth (root l') = depth (root l)"
       "origin l' = origin l - 1" by simp_all
  from sum low show ?thesis unfolding dense_def s by simp
qed

lemma List_prepend_dense:
  assumes r: "repr l xs" and d: "dense l" and p: "List_prepend l v m = Inr l'"
  shows "dense l'"
proof (cases "is_slice (root l)")
  case False
  with r have wf: "wf_node (root l)" by (simp add: repr_trie)
  from p False have "prepend_trie l v m = Inr l'" by (simp add: List_prepend_trie)
  from prepend_trie_dense [OF wf this] d False show ?thesis by (simp add: dense_def)
next
  case True
  then obtain es where es: "root l = listSliceNode es" by (cases "root l") (simp_all add: is_slice_def)
  with r have s: "size_l l = int (length xs)" "es = xs" "length xs \<le> 32"
    by (simp_all add: repr_def)
  show ?thesis
  proof (cases "size_l l < listSliceThreshold")
    case True
    with es p show ?thesis
      by (auto simp: List_prepend_def Let_def clone_def dense_def is_slice_def split: if_splits)
  next
    case False
    with s have len: "length xs = 32" by (simp add: listSliceThreshold_def)
    from toTrie_small [OF s(3), of True] obtain tr where
      tr: "toTrie xs True = Inr tr" "wf_node tr" "depth tr = 0" by blast
    let ?t = "\<lparr>root = tr, origin = 0, size_l = size_l l\<rparr>"
    from p es s False tr(1) have "prepend_trie ?t v m = Inr l'" by (simp add: List_prepend_def)
    then show ?thesis
      by (rule prepend_trie_dense [rotated]) (simp_all add: tr s len)
  qed
qed

lemma NewList_small_slice:
  "length xs \<le> 32 \<Longrightarrow> NewList xs = Inr l \<Longrightarrow> is_slice (root l)"
  by (auto simp: NewList_def listSliceThreshold_def is_slice_def)



subsection \<open>Queue invariant\<close>

text \<open>
  A queue stands for the sequence \<open>front @ rev back\<close>; both lists satisfy their
  representation invariant and \<open>size\<close> is the length of the sequence.
\<close>

definition queue_inv :: "'a Queue option \<Rightarrow> 'a list \<Rightarrow> bool" where
  "queue_inv qo xs =
     (case qo of
        None \<Rightarrow> xs = []
      | Some q \<Rightarrow>
          (\<exists>f b fs bs. front_q q = Some f \<and> back_q q = Some b \<and> repr f fs \<and> repr b bs \<and>
             dense b \<and> xs = fs @ rev bs \<and> size_q q = int (length xs)))"

lemma queue_invI:
  "front_q q = Some f \<Longrightarrow> back_q q = Some b \<Longrightarrow> repr f fs \<Longrightarrow> repr b bs \<Longrightarrow> dense b \<Longrightarrow>
   xs = fs @ rev bs \<Longrightarrow> size_q q = int (length xs) \<Longrightarrow> queue_inv (Some q) xs"
  unfolding queue_inv_def by auto

lemma queue_inv_Len: "queue_inv qo xs \<Longrightarrow> Queue_Len qo = int (length xs)"
  by (auto simp: queue_inv_def Queue_Len_def split: option.splits)

lemma NewList_nil_ok:
  "\<exists>l. NewList ([] :: 'a::zero list) = Inr l \<and> repr l [] \<and> dense l"
proof -
  from NewList_repr [of "[] :: 'a list"] obtain l where
    l: "NewList ([] :: 'a list) = Inr l" "repr l []" by blast
  from NewList_small_slice [OF _ l(1)] have "dense l" by (simp add: dense_def)
  with l show ?thesis by blast
qed

lemma NewList_single_ok:
  "\<exists>l. NewList [v :: 'a::zero] = Inr l \<and> repr l [v] \<and> dense l"
proof -
  from NewList_repr [of "[v]"] obtain l where
    l: "NewList [v] = Inr l" "repr l [v]" by blast
  from NewList_small_slice [OF _ l(1)] have "dense l" by (simp add: dense_def)
  with l show ?thesis by blast
qed

lemma NewQueue_empty_inv:
  "\<exists>q. NewQueue ([] :: 'a::zero list) = Inr q \<and> queue_inv (Some q) []"
proof -
  from NewList_nil_ok obtain l :: "'a List" where
    l: "NewList ([] :: 'a list) = Inr l" "repr l []" "dense l" by blast
  have "NewQueue ([] :: 'a list) = Inr \<lparr>front_q = Some l, back_q = Some l, size_q = 0\<rparr>"
    using l(1) by (simp add: NewQueue_def)
  moreover have "queue_inv (Some \<lparr>front_q = Some l, back_q = Some l, size_q = 0\<rparr>) []"
    by (rule queue_invI [OF _ _ l(2) l(2) l(3)]) simp_all
  ultimately show ?thesis by blast
qed

lemma Enqueue_inv:
  assumes "queue_inv qo xs"
  shows "\<exists>q'. Enqueue qo v = Inr q' \<and> queue_inv (Some q') (xs @ [v])"
proof (cases qo)
  case None
  with assms have xs: "xs = []" by (simp add: queue_inv_def)
  from NewList_nil_ok obtain f :: "'a List" where
    f: "NewList ([] :: 'a list) = Inr f" "repr f []" by blast
  from NewList_single_ok [of v] obtain b where
    b: "NewList [v] = Inr b" "repr b [v]" "dense b" by blast
  have "Enqueue qo v = Inr \<lparr>front_q = Some f, back_q = Some b, size_q = 1\<rparr>"
    using None f(1) b(1) by (simp add: Enqueue_def)
  moreover have "queue_inv (Some \<lparr>front_q = Some f, back_q = Some b, size_q = 1\<rparr>) (xs @ [v])"
    by (rule queue_invI [OF _ _ f(2) b(2) b(3)]) (simp_all add: xs)
  ultimately show ?thesis by blast
next
  case (Some q)
  with assms obtain f b fs bs where
    q: "front_q q = Some f" "back_q q = Some b" "repr f fs" "repr b bs" "dense b"
       "xs = fs @ rev bs" "size_q q = int (length xs)"
    by (auto simp: queue_inv_def)
  from List_prepend_repr [OF q(4), of v False] obtain b' where
    b': "List_prepend b v False = Inr b'" "repr b' (v # bs)" by blast
  from List_prepend_dense [OF q(4,5) b'(1)] have d: "dense b'" .
  have "Enqueue qo v = Inr \<lparr>front_q = Some f, back_q = Some b', size_q = size_q q + 1\<rparr>"
    using Some q(1,2) b'(1) by (simp add: Enqueue_def Prepend_def)
  moreover have "queue_inv (Some \<lparr>front_q = Some f, back_q = Some b', size_q = size_q q + 1\<rparr>)
                   (xs @ [v])"
    by (rule queue_invI [OF _ _ q(3) b'(2) d]) (simp_all add: q)
  ultimately show ?thesis by blast
qed

lemma normalize_inv:
  assumes f: "repr f fs" and b: "repr b bs" and d: "dense b"
    and n: "n = int (length (fs @ rev bs))" and small: "length bs < 2 ^ 63"
  shows "\<exists>f' b' fs' bs'.
           normalize (Some \<lparr>front_q = Some f, back_q = Some b, size_q = n\<rparr>)
             = Inr (Some \<lparr>front_q = Some f', back_q = Some b', size_q = n\<rparr>)
           \<and> repr f' fs' \<and> repr b' bs' \<and> dense b' \<and> fs' @ rev bs' = fs @ rev bs
           \<and> (fs @ rev bs \<noteq> [] \<longrightarrow> fs' \<noteq> [])"
proof -
  let ?q = "\<lparr>front_q = Some f, back_q = Some b, size_q = n\<rparr>"
  from f b have len: "Len f = int (length fs)" "Len b = int (length bs)"
    by (simp_all add: repr_def Len_def)
  have keep: ?thesis if "normalize (Some ?q) = Inr (Some ?q)" "fs @ rev bs \<noteq> [] \<longrightarrow> fs \<noteq> []"
    using that f b d by blast
  show ?thesis
  proof (cases "n = 0 \<or> fs \<noteq> [] \<or> bs = []")
    case True
    then have "normalize (Some ?q) = Inr (Some ?q)"
      using len by (auto simp: normalize_def)
    moreover from True n have "fs @ rev bs \<noteq> [] \<longrightarrow> fs \<noteq> []" by auto
    ultimately show ?thesis by (rule keep)
  next
    case False
    then have c: "n \<noteq> 0" "fs = []" "bs \<noteq> []" by simp_all
    from b small have "size_l b < 2 ^ 63" by (simp add: repr_def)
    from dense_depth [OF d this] have dp: "depth (root b) < 32" .
    from reverseList_ok [OF b dp] obtain f' where
      f': "reverseList (Some b) = Inr f'" "repr f' (rev bs)" by blast
    from NewList_nil_ok obtain b' :: "'a List" where
      b': "NewList ([] :: 'a list) = Inr b'" "repr b' []" "dense b'" by blast
    have "normalize (Some ?q) = Inr (Some \<lparr>front_q = Some f', back_q = Some b', size_q = n\<rparr>)"
      using c len f'(1) b'(1) by (simp add: normalize_def)
    with f'(2) b'(2,3) c show ?thesis by (intro exI [of _ f'] exI [of _ b'] exI [of _ "rev bs"] exI [of _ "[]"]) simp
  qed
qed

lemma front_pop:
  assumes f: "repr f fs" and ne: "fs \<noteq> []"
  shows "Get f 0 = Inr (hd fs) \<and> (\<exists>nf. Slice f 1 (Len f) = Inr nf \<and> repr nf (tl fs)) \<and> 0 < Len f"
proof -
  from ne have pos: "0 < length fs" by simp
  from f have len: "Len f = int (length fs)" by (simp add: repr_def Len_def)
  from repr_Get [OF f pos] ne have g: "Get f 0 = Inr (hd fs)" by (simp add: hd_conv_nth)
  from List_slice_repr [OF f, of 1 "length fs" False] pos obtain nf where
    "List_slice f (int 1) (int (length fs)) False = Inr nf" "repr nf (take (length fs - 1) (drop 1 fs))"
    by auto
  then have "Slice f 1 (Len f) = Inr nf" "repr nf (tl fs)"
    by (simp_all add: Slice_def len drop_Suc)
  with g len pos show ?thesis by auto
qed



lemma Dequeue_empty:
  assumes "queue_inv qo []"
  shows "Dequeue qo = Inr (None, 0, False)"
  using assms by (cases qo) (auto simp: queue_inv_def Dequeue_def)

lemma Dequeue_inv:
  assumes inv: "queue_inv qo xs" and ne: "xs \<noteq> []" and small: "length xs < 2 ^ 63"
  shows "\<exists>q'. Dequeue qo = Inr (Some q', hd xs, True) \<and> queue_inv (Some q') (tl xs)"
proof -
  from inv ne obtain q where qo: "qo = Some q" by (cases qo) (auto simp: queue_inv_def)
  with inv obtain f b fs bs where
    q: "front_q q = Some f" "back_q q = Some b" "repr f fs" "repr b bs" "dense b"
       "xs = fs @ rev bs" "size_q q = int (length xs)"
    by (auto simp: queue_inv_def)
  from q(7) ne have sz: "size_q q \<noteq> 0" by simp
  from q(6) small have sb: "length bs < 2 ^ 63" by simp
  from q(3,4) have len: "Len f = int (length fs)" "Len b = int (length bs)"
    by (simp_all add: repr_def Len_def)
  show ?thesis
  proof (cases "fs = []")
    case False
    from front_pop [OF q(3) False] obtain nf where
      p: "Get f 0 = Inr (hd fs)" "Slice f 1 (Len f) = Inr nf" "repr nf (tl fs)" "0 < Len f"
      by blast
    have n: "size_q q - 1 = int (length (tl fs @ rev bs))"
      using q(6,7) False by (cases fs) simp_all
    from normalize_inv [OF p(3) q(4,5) n sb] obtain f' b' fs' bs' where
      nm: "normalize (Some \<lparr>front_q = Some nf, back_q = Some b, size_q = size_q q - 1\<rparr>)
             = Inr (Some \<lparr>front_q = Some f', back_q = Some b', size_q = size_q q - 1\<rparr>)"
          "repr f' fs'" "repr b' bs'" "dense b'" "fs' @ rev bs' = tl fs @ rev bs"
      by blast
    let ?q' = "\<lparr>front_q = Some f', back_q = Some b', size_q = size_q q - 1\<rparr>"
    have "Dequeue qo = Inr (Some ?q', hd fs, True)"
      using qo sz q(1,2) p nm(1) by (simp add: Dequeue_def)
    moreover have "queue_inv (Some ?q') (tl xs)"
      by (rule queue_invI [OF _ _ nm(2,3,4)]) (simp_all add: nm(5) q(6) False n)
    ultimately show ?thesis using q(6) False by auto
  next
    case True
    with q(6) ne have bne: "bs \<noteq> []" by simp
    have qeq: "q = \<lparr>front_q = Some f, back_q = Some b, size_q = size_q q\<rparr>"
      using q(1,2) by (cases q) simp
    have n: "size_q q = int (length (fs @ rev bs))" using q(6,7) by simp
    from normalize_inv [OF q(3,4,5) n sb] q(6) ne obtain f' b' fs' bs' where
      nm: "normalize (Some \<lparr>front_q = Some f, back_q = Some b, size_q = size_q q\<rparr>)
             = Inr (Some \<lparr>front_q = Some f', back_q = Some b', size_q = size_q q\<rparr>)"
          "repr f' fs'" "repr b' bs'" "dense b'" "fs' @ rev bs' = fs @ rev bs" "fs' \<noteq> []"
      by blast
    from nm(1) qeq have nq: "normalize (Some q)
             = Inr (Some \<lparr>front_q = Some f', back_q = Some b', size_q = size_q q\<rparr>)"
      by simp
    from front_pop [OF nm(2,6)] obtain nf where
      p: "Get f' 0 = Inr (hd fs')" "Slice f' 1 (Len f') = Inr nf" "repr nf (tl fs')"
      by blast
    let ?q' = "\<lparr>front_q = Some nf, back_q = Some b', size_q = size_q q - 1\<rparr>"
    have "Dequeue qo = Inr (Some ?q', hd fs', True)"
      using qo sz q(1,2) len True bne p nq by (simp add: Dequeue_def)
    moreover have xs: "xs = fs' @ rev bs'" using nm(5) q(6) by simp
    have "queue_inv (Some ?q') (tl xs)"
      using nm(6) q(7) xs by (intro queue_invI [OF _ _ p(3) nm(3,4)]) (cases fs'; simp)+
    ultimately show ?thesis using xs nm(6) by auto
  qed
qed

subsection \<open>The queue iterator reports the queue's sequence\<close>

text \<open>\<open>Queue_values\<close> calls \<open>Next\<close> until \<open>Done\<close>, at most \<open>steps\<close> times.\<close>

fun Queue_collect :: "nat \<Rightarrow> 'a::zero QueueIterator \<Rightarrow> error + 'a list" where
  "Queue_collect 0 itr = Inl Diverges"
| "Queue_collect (Suc steps) itr =
     (if qit_stage itr = - 1 then Inr []
      else case QueueIterator_Next itr of
             Inl e \<Rightarrow> Inl e
           | Inr (itr', i, v, ok) \<Rightarrow>
               (case Queue_collect steps itr' of
                  Inl e \<Rightarrow> Inl e
                | Inr vs \<Rightarrow> Inr (v # vs)))"

definition Queue_values :: "nat \<Rightarrow> 'a::zero Queue option \<Rightarrow> error + 'a list" where
  "Queue_values steps qo =
     Queue_collect steps
       (QueueIterator_First
          \<lparr>qit_q = qo, qit_stage = 0, qit_frontIdx = 0, qit_backIdx = 0, qit_index = 0\<rparr>)"

lemma collect_back:
  assumes b: "repr b bs" and q: "back_q q = Some b"
  shows "qit_q itr = Some q \<Longrightarrow> qit_stage itr = 1 \<Longrightarrow> qit_backIdx itr = int j \<Longrightarrow>
         j < length bs \<Longrightarrow> j + 1 < steps \<Longrightarrow>
         Queue_collect steps itr = Inr (rev (take (Suc j) bs))"
proof (induction j arbitrary: itr steps)
  case 0
  then obtain s where s: "steps = Suc (Suc s)" by (cases steps; cases "steps - 1") auto
  from repr_Get [OF b "0.prems"(4)] have g: "Get b 0 = Inr (bs ! 0)" by simp
  from "0.prems" have ne: "bs \<noteq> []" by auto
  show ?case
    using "0.prems"(1,2,3) q g ne unfolding s
    by (simp add: QueueIterator_Next_def Let_def take_Suc hd_conv_nth)
next
  case (Suc j)
  then obtain s where s: "steps = Suc s" "j + 1 < s" by (cases steps) auto
  from repr_Get [OF b Suc.prems(4)] have g: "Get b (int (Suc j)) = Inr (bs ! Suc j)" .
  define itr1 where "itr1 = itr\<lparr>qit_backIdx := int j, qit_index := qit_index itr + 1\<rparr>"
  have nx: "QueueIterator_Next itr = Inr (itr1, qit_index itr, bs ! Suc j, True)"
    using Suc.prems(1,2,3) q g by (simp add: QueueIterator_Next_def Let_def itr1_def)
  have "Queue_collect s itr1 = Inr (rev (take (Suc j) bs))"
    by (rule Suc.IH) (use Suc.prems s in \<open>simp_all add: itr1_def\<close>)
  with nx Suc.prems(2,4) show ?case unfolding s(1)
    by (simp add: take_Suc_conv_app_nth [of "Suc j" bs])
qed

lemma collect_front:
  assumes f: "repr f fs" and b: "repr b bs" and q: "front_q q = Some f" "back_q q = Some b"
  shows "qit_q itr = Some q \<Longrightarrow> qit_stage itr = 0 \<Longrightarrow> qit_frontIdx itr = int i \<Longrightarrow>
         length fs - i = m \<Longrightarrow> i < length fs \<Longrightarrow> length fs - i + length bs + 1 < steps \<Longrightarrow>
         Queue_collect steps itr = Inr (drop i fs @ rev bs)"
proof (induction m arbitrary: itr i steps)
  case 0
  then show ?case by simp
next
  case (Suc m)
  then obtain s where s: "steps = Suc s" "length fs - Suc i + length bs + 1 < s"
    by (cases steps) auto
  from repr_Get [OF f Suc.prems(5)] have g: "Get f (int i) = Inr (fs ! i)" .
  from f b have len: "Len f = int (length fs)" "Len b = int (length bs)"
    by (simp_all add: repr_def Len_def)
  have dr: "drop i fs = fs ! i # drop (Suc i) fs"
    using Suc.prems(5) by (simp add: Cons_nth_drop_Suc)
  show ?case
  proof (cases "Suc i < length fs")
    case True
    define itr1 where "itr1 = itr\<lparr>qit_frontIdx := int (Suc i), qit_index := qit_index itr + 1\<rparr>"
    have nx: "QueueIterator_Next itr = Inr (itr1, qit_index itr, fs ! i, True)"
      using Suc.prems(1,2,3) q g len True
      by (simp add: QueueIterator_Next_def Let_def itr1_def add.commute)
    have "Queue_collect s itr1 = Inr (drop (Suc i) fs @ rev bs)"
      by (rule Suc.IH) (use Suc.prems s True in \<open>simp_all add: itr1_def\<close>)
    with nx Suc.prems(2) dr show ?thesis unfolding s(1) by simp
  next
    case False
    with Suc.prems(5) have last: "Suc i = length fs" by simp
    show ?thesis
    proof (cases "bs = []")
      case True
      define itr1 where "itr1 = itr\<lparr>qit_frontIdx := int (Suc i), qit_index := qit_index itr + 1,
                                   qit_stage := - 1\<rparr>"
      have nx: "QueueIterator_Next itr = Inr (itr1, qit_index itr, fs ! i, True)"
        using Suc.prems(1,2,3) q g len last True
        by (simp add: QueueIterator_Next_def Let_def itr1_def add.commute)
      obtain s' where s': "s = Suc s'" using s(2) by (cases s) auto
      have "Queue_collect s itr1 = Inr []" unfolding s' by (simp add: itr1_def)
      with nx Suc.prems(2) dr last True show ?thesis unfolding s(1) by simp
    next
      case ne: False
      define itr1 where "itr1 = itr\<lparr>qit_frontIdx := int (Suc i), qit_index := qit_index itr + 1,
                                   qit_stage := 1, qit_backIdx := int (length bs) - 1\<rparr>"
      have nx: "QueueIterator_Next itr = Inr (itr1, qit_index itr, fs ! i, True)"
        using Suc.prems(1,2,3) q g len last ne
        by (simp add: QueueIterator_Next_def Let_def itr1_def add.commute)
      have bl: "int (length bs) - 1 = int (length bs - 1)" using ne by (cases bs) simp_all
      have "Queue_collect s itr1 = Inr (rev (take (Suc (length bs - 1)) bs))"
        by (rule collect_back [OF b q(2)])
           (use Suc.prems s ne last in \<open>simp_all add: itr1_def bl\<close>)
      with ne have "Queue_collect s itr1 = Inr (rev bs)" by simp
      with nx Suc.prems(2) dr last show ?thesis unfolding s(1) by simp
    qed
  qed
qed

lemma Queue_values_order:
  assumes inv: "queue_inv qo xs" and steps: "length xs + 2 < steps"
  shows "Queue_values steps qo = Inr xs"
proof (cases qo)
  case None
  with inv have "xs = []" by (simp add: queue_inv_def)
  moreover obtain s where "steps = Suc s" using steps by (cases steps) auto
  ultimately show ?thesis using None
    by (simp add: Queue_values_def QueueIterator_First_def)
next
  case (Some q)
  with inv obtain f b fs bs where
    q: "front_q q = Some f" "back_q q = Some b" "repr f fs" "repr b bs"
       "xs = fs @ rev bs" "size_q q = int (length xs)"
    by (auto simp: queue_inv_def)
  from q(3,4) have len: "Len f = int (length fs)" "Len b = int (length bs)"
    by (simp_all add: repr_def Len_def)
  let ?i = "\<lparr>qit_q = qo, qit_stage = 0, qit_frontIdx = 0, qit_backIdx = 0, qit_index = 0\<rparr>"
  obtain s where s: "steps = Suc s" using steps by (cases steps) auto
  show ?thesis
  proof (cases "xs = []")
    case True
    with q(6) Some show ?thesis unfolding s
      by (simp add: Queue_values_def QueueIterator_First_def)
  next
    case ne: False
    with q(6) have sz: "size_q q \<noteq> 0" by simp
    show ?thesis
    proof (cases "fs = []")
      case False
      define itr where "itr = ?i\<lparr>qit_stage := 0, qit_frontIdx := 0, qit_backIdx := - 1, qit_index := 0\<rparr>"
      have "QueueIterator_First ?i = itr"
        using Some q(1,2) sz False len by (simp add: QueueIterator_First_def nonempty_def itr_def)
      moreover have "Queue_collect steps itr = Inr (drop 0 fs @ rev bs)"
        by (rule collect_front [OF q(3,4,1,2)])
           (use Some False steps q(5) in \<open>simp_all add: itr_def\<close>)
      ultimately show ?thesis using q(5) by (simp add: Queue_values_def)
    next
      case True
      with q(5) ne have bne: "bs \<noteq> []" by simp
      define itr where "itr = ?i\<lparr>qit_stage := 1, qit_frontIdx := - 1,
                                  qit_backIdx := int (length bs) - 1, qit_index := 0\<rparr>"
      have bl: "int (length bs) - 1 = int (length bs - 1)" using bne by (cases bs) simp_all
      have "QueueIterator_First ?i = itr"
        using Some q(1,2) sz True bne len by (simp add: QueueIterator_First_def nonempty_def itr_def)
      moreover have "Queue_collect steps itr = Inr (rev (take (Suc (length bs - 1)) bs))"
        by (rule collect_back [OF q(4,2)])
           (use Some bne steps q(5) True in \<open>simp_all add: itr_def bl\<close>)
      ultimately show ?thesis using q(5) True bne by (simp add: Queue_values_def)
    qed
  qed
qed

section \<open>Store model: which cells an operation writes\<close>

text \<open>
  \<open>frame n0 h h'\<close>: going from \<open>h\<close> to \<open>h'\<close> only allocates, or writes cells at addresses
  from \<open>n0\<close> on.  \<open>closed_above n0 h\<close>: no cell at an address from \<open>n0\<close> on points below
  \<open>n0\<close>; a structure built after \<open>n0\<close> from fresh nodes only is closed, so writing it in
  place never reaches an older cell.
\<close>


definition frame :: "nat \<Rightarrow> 'a heap \<Rightarrow> 'a heap \<Rightarrow> bool" where
  "frame n0 h h' = (n0 \<le> next_addr h \<and> next_addr h \<le> next_addr h' \<and>
                    (\<forall>a < n0. lookup h' a = lookup h a))"

definition ptrs :: "'a obj \<Rightarrow> addr set" where
  "ptrs ob =
     (case ob of
        BranchObj d cs \<Rightarrow> {c. Some c \<in> set cs}
      | ListObj r org sz \<Rightarrow> {r}
      | QueueObj f b sz \<Rightarrow> set_option f \<union> set_option b
      | _ \<Rightarrow> {})"

definition closed_above :: "nat \<Rightarrow> 'a heap \<Rightarrow> bool" where
  "closed_above n0 h = (\<forall>a ob. n0 \<le> a \<longrightarrow> lookup h a = Some ob \<longrightarrow> (\<forall>p \<in> ptrs ob. n0 \<le> p))"

lemma frame_refl: "n0 \<le> next_addr h \<Longrightarrow> frame n0 h h"
  by (simp add: frame_def)

lemma frame_trans: "frame n0 h h1 \<Longrightarrow> frame n0 h1 h2 \<Longrightarrow> frame n0 h h2"
  by (auto simp: frame_def)

lemma frame_next: "frame n0 h h' \<Longrightarrow> n0 \<le> next_addr h'"
  by (simp add: frame_def)

lemma lookup_alloc:
  "lookup (fst (alloc h ob)) a = (if a = next_addr h then Some ob else lookup h a)"
  by (auto simp: lookup_def alloc_def)

lemma lookup_store:
  "lookup (store h a ob) b = (if b = a \<and> a < next_addr h then Some ob else lookup h b)"
  by (auto simp: lookup_def store_def)

lemma alloc_addr [simp]: "snd (alloc h ob) = next_addr h"
  by (simp add: alloc_def)

lemma alloc_next [simp]: "next_addr (fst (alloc h ob)) = Suc (next_addr h)"
  by (simp add: alloc_def)

lemma store_next [simp]: "next_addr (store h a ob) = next_addr h"
  by (simp add: store_def)

lemma frame_alloc: "n0 \<le> next_addr h \<Longrightarrow> frame n0 h (fst (alloc h ob))"
  by (simp add: frame_def lookup_alloc)

lemma frame_alloc_eq: "alloc h ob = (h', a') \<Longrightarrow> n0 \<le> next_addr h \<Longrightarrow> frame n0 h h'"
  using frame_alloc [of n0 h ob] by simp

lemma frame_store: "n0 \<le> next_addr h \<Longrightarrow> n0 \<le> a \<Longrightarrow> frame n0 h (store h a ob)"
  by (simp add: frame_def lookup_store)

lemma closed_alloc:
  "closed_above n0 h \<Longrightarrow> \<forall>p \<in> ptrs ob. n0 \<le> p \<Longrightarrow> closed_above n0 (fst (alloc h ob))"
  by (auto simp: closed_above_def lookup_alloc split: if_splits)

lemma closed_alloc_eq:
  "alloc h ob = (h', a') \<Longrightarrow> closed_above n0 h \<Longrightarrow> \<forall>p \<in> ptrs ob. n0 \<le> p \<Longrightarrow>
   closed_above n0 h'"
  using closed_alloc [of n0 h ob] by simp

lemma closed_store:
  "closed_above n0 h \<Longrightarrow> \<forall>p \<in> ptrs ob. n0 \<le> p \<Longrightarrow> closed_above n0 (store h a ob)"
  by (auto simp: closed_above_def lookup_store split: if_splits)

lemma closed_ptr:
  "closed_above n0 h \<Longrightarrow> n0 \<le> a \<Longrightarrow> lookup h a = Some ob \<Longrightarrow> p \<in> ptrs ob \<Longrightarrow> n0 \<le> p"
  by (auto simp: closed_above_def)

lemma closed_fresh: "closed_above (next_addr h) h"
  by (simp add: closed_above_def lookup_def)

lemma ptrs_simps [simp]:
  "ptrs (BranchObj d cs) = {c. Some c \<in> set cs}"
  "ptrs (LeafObj vs occ) = {}"
  "ptrs (SliceObj es) = {}"
  "ptrs (ListObj r org sz) = {r}"
  "ptrs (QueueObj f b sz) = set_option f \<union> set_option b"
  by (simp_all add: ptrs_def)

lemma ptr_at_mem: "ptr_at cs i = Some c \<Longrightarrow> Some c \<in> set cs"
  unfolding ptr_at_def by (metis nth_mem option.distinct(1))

lemma set_child_frame:
  "set_child h other idx c = Inr h' \<Longrightarrow> n0 \<le> next_addr h \<Longrightarrow> n0 \<le> other \<Longrightarrow> frame n0 h h'"
  by (auto simp: set_child_def frame_store split: option.splits obj.splits if_splits)

lemma set_child_closed:
  assumes "set_child h other idx c = Inr h'" "closed_above n0 h" "n0 \<le> c" "n0 \<le> other"
  shows "closed_above n0 h'"
proof -
  from assms(1) obtain d cs where
    c: "lookup h other = Some (BranchObj d cs)" "h' = store h other (BranchObj d (cs[idx := Some c]))"
    by (auto simp: set_child_def split: option.splits obj.splits if_splits)
  have "\<forall>p \<in> ptrs (BranchObj d (cs[idx := Some c])). n0 \<le> p"
  proof
    fix p assume "p \<in> ptrs (BranchObj d (cs[idx := Some c]))"
    then have "Some p \<in> set (cs[idx := Some c])" by simp
    then have "Some p \<in> insert (Some c) (set cs)"
      using set_update_subset_insert [of cs idx "Some c"] by blast
    then show "n0 \<le> p"
      using assms(3) closed_ptr [OF assms(2,4) c(1), of p] by auto
  qed
  with c(2) assms(2) show ?thesis by (simp add: closed_store)
qed

lemma h_set_frame:
  "h_set fuel h a i v m = Inr (h', a') \<Longrightarrow> n0 \<le> next_addr h \<Longrightarrow>
   (m \<longrightarrow> n0 \<le> a \<and> closed_above n0 h) \<Longrightarrow>
   frame n0 h h' \<and> (m \<longrightarrow> closed_above n0 h' \<and> n0 \<le> a')"
proof (induction fuel arbitrary: h a h' a')
  case 0
  then show ?case by simp
next
  case (Suc fuel)
  note run = Suc.prems(1) and n0 = Suc.prems(2) and mu = Suc.prems(3)
  show ?case
  proof (cases "lookup h a")
    case None
    with run show ?thesis by simp
  next
    case (Some ob)
    show ?thesis
    proof (cases ob)
      case (BranchObj d cs)
      define idx where "idx = slot d i"
      define hc where "hc = (case ptr_at cs idx of
                       None \<Rightarrow> h_newListNode h (d - 1)
                     | Some c \<Rightarrow> (h, c))"
      define ho where "ho = (if m then (fst hc, a) else alloc (fst hc) (BranchObj d cs))"
      have "h_set (Suc fuel) h a i v m =
          (case h_set fuel (fst ho) (snd hc) i v m of
             Inl e \<Rightarrow> Inl e
           | Inr (h3, c') \<Rightarrow>
               (case set_child h3 (snd ho) idx c' of
                  Inl e \<Rightarrow> Inl e
                | Inr h4 \<Rightarrow> Inr (h4, snd ho)))"
        unfolding idx_def hc_def ho_def using Some BranchObj by (simp add: Let_def)
      with run obtain h3 c' where
        rec: "h_set fuel (fst ho) (snd hc) i v m = Inr (h3, c')"
        and sc: "set_child h3 (snd ho) idx c' = Inr h'" and a': "a' = snd ho"
        by (auto split: sum.splits)
      have f1: "frame n0 h (fst hc)"
        using n0 by (auto simp: hc_def h_newListNode_def frame_alloc frame_refl split: option.splits)
      have c1: "m \<longrightarrow> closed_above n0 (fst hc) \<and> n0 \<le> snd hc"
      proof
        assume m
        with mu have ca: "closed_above n0 h" "n0 \<le> a" by simp_all
        show "closed_above n0 (fst hc) \<and> n0 \<le> snd hc"
        proof (cases "ptr_at cs idx")
          case None
          then show ?thesis
            using ca n0 by (simp add: hc_def h_newListNode_def closed_alloc)
        next
          case (Some c)
          from closed_ptr [OF ca(1,2) \<open>lookup h a = Some ob\<close>, of c] ptr_at_mem [OF Some] BranchObj
          have "n0 \<le> c" by simp
          with Some ca show ?thesis by (simp add: hc_def)
        qed
      qed
      have f2: "frame n0 (fst hc) (fst ho)"
        using frame_next [OF f1] by (simp add: ho_def frame_alloc frame_refl)
      have o: "n0 \<le> snd ho"
        using frame_next [OF f1] mu by (simp add: ho_def)
      have c2: "m \<longrightarrow> closed_above n0 (fst ho)" using c1 by (simp add: ho_def)
      from Suc.IH [OF rec frame_next [OF f2]] c1 c2
      have f3: "frame n0 (fst ho) h3" and c3: "m \<longrightarrow> closed_above n0 h3 \<and> n0 \<le> c'"
        by simp_all
      from set_child_frame [OF sc frame_next [OF f3] o] have f4: "frame n0 h3 h'" .
      have "m \<longrightarrow> closed_above n0 h'"
        using set_child_closed [OF sc _ _ o] c3 by simp
      with f1 f2 f3 f4 o a' show ?thesis by (auto intro: frame_trans)
    next
      case (LeafObj cs occ)
      with run Some n0 mu show ?thesis
        by (auto simp: Let_def frame_store frame_alloc closed_store closed_alloc
                 intro: frame_trans [OF frame_alloc frame_store] split: if_splits)
    next
      case (SliceObj es)
      with run Some n0 mu show ?thesis
        by (auto simp: Let_def frame_store frame_alloc closed_store closed_alloc
                 dest: frame_alloc_eq split: if_splits)
    next
      case (ListObj r org sz)
      with run Some show ?thesis by simp
    next
      case (QueueObj f b sz)
      with run Some show ?thesis by simp
    qed
  qed
qed



subsection \<open>deleteBefore and deleteAfter without the mutable flag\<close>

lemma h_deleteBefore_frame:
  "h_deleteBefore fuel h a i False = Inr (h', a') \<Longrightarrow> n0 \<le> next_addr h \<Longrightarrow> frame n0 h h'"
proof (induction fuel arbitrary: h a h' a')
  case 0
  then show ?case by simp
next
  case (Suc fuel)
  note run = Suc.prems(1) and n0 = Suc.prems(2)
  from run obtain b where cb: "h_containsBefore (Suc fuel) h a i = Inr b"
    by (auto split: sum.splits)
  show ?case
  proof (cases b)
    case False
    with run cb n0 show ?thesis by (simp add: frame_refl)
  next
    case True
    show ?thesis
    proof (cases "lookup h a")
      case None
      with run cb True show ?thesis by simp
    next
      case (Some ob)
      show ?thesis
      proof (cases ob)
        case (BranchObj d cs)
        define idx where "idx = slot d i"
        define others where "others = kept_from False None idx cs"
        define ho where "ho = alloc h (BranchObj d others)"
        have unf: "h_deleteBefore (Suc fuel) h a i False =
            (case ptr_at others idx of
               None \<Rightarrow> Inr ho
             | Some c \<Rightarrow>
                 (case h_deleteBefore fuel (fst ho) c i False of
                    Inl e \<Rightarrow> Inl e
                  | Inr (h2, c') \<Rightarrow>
                      (case set_child h2 (snd ho) idx c' of
                         Inl e \<Rightarrow> Inl e
                       | Inr h3 \<Rightarrow> Inr (h3, snd ho))))"
          unfolding idx_def others_def ho_def using Some BranchObj cb True
          by (simp add: Let_def del: h_containsBefore.simps)
        have f1: "frame n0 h (fst ho)" using n0 by (simp add: ho_def frame_alloc)
        have o: "n0 \<le> snd ho" using n0 by (simp add: ho_def)
        show ?thesis
        proof (cases "ptr_at others idx")
          case None
          with unf run have "ho = (h', a')" by simp
          with f1 show ?thesis by (metis fst_conv)
        next
          case (Some c)
          with unf run obtain h2 c' where
            rec: "h_deleteBefore fuel (fst ho) c i False = Inr (h2, c')"
            and sc: "set_child h2 (snd ho) idx c' = Inr h'"
            by (auto split: sum.splits)
          from Suc.IH [OF rec frame_next [OF f1]] have f2: "frame n0 (fst ho) h2" .
          from set_child_frame [OF sc frame_next [OF f2] o] have "frame n0 h2 h'" .
          with f1 f2 show ?thesis by (blast intro: frame_trans)
        qed
      next
        case (LeafObj cs occ)
        with run Some cb True n0 show ?thesis
          by (auto simp: Let_def dest: frame_alloc_eq simp del: h_containsBefore.simps)
      next
        case (SliceObj es)
        with run Some cb True n0 show ?thesis
          by (simp add: frame_refl del: h_containsBefore.simps)
      next
        case (ListObj r org sz)
        with run Some cb True show ?thesis by (simp del: h_containsBefore.simps)
      next
        case (QueueObj f b sz)
        with run Some cb True show ?thesis by (simp del: h_containsBefore.simps)
      qed
    qed
  qed
qed

lemma h_deleteAfter_frame:
  "h_deleteAfter fuel h a i False = Inr (h', a') \<Longrightarrow> n0 \<le> next_addr h \<Longrightarrow> frame n0 h h'"
proof (induction fuel arbitrary: h a h' a')
  case 0
  then show ?case by simp
next
  case (Suc fuel)
  note run = Suc.prems(1) and n0 = Suc.prems(2)
  from run obtain b where cb: "h_containsAfter (Suc fuel) h a i = Inr b"
    by (auto split: sum.splits)
  show ?case
  proof (cases b)
    case False
    with run cb n0 show ?thesis by (simp add: frame_refl)
  next
    case True
    show ?thesis
    proof (cases "lookup h a")
      case None
      with run cb True show ?thesis by simp
    next
      case (Some ob)
      show ?thesis
      proof (cases ob)
        case (BranchObj d cs)
        define idx where "idx = slot d i"
        define others where "others = kept_upto False None idx cs"
        define ho where "ho = alloc h (BranchObj d others)"
        have unf: "h_deleteAfter (Suc fuel) h a i False =
            (case ptr_at others idx of
               None \<Rightarrow> Inr ho
             | Some c \<Rightarrow>
                 (case h_deleteAfter fuel (fst ho) c i False of
                    Inl e \<Rightarrow> Inl e
                  | Inr (h2, c') \<Rightarrow>
                      (case set_child h2 (snd ho) idx c' of
                         Inl e \<Rightarrow> Inl e
                       | Inr h3 \<Rightarrow> Inr (h3, snd ho))))"
          unfolding idx_def others_def ho_def using Some BranchObj cb True
          by (simp add: Let_def del: h_containsAfter.simps)
        have f1: "frame n0 h (fst ho)" using n0 by (simp add: ho_def frame_alloc)
        have o: "n0 \<le> snd ho" using n0 by (simp add: ho_def)
        show ?thesis
        proof (cases "ptr_at others idx")
          case None
          with unf run have "ho = (h', a')" by simp
          with f1 show ?thesis by (metis fst_conv)
        next
          case (Some c)
          with unf run obtain h2 c' where
            rec: "h_deleteAfter fuel (fst ho) c i False = Inr (h2, c')"
            and sc: "set_child h2 (snd ho) idx c' = Inr h'"
            by (auto split: sum.splits)
          from Suc.IH [OF rec frame_next [OF f1]] have f2: "frame n0 (fst ho) h2" .
          from set_child_frame [OF sc frame_next [OF f2] o] have "frame n0 h2 h'" .
          with f1 f2 show ?thesis by (blast intro: frame_trans)
        qed
      next
        case (LeafObj cs occ)
        with run Some cb True n0 show ?thesis
          by (auto simp: Let_def dest: frame_alloc_eq simp del: h_containsAfter.simps)
      next
        case (SliceObj es)
        with run Some cb True n0 show ?thesis
          by (simp add: frame_refl del: h_containsAfter.simps)
      next
        case (ListObj r org sz)
        with run Some cb True show ?thesis by (simp del: h_containsAfter.simps)
      next
        case (QueueObj f b sz)
        with run Some cb True show ?thesis by (simp del: h_containsAfter.simps)
      qed
    qed
  qed
qed



subsection \<open>toTrie\<close>

lemma alloc_all_frame: "n0 \<le> next_addr h \<Longrightarrow> frame n0 h (fst (alloc_all h obs))"
proof (induction obs arbitrary: h)
  case Nil
  then show ?case by (simp add: frame_refl)
next
  case (Cons ob obs)
  from Cons.prems have f1: "frame n0 h (fst (alloc h ob))" by (rule frame_alloc)
  from Cons.IH [OF frame_next [OF f1]] f1 show ?case
    by (auto simp: Let_def intro: frame_trans)
qed

lemma alloc_all_addrs: "a \<in> set (snd (alloc_all h obs)) \<Longrightarrow> next_addr h \<le> a"
proof (induction obs arbitrary: h)
  case Nil
  then show ?case by simp
next
  case (Cons ob obs)
  from Cons.prems have "a = next_addr h \<or> a \<in> set (snd (alloc_all (fst (alloc h ob)) obs))"
    by (auto simp: Let_def)
  then show ?case
  proof
    assume "a \<in> set (snd (alloc_all (fst (alloc h ob)) obs))"
    from Cons.IH [OF this] show ?thesis by simp
  qed simp
qed

lemma alloc_all_closed:
  "closed_above n0 h \<Longrightarrow> \<forall>ob \<in> set obs. \<forall>p \<in> ptrs ob. n0 \<le> p \<Longrightarrow>
   closed_above n0 (fst (alloc_all h obs))"
proof (induction obs arbitrary: h)
  case Nil
  then show ?case by simp
next
  case (Cons ob obs)
  from Cons.prems have "closed_above n0 (fst (alloc h ob))" by (simp add: closed_alloc)
  from Cons.IH [OF this] Cons.prems(2) show ?case by (simp add: Let_def)
qed

lemma set_chunks: "c \<in> set (chunks xs) \<Longrightarrow> set c \<subseteq> set xs"
proof (induction xs arbitrary: c rule: chunks.induct)
  case (1 xs)
  show ?case
  proof (cases "xs = []")
    case True
    with "1.prems" show ?thesis by (simp add: chunks.simps)
  next
    case False
    then have eq: "chunks xs = take listNodeSize xs # chunks (drop listNodeSize xs)"
      by (subst chunks.simps) simp
    with "1.prems" have "c = take listNodeSize xs \<or> c \<in> set (chunks (drop listNodeSize xs))"
      by simp
    then show ?thesis
    proof
      assume "c = take listNodeSize xs"
      then show ?thesis by (simp add: set_take_subset)
    next
      assume "c \<in> set (chunks (drop listNodeSize xs))"
      from "1.IH" [OF False this] show ?thesis
        using set_drop_subset [of listNodeSize xs] by blast
    qed
  qed
qed

lemma ptrs_branch_obj: "p \<in> ptrs (branch_obj d chunk) \<Longrightarrow> p \<in> set chunk"
proof -
  assume "p \<in> ptrs (branch_obj d chunk)"
  then have "Some p \<in> set (copy_at (replicate listNodeSize None) 0 (map Some chunk))"
    by (simp add: branch_obj_def)
  then have "Some p \<in> set (map Some chunk) \<union> set (replicate listNodeSize (None :: addr option))"
    unfolding copy_at_def using set_take_subset set_drop_subset by fastforce
  then show ?thesis by auto
qed

lemma h_wrap_layers_frame:
  "h_wrap_layers h nodes d = Inr (h', r) \<Longrightarrow> n0 \<le> next_addr h \<Longrightarrow> frame n0 h h'"
proof (induction h nodes d arbitrary: h' r rule: h_wrap_layers.induct)
  case (1 h nodes d)
  show ?case
  proof (cases "length nodes > 1")
    case True
    with "1.prems"(1) have
      "h_wrap_layers (fst (alloc_all h (map (branch_obj d) (chunks nodes))))
             (snd (alloc_all h (map (branch_obj d) (chunks nodes)))) (d + 1) = Inr (h', r)"
      by (subst (asm) h_wrap_layers.simps) simp
    from "1.IH" [OF True this frame_next [OF alloc_all_frame [OF "1.prems"(2)]]]
      alloc_all_frame [OF "1.prems"(2)]
    show ?thesis by (blast intro: frame_trans)
  next
    case False
    with "1.prems" show ?thesis
      by (subst (asm) h_wrap_layers.simps) (auto simp: frame_refl split: list.splits)
  qed
qed

lemma h_wrap_layers_closed:
  "h_wrap_layers h nodes d = Inr (h', r) \<Longrightarrow> n0 \<le> next_addr h \<Longrightarrow> closed_above n0 h \<Longrightarrow>
   \<forall>n \<in> set nodes. n0 \<le> n \<Longrightarrow> closed_above n0 h' \<and> n0 \<le> r"
proof (induction h nodes d arbitrary: h' r rule: h_wrap_layers.induct)
  case (1 h nodes d)
  show ?case
  proof (cases "length nodes > 1")
    case True
    let ?hs = "alloc_all h (map (branch_obj d) (chunks nodes))"
    from True "1.prems"(1) have run: "h_wrap_layers (fst ?hs) (snd ?hs) (d + 1) = Inr (h', r)"
      by (subst (asm) h_wrap_layers.simps) simp
    have "\<forall>ob \<in> set (map (branch_obj d) (chunks nodes)). \<forall>p \<in> ptrs ob. n0 \<le> p"
      using "1.prems"(4) set_chunks ptrs_branch_obj by fastforce
    from alloc_all_closed [OF "1.prems"(3) this] have c: "closed_above n0 (fst ?hs)" .
    have "\<forall>n \<in> set (snd ?hs). n0 \<le> n"
      using alloc_all_addrs "1.prems"(2) by (metis le_trans)
    from "1.IH" [OF True run frame_next [OF alloc_all_frame [OF "1.prems"(2)]] c this]
    show ?thesis .
  next
    case False
    with "1.prems" show ?thesis
      by (subst (asm) h_wrap_layers.simps) (auto split: list.splits)
  qed
qed

lemma h_toTrie_frame:
  "h_toTrie h a m = Inr (h', r) \<Longrightarrow> n0 \<le> next_addr h \<Longrightarrow> frame n0 h h'"
  unfolding h_toTrie_def
  by (auto simp: Let_def split: option.splits obj.splits if_splits
           dest: frame_alloc_eq
           intro: frame_trans [OF alloc_all_frame h_wrap_layers_frame] frame_next [OF alloc_all_frame])

lemma h_toTrie_closed:
  assumes "h_toTrie h a m = Inr (h', r)" "n0 \<le> next_addr h" "closed_above n0 h"
  shows "closed_above n0 h' \<and> n0 \<le> r"
proof -
  from assms(1) obtain es where es: "lookup h a = Some (SliceObj es)"
    by (auto simp: h_toTrie_def split: option.splits obj.splits)
  show ?thesis
  proof (cases "length es = 0")
    case True
    with assms es show ?thesis
      by (auto simp: h_toTrie_def closed_alloc_eq alloc_def)
  next
    case False
    let ?hs = "alloc_all h (map leaf_obj (chunks es))"
    from False es assms(1) have run: "h_wrap_layers (fst ?hs) (snd ?hs) 1 = Inr (h', r)"
      by (simp add: h_toTrie_def Let_def)
    have "\<forall>ob \<in> set (map leaf_obj (chunks es)). \<forall>p \<in> ptrs ob. n0 \<le> p"
      by (simp add: leaf_obj_def)
    from alloc_all_closed [OF assms(3) this] have c: "closed_above n0 (fst ?hs)" .
    have "\<forall>n \<in> set (snd ?hs). n0 \<le> n"
      using alloc_all_addrs assms(2) by (metis le_trans)
    from h_wrap_layers_closed [OF run frame_next [OF alloc_all_frame [OF assms(2)]] c this]
    show ?thesis .
  qed
qed



subsection \<open>List operations\<close>

lemma list_at_iff: "list_at h l = Inr (r, org, sz) \<longleftrightarrow> lookup h l = Some (ListObj r org sz)"
  by (auto simp: list_at_def split: option.splits obj.splits)

lemma h_other_frame:
  assumes "h_other h l m = Inr (h1, other)" "n0 \<le> next_addr h" "m \<longrightarrow> n0 \<le> l"
  shows "frame n0 h h1 \<and> n0 \<le> other \<and> list_at h1 other = list_at h l \<and> (m \<longrightarrow> h1 = h \<and> other = l)"
proof -
  from assms(1) obtain r org sz where l: "list_at h l = Inr (r, org, sz)"
    by (auto simp: h_other_def split: sum.splits)
  show ?thesis
  proof (cases m)
    case True
    with assms l show ?thesis by (simp add: h_other_def frame_refl)
  next
    case False
    with assms(1) l have a: "alloc h (ListObj r org sz) = (h1, other)" by (simp add: h_other_def)
    then have "h1 = fst (alloc h (ListObj r org sz))" "other = next_addr h"
      by (metis fst_conv, metis alloc_addr snd_conv)
    with assms(2) l False show ?thesis
      by (simp add: frame_alloc list_at_def lookup_alloc)
  qed
qed

lemma set_root_frame:
  "set_root h l r = Inr h' \<Longrightarrow> n0 \<le> next_addr h \<Longrightarrow> n0 \<le> l \<Longrightarrow> frame n0 h h'"
  by (auto simp: set_root_def frame_store split: sum.splits)

lemma set_root_closed:
  "set_root h l r = Inr h' \<Longrightarrow> closed_above n0 h \<Longrightarrow> n0 \<le> r \<Longrightarrow> closed_above n0 h'"
  by (auto simp: set_root_def closed_store split: sum.splits)

lemma h_List_set_frame:
  assumes run: "h_List_set fuel h l i v False = Inr (h', l')" and n0: "n0 \<le> next_addr h"
  shows "frame n0 h h'"
proof -
  from run obtain r idx h1 other h2 r' where
    p: "h_other h l False = Inr (h1, other)" "h_set fuel h1 r idx v False = Inr (h2, r')"
       "set_root h2 other r' = Inr h'"
    by (auto simp: h_List_set_def split: sum.splits prod.splits if_splits)
  from h_other_frame [OF p(1) n0] have f1: "frame n0 h h1" and o: "n0 \<le> other" by simp_all
  from h_set_frame [OF p(2) frame_next [OF f1]] have f2: "frame n0 h1 h2" by simp
  from set_root_frame [OF p(3) frame_next [OF f2] o] have "frame n0 h2 h'" .
  with f1 f2 show ?thesis by (blast intro: frame_trans)
qed

lemma h_append_trie_frame:
  assumes run: "h_append_trie fuel h l v m = Inr (h', l')" and n0: "n0 \<le> next_addr h"
    and mu: "m \<longrightarrow> n0 \<le> l \<and> closed_above n0 h"
  shows "frame n0 h h' \<and> (m \<longrightarrow> closed_above n0 h' \<and> n0 \<le> l')"
proof -
  from run obtain h1 other r org sz d where
    p: "h_other h l m = Inr (h1, other)" "list_at h1 other = Inr (r, org, sz)"
       "h_depth h1 r = Inr d"
    by (auto simp: h_append_trie_def split: sum.splits prod.splits)
  define hr where "hr = (if sz + org \<ge> push_bit (d * listNodeBits) 1
                     then alloc h1 (BranchObj (d + 1) ((replicate listNodeSize None)[0 := Some r]))
                     else (h1, r))"
  define h2 where "h2 = store (fst hr) other (ListObj (snd hr) org (sz + 1))"
  have "h_append_trie fuel h l v m =
      (case h_set fuel h2 (snd hr) (org + (sz + 1) - 1) v m of
         Inl e \<Rightarrow> Inl e
       | Inr (h3, r') \<Rightarrow>
           (case set_root h3 other r' of
              Inl e \<Rightarrow> Inl e
            | Inr h4 \<Rightarrow> Inr (h4, other)))"
    unfolding h2_def hr_def using p by (simp add: h_append_trie_def Let_def)
  with run obtain h3 r' where
    q: "h_set fuel h2 (snd hr) (org + (sz + 1) - 1) v m = Inr (h3, r')"
       "set_root h3 other r' = Inr h'" "l' = other"
    by (auto split: sum.splits)
  from h_other_frame [OF p(1) n0] mu have f1: "frame n0 h h1" and o: "n0 \<le> other"
    and c1: "m \<longrightarrow> closed_above n0 h1" by auto
  have r: "m \<longrightarrow> n0 \<le> r"
    using closed_ptr [of n0 h1 other "ListObj r org sz" r] c1 o p(2) by (simp add: list_at_iff)
  have f2: "frame n0 h1 (fst hr)"
    using frame_next [OF f1] by (simp add: hr_def frame_alloc frame_refl)
  have c2: "m \<longrightarrow> closed_above n0 (fst hr) \<and> n0 \<le> snd hr"
  proof
    assume m
    with c1 r have "closed_above n0 h1" "n0 \<le> r" by simp_all
    moreover have "\<forall>p \<in> ptrs (BranchObj (d + 1) ((replicate listNodeSize None)[0 := Some r])). n0 \<le> p"
      using \<open>n0 \<le> r\<close> by (auto dest: set_update_subset_insert [THEN subsetD])
    ultimately show "closed_above n0 (fst hr) \<and> n0 \<le> snd hr"
      using frame_next [OF f1] by (simp add: hr_def closed_alloc)
  qed
  have f3: "frame n0 (fst hr) h2"
    unfolding h2_def using frame_next [OF f2] o by (rule frame_store)
  have c3: "m \<longrightarrow> closed_above n0 h2"
    unfolding h2_def using c2 by (simp add: closed_store)
  from h_set_frame [OF q(1) frame_next [OF f3]] c2 c3
  have f4: "frame n0 h2 h3" and c4: "m \<longrightarrow> closed_above n0 h3 \<and> n0 \<le> r'" by simp_all
  from set_root_frame [OF q(2) frame_next [OF f4] o] have f5: "frame n0 h3 h'" .
  have "m \<longrightarrow> closed_above n0 h'" using set_root_closed [OF q(2)] c4 by simp
  with f1 f2 f3 f4 f5 o q(3) show ?thesis by (blast intro: frame_trans)
qed



lemma h_grow_slice_frame:
  assumes run: "h_grow_slice h l es m = Inr (h', l')" and n0: "n0 \<le> next_addr h"
    and mu: "m \<longrightarrow> n0 \<le> l \<and> closed_above n0 h"
  shows "frame n0 h h' \<and> (m \<longrightarrow> closed_above n0 h' \<and> n0 \<le> l')"
proof -
  from run obtain h1 other where q: "h_other h l m = Inr (h1, other)"
    by (auto simp: h_grow_slice_def split: sum.splits)
  let ?hn = "alloc h1 (SliceObj es)"
  from run q obtain org1 sz1 where
    r: "h' = store (fst ?hn) other (ListObj (snd ?hn) org1 (sz1 + 1))" "l' = other"
    by (auto simp: h_grow_slice_def Let_def split: sum.splits)
  from h_other_frame [OF q n0] mu have f1: "frame n0 h h1" and o: "n0 \<le> other"
    and c1: "m \<longrightarrow> closed_above n0 h1" by auto
  have f2: "frame n0 h1 (fst ?hn)" using frame_next [OF f1] by (rule frame_alloc)
  have f3: "frame n0 (fst ?hn) h'"
    unfolding r(1) using frame_next [OF f2] o by (rule frame_store)
  have "m \<longrightarrow> closed_above n0 h'"
    unfolding r(1) using c1 frame_next [OF f1] by (simp add: closed_store closed_alloc)
  with f1 f2 f3 o r(2) show ?thesis by (blast intro: frame_trans)
qed

lemma h_List_append_frame:
  assumes run: "h_List_append fuel h l v m = Inr (h', l')" and n0: "n0 \<le> next_addr h"
    and mu: "m \<longrightarrow> n0 \<le> l \<and> closed_above n0 h"
  shows "frame n0 h h' \<and> (m \<longrightarrow> closed_above n0 h' \<and> n0 \<le> l')"
proof -
  from run obtain r org sz ob where
    p: "list_at h l = Inr (r, org, sz)" "lookup h r = Some ob"
    by (auto simp: h_List_append_def split: sum.splits prod.splits option.splits)
  have trie: ?thesis if "h_append_trie fuel h l v m = Inr (h', l')"
    using h_append_trie_frame [OF that n0 mu] .
  show ?thesis
  proof (cases ob)
    case (SliceObj es)
    show ?thesis
    proof (cases "sz < listSliceThreshold")
      case True
      with run p SliceObj obtain es' where "h_grow_slice h l es' m = Inr (h', l')"
        by (auto simp: h_List_append_def Let_def split: if_splits)
      from h_grow_slice_frame [OF this n0 mu] show ?thesis .
    next
      case False
      from run p SliceObj False obtain h1 trieRoot where
        q: "h_toTrie h r True = Inr (h1, trieRoot)"
           "h_append_trie fuel (fst (alloc h1 (ListObj trieRoot 0 sz)))
              (snd (alloc h1 (ListObj trieRoot 0 sz))) v m = Inr (h', l')"
        by (auto simp: h_List_append_def Let_def split: sum.splits prod.splits)
      let ?ht = "alloc h1 (ListObj trieRoot 0 sz)"
      from h_toTrie_frame [OF q(1) n0] have f1: "frame n0 h h1" .
      have f2: "frame n0 h1 (fst ?ht)" using frame_next [OF f1] by (rule frame_alloc)
      have c2: "m \<longrightarrow> n0 \<le> snd ?ht \<and> closed_above n0 (fst ?ht)"
      proof
        assume m
        with mu have "closed_above n0 h" by simp
        from h_toTrie_closed [OF q(1) n0 this]
        show "n0 \<le> snd ?ht \<and> closed_above n0 (fst ?ht)"
          using frame_next [OF f1] by (simp add: closed_alloc)
      qed
      from h_append_trie_frame [OF q(2) frame_next [OF f2] c2] f1 f2
      show ?thesis by (blast intro: frame_trans)
    qed
  next
    case (BranchObj d cs)
    with run p show ?thesis by (intro trie) (simp add: h_List_append_def)
  next
    case (LeafObj cs occ)
    with run p show ?thesis by (intro trie) (simp add: h_List_append_def)
  next
    case (ListObj r2 o2 s2)
    with run p show ?thesis by (intro trie) (simp add: h_List_append_def)
  next
    case (QueueObj f b s2)
    with run p show ?thesis by (intro trie) (simp add: h_List_append_def)
  qed
qed

lemma h_append_all_frame:
  "h_append_all fuel h l vs = Inr (h', l') \<Longrightarrow> n0 \<le> next_addr h \<Longrightarrow> n0 \<le> l \<Longrightarrow>
   closed_above n0 h \<Longrightarrow> frame n0 h h'"
proof (induction vs arbitrary: h l)
  case Nil
  then show ?case by (simp add: frame_refl)
next
  case (Cons v vs)
  from Cons.prems(1) obtain h1 l1 where
    a: "h_List_append fuel h l v True = Inr (h1, l1)" "h_append_all fuel h1 l1 vs = Inr (h', l')"
    by (auto split: sum.splits)
  from h_List_append_frame [OF a(1) Cons.prems(2)] Cons.prems(3,4)
  have f: "frame n0 h h1" and c: "closed_above n0 h1" "n0 \<le> l1" by simp_all
  from Cons.IH [OF a(2) frame_next [OF f] c(2,1)] f show ?case by (blast intro: frame_trans)
qed

lemma h_NewList_frame:
  assumes run: "h_NewList fuel h vs = Inr (h', l')" and n0: "n0 \<le> next_addr h"
  shows "frame n0 h h'"
proof (cases "int (length vs) > listSliceThreshold")
  case True
  let ?hr = "alloc h (LeafObj (replicate listNodeSize (0::'a)) 0)"
  let ?hl = "alloc (fst ?hr) (ListObj (snd ?hr) 0 0)"
  from run True have a: "h_append_all fuel (fst ?hl) (snd ?hl) vs = Inr (h', l')"
    by (simp add: h_NewList_def Let_def)
  have c: "closed_above (next_addr h) (fst ?hl)"
    by (intro closed_alloc closed_fresh) simp_all
  have "frame (next_addr h) (fst ?hl) h'"
    by (rule h_append_all_frame [OF a _ _ c]) simp_all
  then have f3: "frame n0 (fst ?hl) h'" using n0 by (auto simp: frame_def)
  have "frame n0 h (fst ?hr)" using n0 by (rule frame_alloc)
  moreover from this have "frame n0 (fst ?hr) (fst ?hl)" by (intro frame_alloc frame_next)
  ultimately show ?thesis using f3 by (blast intro: frame_trans)
next
  case False
  let ?hr = "alloc h (SliceObj (copy_at (replicate (length vs) (0::'a)) 0 vs))"
  from run False have h': "h' = fst (alloc (fst ?hr) (ListObj (snd ?hr) 0 (int (length vs))))"
    by (auto simp: h_NewList_def Let_def)
  have "frame n0 h (fst ?hr)" using n0 by (rule frame_alloc)
  moreover from this have "frame n0 (fst ?hr) h'" unfolding h' by (intro frame_alloc frame_next)
  ultimately show ?thesis by (blast intro: frame_trans)
qed



lemma h_prepend_trie_frame:
  assumes run: "h_prepend_trie fuel h l v False = Inr (h', l')" and n0: "n0 \<le> next_addr h"
  shows "frame n0 h h'"
proof -
  from run obtain h1 other r org sz where
    p: "h_other h l False = Inr (h1, other)" "list_at h1 other = Inr (r, org, sz)"
    by (auto simp: h_prepend_trie_def split: sum.splits prod.splits)
  define grown where "grown =
     (if org = 0
      then (case h_depth h1 r of
              Inl e \<Rightarrow> Inl e
            | Inr d \<Rightarrow>
                (let hr = alloc h1 (BranchObj (d + 1)
                            ((replicate listNodeSize None)[listNodeSize - 1 := Some r]))
                 in Inr (hr, org + push_bit ((d + 1) * listNodeBits) (int listNodeSize - 1))))
      else Inr ((h1, r), org))"
  have "h_prepend_trie fuel h l v False =
      (case grown of
         Inl e \<Rightarrow> Inl e
       | Inr (hr, org1) \<Rightarrow>
           (case h_set fuel (store (fst hr) other (ListObj (snd hr) (org1 - 1) (sz + 1)))
                   (snd hr) (org1 - 1) v False of
              Inl e \<Rightarrow> Inl e
            | Inr (h3, r') \<Rightarrow>
                (case set_root h3 other r' of
                   Inl e \<Rightarrow> Inl e
                 | Inr h4 \<Rightarrow> Inr (h4, other))))"
    unfolding grown_def h_prepend_trie_def Let_def using p by simp
  with run obtain hr org1 h3 r' where
    q: "grown = Inr (hr, org1)"
       "h_set fuel (store (fst hr) other (ListObj (snd hr) (org1 - 1) (sz + 1)))
                   (snd hr) (org1 - 1) v False = Inr (h3, r')"
       "set_root h3 other r' = Inr h'"
    by (cases grown) (auto split: sum.splits prod.splits)
  from h_other_frame [OF p(1) n0] have f1: "frame n0 h h1" and o: "n0 \<le> other" by simp_all
  have f2: "frame n0 h1 (fst hr)"
    using q(1) frame_next [OF f1]
    by (auto simp: grown_def Let_def frame_alloc frame_refl split: if_splits sum.splits)
  let ?h2 = "store (fst hr) other (ListObj (snd hr) (org1 - 1) (sz + 1))"
  have f3: "frame n0 (fst hr) ?h2" using frame_next [OF f2] o by (rule frame_store)
  from h_set_frame [OF q(2) frame_next [OF f3]] have f4: "frame n0 ?h2 h3" by simp
  from set_root_frame [OF q(3) frame_next [OF f4] o] have "frame n0 h3 h'" .
  with f1 f2 f3 f4 show ?thesis by (blast intro: frame_trans)
qed

lemma h_List_prepend_frame:
  assumes run: "h_List_prepend fuel h l v False = Inr (h', l')" and n0: "n0 \<le> next_addr h"
  shows "frame n0 h h'"
proof -
  from run obtain r org sz ob where
    p: "list_at h l = Inr (r, org, sz)" "lookup h r = Some ob"
    by (auto simp: h_List_prepend_def split: sum.splits prod.splits option.splits)
  have trie: ?thesis if "h_prepend_trie fuel h l v False = Inr (h', l')"
    using h_prepend_trie_frame [OF that n0] .
  show ?thesis
  proof (cases ob)
    case (SliceObj es)
    show ?thesis
    proof (cases "sz < listSliceThreshold")
      case True
      with run p SliceObj obtain es' where "h_grow_slice h l es' False = Inr (h', l')"
        by (auto simp: h_List_prepend_def Let_def split: if_splits)
      from h_grow_slice_frame [OF this n0] show ?thesis by simp
    next
      case False
      from run p SliceObj False obtain h1 trieRoot where
        q: "h_toTrie h r True = Inr (h1, trieRoot)"
           "h_prepend_trie fuel (fst (alloc h1 (ListObj trieRoot 0 sz)))
              (snd (alloc h1 (ListObj trieRoot 0 sz))) v False = Inr (h', l')"
        by (auto simp: h_List_prepend_def Let_def split: sum.splits prod.splits)
      let ?ht = "alloc h1 (ListObj trieRoot 0 sz)"
      from h_toTrie_frame [OF q(1) n0] have f1: "frame n0 h h1" .
      have f2: "frame n0 h1 (fst ?ht)" using frame_next [OF f1] by (rule frame_alloc)
      from h_prepend_trie_frame [OF q(2) frame_next [OF f2]] f1 f2
      show ?thesis by (blast intro: frame_trans)
    qed
  next
    case (BranchObj d cs)
    with run p show ?thesis by (intro trie) (simp add: h_List_prepend_def)
  next
    case (LeafObj cs occ)
    with run p show ?thesis by (intro trie) (simp add: h_List_prepend_def)
  next
    case (ListObj r2 o2 s2)
    with run p show ?thesis by (intro trie) (simp add: h_List_prepend_def)
  next
    case (QueueObj f b s2)
    with run p show ?thesis by (intro trie) (simp add: h_List_prepend_def)
  qed
qed

lemma h_slice_trie_frame:
  assumes q: "h_other h l False = Inr (h1, other)"
    "h_deleteBefore fuel (store h1 other (ListObj r1 org1 sz1)) r1 org1 False = Inr (h3, r2)"
    "set_root h3 other r2 = Inr h4"
    "h_deleteAfter fuel h4 r2 k False = Inr (h5, r3)"
    "set_root h5 other r3 = Inr h'"
    and n0: "n0 \<le> next_addr h"
  shows "frame n0 h h'"
proof -
  from h_other_frame [OF q(1) n0] have f1: "frame n0 h h1" and o: "n0 \<le> other" by simp_all
  let ?h2 = "store h1 other (ListObj r1 org1 sz1)"
  have f2: "frame n0 h1 ?h2" using frame_next [OF f1] o by (rule frame_store)
  from h_deleteBefore_frame [OF q(2) frame_next [OF f2]] have f3: "frame n0 ?h2 h3" .
  from set_root_frame [OF q(3) frame_next [OF f3] o] have f4: "frame n0 h3 h4" .
  from h_deleteAfter_frame [OF q(4) frame_next [OF f4]] have f5: "frame n0 h4 h5" .
  from set_root_frame [OF q(5) frame_next [OF f5] o] have f6: "frame n0 h5 h'" .
  from f1 f2 f3 f4 f5 f6 show ?thesis by (blast intro: frame_trans)
qed

lemma h_List_slice_frame:
  assumes run: "h_List_slice fuel h l s e False = Inr (h', l')" and n0: "n0 \<le> next_addr h"
  shows "frame n0 h h'"
proof -
  from run obtain r org sz where p: "list_at h l = Inr (r, org, sz)"
    by (auto simp: h_List_slice_def split: sum.splits prod.splits)
  from run p have bounds: "\<not> (s < 0 \<or> s > sz)" "\<not> (e < 0 \<or> e > sz)" "\<not> s > e"
    by (auto simp: h_List_slice_def split: if_splits)
  show ?thesis
  proof (cases "s = 0 \<and> e = sz")
    case True
    with run p bounds n0 show ?thesis by (auto simp: h_List_slice_def frame_refl)
  next
    case False
    from run p bounds False obtain ob where ob: "lookup h r = Some ob"
      by (auto simp: h_List_slice_def split: option.splits)
    show ?thesis
    proof (cases "\<exists>es. ob = SliceObj es")
      case True
      then obtain es where es: "ob = SliceObj es" by blast
      let ?hn = "alloc h (SliceObj (take (nat (e - s)) (drop (nat s) es)))"
      from run p bounds False ob es
      have "h' = fst (alloc (fst ?hn) (ListObj (snd ?hn) 0 (e - s)))"
        by (auto simp: h_List_slice_def Let_def split: if_splits)
      moreover have f1: "frame n0 h (fst ?hn)" using n0 by (rule frame_alloc)
      moreover have "frame n0 (fst ?hn) (fst (alloc (fst ?hn) (ListObj (snd ?hn) 0 (e - s))))"
        using frame_next [OF f1] by (rule frame_alloc)
      ultimately show ?thesis by (blast intro: frame_trans)
    next
      case nsl: False
      have "h_List_slice fuel h l s e False =
         (case h_other h l False of
                       Inl e \<Rightarrow> Inl e
                     | Inr (h1, other) \<Rightarrow>
                    (case h_contract fuel h1 r (org + s) (e - s) of
                       Inl e \<Rightarrow> Inl e
                     | Inr (r1, org1) \<Rightarrow>
                          (case h_deleteBefore fuel (store h1 other (ListObj r1 org1 (e - s))) r1 org1 False of
                               Inl e \<Rightarrow> Inl e
                             | Inr (h3, r2) \<Rightarrow>
                          (case set_root h3 other r2 of
                             Inl e \<Rightarrow> Inl e
                           | Inr h4 \<Rightarrow>
                          (case h_deleteAfter fuel h4 r2 (org1 + (e - s) - 1) False of
                             Inl e \<Rightarrow> Inl e
                           | Inr (h5, r3) \<Rightarrow>
                          (case set_root h5 other r3 of
                             Inl e \<Rightarrow> Inl e
                           | Inr h6 \<Rightarrow> Inr (h6, other)))))))"
        unfolding h_List_slice_def Let_def using p bounds ob nsl
        by (cases ob) (simp_all add: False)
      with run obtain h1 other r1 org1 h3 r2 h4 h5 r3 where
        "h_other h l False = Inr (h1, other)"
        "h_deleteBefore fuel (store h1 other (ListObj r1 org1 (e - s))) r1 org1 False = Inr (h3, r2)"
        "set_root h3 other r2 = Inr h4"
        "h_deleteAfter fuel h4 r2 (org1 + (e - s) - 1) False = Inr (h5, r3)"
        "set_root h5 other r3 = Inr h'"
        by (auto split: sum.splits prod.splits)
      from h_slice_trie_frame [OF this n0] show ?thesis .
    qed
  qed
qed



subsection \<open>Queue operations\<close>

lemma h_reverseList_frame:
  assumes run: "h_reverseList fuel h lo = Inr (h', l')" and n0: "n0 \<le> next_addr h"
  shows "frame n0 h h'"
proof -
  from run obtain vals where "h_NewList fuel h vals = Inr (h', l')"
    by (auto simp: h_reverseList_def split: option.splits sum.splits if_splits)
  from h_NewList_frame [OF this n0] show ?thesis .
qed

lemma h_normalize_frame:
  assumes run: "h_normalize fuel h qo = Inr (h', q')" and n0: "n0 \<le> next_addr h"
  shows "frame n0 h h'"
proof (cases "h' = h")
  case True
  with n0 show ?thesis by (simp add: frame_refl)
next
  case False
  with run obtain b h1 f' h2 b' ob where
    q: "h_reverseList fuel h b = Inr (h1, f')" "h_NewList fuel h1 [] = Inr (h2, b')"
       "h' = fst (alloc h2 ob)"
    by (auto simp: h_normalize_def Let_def split: option.splits sum.splits if_splits prod.splits)
  from h_reverseList_frame [OF q(1) n0] have f1: "frame n0 h h1" .
  from h_NewList_frame [OF q(2) frame_next [OF f1]] have f2: "frame n0 h1 h2" .
  have "frame n0 h2 h'" unfolding q(3) using frame_next [OF f2] by (rule frame_alloc)
  with f1 f2 show ?thesis by (blast intro: frame_trans)
qed

lemma h_Enqueue_frame:
  assumes run: "h_Enqueue fuel h qo v = Inr (h', q')" and n0: "n0 \<le> next_addr h"
  shows "frame n0 h h'"
proof (cases qo)
  case None
  with run obtain h1 f h2 b ob where
    q: "h_NewList fuel h [] = Inr (h1, f)" "h_NewList fuel h1 [v] = Inr (h2, b)"
       "alloc h2 ob = (h', q')"
    by (auto simp: h_Enqueue_def split: sum.splits prod.splits)
  from h_NewList_frame [OF q(1) n0] have f1: "frame n0 h h1" .
  from h_NewList_frame [OF q(2) frame_next [OF f1]] have f2: "frame n0 h1 h2" .
  have "frame n0 h2 h'" using q(3) frame_next [OF f2] by (rule frame_alloc_eq)
  with f1 f2 show ?thesis by (blast intro: frame_trans)
next
  case (Some q)
  with run obtain bl h1 b' ob where
    q: "h_List_prepend fuel h bl v False = Inr (h1, b')" "alloc h1 ob = (h', q')"
    by (auto simp: h_Enqueue_def h_Prepend_def split: sum.splits prod.splits option.splits)
  from h_List_prepend_frame [OF q(1) n0] have f1: "frame n0 h h1" .
  have "frame n0 h1 h'" using q(2) frame_next [OF f1] by (rule frame_alloc_eq)
  with f1 show ?thesis by (blast intro: frame_trans)
qed

lemma h_pop_front_frame:
  assumes run: "h_pop_front fuel h l = Inr (h', nf, v)" and n0: "n0 \<le> next_addr h"
  shows "frame n0 h h'"
proof -
  from run obtain n where "h_List_slice fuel h l 1 n False = Inr (h', nf)"
    by (auto simp: h_pop_front_def h_Slice_def split: sum.splits prod.splits)
  from h_List_slice_frame [OF this n0] show ?thesis .
qed

lemma h_Dequeue_frame:
  assumes run: "h_Dequeue fuel h qo = Inr (h', q', v, ok)" and n0: "n0 \<le> next_addr h"
  shows "frame n0 h h'"
proof (cases "h' = h")
  case True
  with n0 show ?thesis by (simp add: frame_refl)
next
  case False
  with run obtain q f b sz where
    q: "qo = Some q" "queue_at h q = Inr (f, b, sz)" "sz \<noteq> 0"
    by (auto simp: h_Dequeue_def split: option.splits sum.splits if_splits)
  from run q False obtain fne where fne: "h_nonempty h f = Inr fne"
    by (auto simp: h_Dequeue_def split: sum.splits)
  show ?thesis
  proof (cases fne)
    case True
    with run q fne obtain fl h1 newFront ob where
      r: "h_pop_front fuel h fl = Inr (h1, newFront, v)"
         "h_normalize fuel (fst (alloc h1 ob)) (Some (snd (alloc h1 ob))) = Inr (h', q')"
      by (auto simp: h_Dequeue_def Let_def split: option.splits sum.splits prod.splits)
    from h_pop_front_frame [OF r(1) n0] have f1: "frame n0 h h1" .
    have f2: "frame n0 h1 (fst (alloc h1 ob))" using frame_next [OF f1] by (rule frame_alloc)
    from h_normalize_frame [OF r(2) frame_next [OF f2]] f1 f2
    show ?thesis by (blast intro: frame_trans)
  next
    case nf: False
    with run q fne False obtain h1 norm fl h2 newFront ob where
      r: "h_normalize fuel h (Some q) = Inr (h1, Some norm)"
         "h_pop_front fuel h1 fl = Inr (h2, newFront, v)"
         "h' = fst (alloc h2 ob)"
      by (auto simp: h_Dequeue_def Let_def split: option.splits sum.splits prod.splits if_splits)
    from h_normalize_frame [OF r(1) n0] have f1: "frame n0 h h1" .
    from h_pop_front_frame [OF r(2) frame_next [OF f1]] have f2: "frame n0 h1 h2" .
    have "frame n0 h2 h'" unfolding r(3) using frame_next [OF f2] by (rule frame_alloc)
    with f1 f2 show ?thesis by (blast intro: frame_trans)
  qed
qed



subsection \<open>Reading a store whose cells are unchanged\<close>

text \<open>
  \<open>unchanged h h'\<close>: every cell of \<open>h\<close> is a cell of \<open>h'\<close> with the same content.  A
  read that succeeds in \<open>h\<close> visits cells of \<open>h\<close> only, so it gives the same result in
  \<open>h'\<close>.
\<close>

definition unchanged :: "'a heap \<Rightarrow> 'a heap \<Rightarrow> bool" where
  "unchanged h h' = (\<forall>a. case lookup h a of None \<Rightarrow> True | Some ob \<Rightarrow> lookup h' a = Some ob)"

lemma unchanged_lookup: "unchanged h h' \<Longrightarrow> lookup h a = Some ob \<Longrightarrow> lookup h' a = Some ob"
proof -
  assume "unchanged h h'" "lookup h a = Some ob"
  then have "case lookup h a of None \<Rightarrow> True | Some ob \<Rightarrow> lookup h' a = Some ob"
    unfolding unchanged_def by blast
  with \<open>lookup h a = Some ob\<close> show ?thesis by simp
qed

lemma frame_unchanged:
  assumes "frame (next_addr h) h h'"
  shows "unchanged h h'"
  unfolding unchanged_def
proof
  fix a
  show "case lookup h a of None \<Rightarrow> True | Some ob \<Rightarrow> lookup h' a = Some ob"
  proof (cases "lookup h a")
    case None
    then show ?thesis by simp
  next
    case (Some ob)
    then have "a < next_addr h" by (simp add: lookup_def split: if_splits)
    with assms have "lookup h' a = lookup h a" by (simp add: frame_def)
    with Some show ?thesis by simp
  qed
qed

lemma h_get_mono:
  "unchanged h h' \<Longrightarrow> h_get fuel h a i = Inr v \<Longrightarrow> h_get fuel h' a i = Inr v"
proof (induction fuel arbitrary: a)
  case 0
  then show ?case by simp
next
  case (Suc fuel)
  from Suc.prems(2) obtain ob where ob: "lookup h a = Some ob"
    by (auto split: option.splits)
  from unchanged_lookup [OF Suc.prems(1) ob] have ob': "lookup h' a = Some ob" .
  show ?case
  proof (cases ob)
    case (BranchObj d cs)
    with Suc.prems(2) ob obtain c where
      c: "ptr_at cs (slot d i) = Some c" "h_get fuel h c i = Inr v"
      by (auto split: option.splits)
    from Suc.IH [OF Suc.prems(1) c(2)] c(1) ob' BranchObj show ?thesis by simp
  next
    case (LeafObj cs occ)
    with Suc.prems(2) ob ob' show ?thesis by simp
  next
    case (SliceObj es)
    with Suc.prems(2) ob ob' show ?thesis by simp
  next
    case (ListObj r org sz)
    with Suc.prems(2) ob show ?thesis by simp
  next
    case (QueueObj f b sz)
    with Suc.prems(2) ob show ?thesis by simp
  qed
qed

lemma list_at_mono:
  assumes "unchanged h h'" "list_at h l = Inr x"
  shows "list_at h' l = Inr x"
proof -
  obtain r org sz where x: "x = (r, org, sz)" by (cases x)
  with assms(2) have "lookup h l = Some (ListObj r org sz)" by (simp add: list_at_iff)
  from unchanged_lookup [OF assms(1) this] x show ?thesis by (simp add: list_at_iff)
qed

lemma is_slice_at_mono:
  assumes "unchanged h h'" "is_slice_at h a = Inr b"
  shows "is_slice_at h' a = Inr b"
proof -
  from assms(2) obtain ob where ob: "lookup h a = Some ob"
    by (cases "lookup h a") (simp_all add: is_slice_at_def)
  from unchanged_lookup [OF assms(1) ob] ob assms(2) show ?thesis
    by (simp add: is_slice_at_def)
qed

lemma queue_at_iff: "queue_at h q = Inr (f, b, sz) \<longleftrightarrow> lookup h q = Some (QueueObj f b sz)"
  by (auto simp: queue_at_def split: option.splits obj.splits)

lemma queue_at_mono:
  assumes "unchanged h h'" "queue_at h q = Inr x"
  shows "queue_at h' q = Inr x"
proof -
  obtain f b sz where x: "x = (f, b, sz)" by (cases x)
  with assms(2) have "lookup h q = Some (QueueObj f b sz)" by (simp add: queue_at_iff)
  from unchanged_lookup [OF assms(1) this] x show ?thesis by (simp add: queue_at_iff)
qed

lemma h_Len_mono:
  assumes "unchanged h h'" "h_Len h l = Inr n"
  shows "h_Len h' l = Inr n"
proof -
  from assms(2) obtain x where x: "list_at h l = Inr x"
    by (cases "list_at h l") (simp_all add: h_Len_def)
  from list_at_mono [OF assms(1) x] x assms(2) show ?thesis by (simp add: h_Len_def)
qed

lemma h_Get_mono:
  assumes u: "unchanged h h'" and g: "h_Get fuel h l i = Inr v"
  shows "h_Get fuel h' l i = Inr v"
proof -
  from g obtain x where x: "list_at h l = Inr x"
    by (cases "list_at h l") (simp_all add: h_Get_def)
  obtain r org sz where xe: "x = (r, org, sz)" by (cases x)
  from g x xe have bounds: "\<not> (i < 0 \<or> i \<ge> sz)"
    by (simp add: h_Get_def split: if_splits)
  from g x xe bounds obtain b where b: "is_slice_at h r = Inr b"
    by (cases "is_slice_at h r") (simp_all add: h_Get_def)
  from g x xe bounds b have get: "h_get fuel h r (if b then i else org + i) = Inr v"
    by (cases b) (simp_all add: h_Get_def)
  from list_at_mono [OF u x] xe is_slice_at_mono [OF u b] h_get_mono [OF u get] bounds
  show ?thesis by (cases b) (simp_all add: h_Get_def)
qed

lemma h_Queue_Len_mono:
  assumes "unchanged h h'" "h_Queue_Len h qo = Inr n"
  shows "h_Queue_Len h' qo = Inr n"
proof (cases qo)
  case None
  with assms(2) show ?thesis by (simp add: h_Queue_Len_def)
next
  case (Some q)
  with assms(2) obtain x where x: "queue_at h q = Inr x"
    by (cases "queue_at h q") (simp_all add: h_Queue_Len_def)
  from queue_at_mono [OF assms(1) x] x assms(2) Some show ?thesis by (simp add: h_Queue_Len_def)
qed

lemma h_nonempty_mono:
  assumes "unchanged h h'" "h_nonempty h lo = Inr b"
  shows "h_nonempty h' lo = Inr b"
proof (cases lo)
  case None
  with assms(2) show ?thesis by (simp add: h_nonempty_def)
next
  case (Some l)
  with assms(2) obtain n where n: "h_Len h l = Inr n"
    by (cases "h_Len h l") (simp_all add: h_nonempty_def)
  from h_Len_mono [OF assms(1) n] n assms(2) Some show ?thesis by (simp add: h_nonempty_def)
qed




lemma h_Queue_First_mono:
  assumes u: "unchanged h h'" and g: "h_Queue_First h itr = Inr itr'"
  shows "h_Queue_First h' itr = Inr itr'"
proof (cases "qi_q itr")
  case None
  with g show ?thesis by (simp add: h_Queue_First_def)
next
  case (Some q)
  with g obtain x where x: "queue_at h q = Inr x"
    by (cases "queue_at h q") (simp_all add: h_Queue_First_def)
  obtain f b sz where xe: "x = (f, b, sz)" by (cases x)
  note q = x [unfolded xe] and q' = queue_at_mono [OF u x, unfolded xe]
  show ?thesis
  proof (cases "sz = 0")
    case True
    with g Some q q' show ?thesis by (simp add: h_Queue_First_def)
  next
    case False
    with g Some q obtain fne where fne: "h_nonempty h f = Inr fne"
      by (cases "h_nonempty h f") (simp_all add: h_Queue_First_def)
    note fne' = h_nonempty_mono [OF u fne]
    show ?thesis
    proof (cases fne)
      case True
      with g Some q q' False fne fne' show ?thesis by (simp add: h_Queue_First_def)
    next
      case nf: False
      show ?thesis
      proof (cases b)
        case None
        with g Some q q' False fne fne' nf show ?thesis by (simp add: h_Queue_First_def)
      next
        case (Some bl)
        with g \<open>qi_q itr = Some q\<close> q False fne nf obtain n where n: "h_Len h bl = Inr n"
          by (cases "h_Len h bl") (simp_all add: h_Queue_First_def)
        from h_Len_mono [OF u n] g \<open>qi_q itr = Some q\<close> q q' False fne fne' nf Some n
        show ?thesis by (simp add: h_Queue_First_def)
      qed
    qed
  qed
qed

lemma h_Queue_Next_mono:
  assumes u: "unchanged h h'" and g: "h_Queue_Next fuel h itr = Inr res"
  shows "h_Queue_Next fuel h' itr = Inr res"
proof (cases "qi_stage itr = - 1")
  case True
  with g show ?thesis by (simp add: h_Queue_Next_def)
next
  case st: False
  with g obtain q where qq: "qi_q itr = Some q"
    by (cases "qi_q itr") (simp_all add: h_Queue_Next_def)
  with g st obtain x where x: "queue_at h q = Inr x"
    by (cases "queue_at h q") (simp_all add: h_Queue_Next_def)
  obtain f b sz where xe: "x = (f, b, sz)" by (cases x)
  note q = x [unfolded xe] and q' = queue_at_mono [OF u x, unfolded xe]
  show ?thesis
  proof (cases "qi_stage itr = 0")
    case s0: True
    with g st qq q obtain fl where fl: "f = Some fl"
      by (cases f) (simp_all add: h_Queue_Next_def)
    with g st qq q s0 obtain v where v: "h_Get fuel h fl (qi_frontIdx itr) = Inr v"
      by (cases "h_Get fuel h fl (qi_frontIdx itr)") (simp_all add: h_Queue_Next_def)
    with g st qq q s0 fl obtain n where n: "h_Len h fl = Inr n"
      by (cases "h_Len h fl") (simp_all add: h_Queue_Next_def)
    note v' = h_Get_mono [OF u v] and n' = h_Len_mono [OF u n]
    show ?thesis
    proof (cases "qi_frontIdx itr + 1 \<ge> n \<and> b \<noteq> None")
      case False
      with g st qq q q' s0 fl v v' n n' show ?thesis
        by (cases b) (auto simp: h_Queue_Next_def Let_def split: if_splits)
    next
      case True
      then obtain bl where bl: "b = Some bl" by auto
      with g st qq q s0 fl v n True obtain m where m: "h_Len h bl = Inr m"
        by (cases "h_Len h bl") (simp_all add: h_Queue_Next_def Let_def)
      from h_Len_mono [OF u m] g st qq q q' s0 fl v v' n n' True bl m show ?thesis
        by (simp add: h_Queue_Next_def Let_def)
    qed
  next
    case ns0: False
    show ?thesis
    proof (cases "qi_stage itr = 1")
      case s1: True
      with g st qq q ns0 obtain bl where bl: "b = Some bl"
        by (cases b) (simp_all add: h_Queue_Next_def)
      with g st qq q ns0 s1 obtain v where v: "h_Get fuel h bl (qi_backIdx itr) = Inr v"
        by (cases "h_Get fuel h bl (qi_backIdx itr)") (simp_all add: h_Queue_Next_def)
      from h_Get_mono [OF u v] g st qq q q' ns0 s1 bl v show ?thesis
        by (simp add: h_Queue_Next_def Let_def)
    next
      case False
      with g st qq q q' ns0 show ?thesis by (simp add: h_Queue_Next_def)
    qed
  qed
qed

lemma h_Queue_collect_mono:
  "unchanged h h' \<Longrightarrow> h_Queue_collect steps fuel h itr = Inr vs \<Longrightarrow>
   h_Queue_collect steps fuel h' itr = Inr vs"
proof (induction steps arbitrary: itr vs)
  case 0
  then show ?case by simp
next
  case (Suc steps)
  show ?case
  proof (cases "qi_stage itr = - 1")
    case True
    with Suc.prems(2) show ?thesis by simp
  next
    case False
    with Suc.prems(2) obtain res where res: "h_Queue_Next fuel h itr = Inr res"
      by (cases "h_Queue_Next fuel h itr") simp_all
    obtain itr' i v ok where re: "res = (itr', i, v, ok)" by (cases res)
    from Suc.prems(2) False res re obtain ws where
      ws: "h_Queue_collect steps fuel h itr' = Inr ws" "vs = v # ws"
      by (cases "h_Queue_collect steps fuel h itr'") auto
    from h_Queue_Next_mono [OF Suc.prems(1) res] re Suc.IH [OF Suc.prems(1) ws(1)] ws(2) False
    show ?thesis by simp
  qed
qed

lemma h_Queue_values_mono:
  assumes u: "unchanged h h'" and g: "h_Queue_values fuel h qo = Inr vs"
  shows "h_Queue_values fuel h' qo = Inr vs"
proof -
  let ?i = "\<lparr>qi_q = qo, qi_stage = 0, qi_frontIdx = 0, qi_backIdx = 0, qi_index = 0\<rparr>"
  from g obtain itr where itr: "h_Queue_First h ?i = Inr itr"
    by (cases "h_Queue_First h ?i") (simp_all add: h_Queue_values_def)
  with g have "h_Queue_collect fuel fuel h itr = Inr vs" by (simp add: h_Queue_values_def)
  from h_Queue_collect_mono [OF u this] h_Queue_First_mono [OF u itr]
  show ?thesis by (simp add: h_Queue_values_def)
qed


section \<open>Claims\<close>

subsection \<open>C9: ContainsFunc with a nil equality function\<close>

lemma NewList_empty:
  "NewList ([] :: 'a::zero list) = Inr \<lparr>root = listSliceNode [], origin = 0, size_l = 0\<rparr>"
  by (simp add: NewList_def listSliceThreshold_def copy_at_def)

lemma ContainsFunc_nil_nonempty:
  "size_l l \<noteq> 0 \<Longrightarrow> ContainsFunc l v None = Inl AssertionFailure"
  by (simp add: ContainsFunc_def assert_def)

text \<open>
  Claim C9 says that \<open>ContainsFunc(v, eq)\<close> with a nil \<open>eq\<close> panics for every list,
  the empty one included.  The code tests \<open>l.size == 0\<close> before the assertion on
  \<open>equal\<close>: on the empty list built by \<open>NewList()\<close> the call with a nil function
  returns \<open>false\<close> and does not panic.  (On a non-empty list the assertion fails, lemma
  \<open>ContainsFunc_nil_nonempty\<close>.)
\<close>

theorem ContainsFunc_nil_on_empty_list_returns_false:
  "NewList ([] :: int list) = Inr \<lparr>root = listSliceNode [], origin = 0, size_l = 0\<rparr>
   \<and> ContainsFunc \<lparr>root = listSliceNode [], origin = 0, size_l = 0\<rparr> (7 :: int) None = Inr False"
  by (simp add: NewList_empty ContainsFunc_def)

subsection \<open>C2: Get on a list built by NewList\<close>

text \<open>
  Claim C2: for every sequence \<open>S\<close> of any length (slice-backed up to 32 elements,
  trie-backed above) and every index \<open>0 \<le> i < |S|\<close>, \<open>NewList(S...)\<close> returns a list
  on which \<open>Get(i)\<close> returns \<open>S[i]\<close>.
\<close>

theorem NewList_Get:
  "i < length S \<Longrightarrow> \<exists>l. NewList S = Inr l \<and> Get l (int i) = Inr (S ! i)"
proof -
  assume i: "i < length S"
  from NewList_repr [of S] obtain l where "NewList S = Inr l" "repr l S" by blast
  with repr_Get [OF _ i] show ?thesis by blast
qed

theorem NewList_Get_witness:
  "\<exists>l. NewList (map int [0..<40]) = Inr l \<and> Get l 35 = Inr 35"
  using NewList_Get [of 35 "map int [0..<40]"] by simp

subsection \<open>C8: Slice of a list built by NewList\<close>

text \<open>
  Claim C8: for every sequence \<open>S\<close> and bounds \<open>0 \<le> a \<le> b \<le> |S|\<close>,
  \<open>NewList(S...).Slice(a, b)\<close> returns a list of length \<open>b - a\<close> whose element
  \<open>i\<close> is \<open>S[a + i]\<close>, for slice-backed and trie-backed lists alike.
\<close>

theorem Slice_NewList:
  "a \<le> b \<Longrightarrow> b \<le> length S \<Longrightarrow>
   \<exists>l l'. NewList S = Inr l \<and> Slice l (int a) (int b) = Inr l'
     \<and> Len l' = int (b - a) \<and> (\<forall>i < b - a. Get l' (int i) = Inr (S ! (a + i)))"
proof -
  assume a: "a \<le> b" and b: "b \<le> length S"
  from NewList_repr [of S] obtain l where l: "NewList S = Inr l" "repr l S" by blast
  from List_slice_repr [OF l(2) a b, of False] obtain l' where
    l': "Slice l (int a) (int b) = Inr l'" "repr l' (take (b - a) (drop a S))"
    by (auto simp: Slice_def)
  have len: "length (take (b - a) (drop a S)) = b - a" using a b by simp
  have "Get l' (int i) = Inr (S ! (a + i))" if "i < b - a" for i
    using repr_Get [OF l'(2), of i] that len b by simp
  moreover have "Len l' = int (b - a)" using repr_Len [OF l'(2)] len by simp
  ultimately show ?thesis using l l' by blast
qed

theorem Slice_NewList_witness:
  "\<exists>l l'. NewList (map int [0..<40]) = Inr l \<and> Slice l 3 38 = Inr l'
     \<and> Len l' = 35 \<and> Get l' 0 = Inr 3 \<and> Get l' 34 = Inr 37"
proof -
  from Slice_NewList [of 3 38 "map int [0..<40]"] obtain l l' where
    h: "NewList (map int [0..<40]) = Inr l" "Slice l 3 38 = Inr l'" "Len l' = 35"
       "\<forall>i < 35. Get l' (int i) = Inr (map int [0..<40] ! (3 + i))"
    by auto
  have "Get l' 0 = Inr 3" "Get l' 34 = Inr 37"
    using h(4) [rule_format, of 0] h(4) [rule_format, of 34] by simp_all
  with h show ?thesis by blast
qed


subsection \<open>C7: depth of a trie-backed list\<close>

text \<open>The lists reachable through the public List operations.\<close>

inductive reachable :: "'a::zero List \<Rightarrow> bool" where
  reach_new: "NewList vs = Inr l \<Longrightarrow> reachable l"
| reach_append: "reachable l \<Longrightarrow> Append l v = Inr l' \<Longrightarrow> reachable l'"
| reach_prepend: "reachable l \<Longrightarrow> Prepend l v = Inr l' \<Longrightarrow> reachable l'"
| reach_slice: "reachable l \<Longrightarrow> Slice l a b = Inr l' \<Longrightarrow> reachable l'"
| reach_set: "reachable l \<Longrightarrow> Set l i v = Inr l' \<Longrightarrow> reachable l'"

text \<open>The list after 33 calls of \<open>Append\<close> on \<open>NewList()\<close>, and its value.\<close>

definition appended33 :: "error + int List" where
  "appended33 = fold (\<lambda>v r. case r of Inl e \<Rightarrow> Inl e | Inr l \<Rightarrow> Append l v)
                  (map int [0..<33]) (NewList [])"

definition list33 :: "int List" where
  "list33 = \<lparr>root = listBranchNode 1
                ([Some (listLeafNode (map int [0..<32]) (- 1)),
                  Some (listLeafNode (32 # replicate 31 0) 1)] @ replicate 30 None),
             origin = 0, size_l = 33\<rparr>"

lemma List_slice_bounds:
  "List_slice l a b m = Inr l' \<Longrightarrow> 0 \<le> a \<and> a \<le> b \<and> b \<le> size_l l"
  by (auto simp: List_slice_def split: if_splits)

lemma List_set_bounds:
  "List_set l i v m = Inr l' \<Longrightarrow> 0 \<le> i \<and> i < size_l l"
  by (auto simp: List_set_def split: if_splits)

lemma reachable_repr: "reachable l \<Longrightarrow> \<exists>xs. repr l xs"
proof (induction rule: reachable.induct)
  case (reach_new vs l)
  with NewList_repr [of vs] show ?case by auto
next
  case (reach_append l v l')
  then obtain xs where "repr l xs" by blast
  from List_append_repr [OF this, of v False] reach_append.hyps(2) show ?case
    by (auto simp: Append_def)
next
  case (reach_prepend l v l')
  then obtain xs where "repr l xs" by blast
  from List_prepend_repr [OF this, of v False] reach_prepend.hyps(2) show ?case
    by (auto simp: Prepend_def)
next
  case (reach_slice l a b l')
  then obtain xs where xs: "repr l xs" by blast
  from reach_slice.hyps(2) have bd: "0 \<le> a \<and> a \<le> b \<and> b \<le> size_l l"
    by (auto simp: Slice_def dest: List_slice_bounds)
  moreover from xs have "size_l l = int (length xs)" by (simp add: repr_def)
  ultimately have "nat a \<le> nat b" "nat b \<le> length xs" by linarith+
  from List_slice_repr [OF xs this, of False] bd reach_slice.hyps(2) show ?case
    by (auto simp: Slice_def)
next
  case (reach_set l i v l')
  then obtain xs where xs: "repr l xs" by blast
  from reach_set.hyps(2) have bd: "0 \<le> i \<and> i < size_l l"
    by (auto simp: Set_def dest: List_set_bounds)
  moreover from xs have "size_l l = int (length xs)" by (simp add: repr_def)
  ultimately have "nat i < length xs" by linarith
  from List_set_repr [OF xs this, of v False] bd reach_set.hyps(2) show ?case
    by (auto simp: Set_def)
qed

lemma NewList_large_trie:
  assumes "32 < length vs"
  shows "\<exists>l. NewList vs = Inr l \<and> \<not> is_slice (root l)"
proof -
  from append_all_repr [OF repr_empty_leaf, of vs] obtain l' where
    "append_all \<lparr>root = listLeafNode (replicate listNodeSize 0) 0, origin = 0, size_l = 0\<rparr> vs = Inr l'"
    "\<not> is_slice (root l')" by (auto simp: is_slice_def)
  with assms show ?thesis by (simp add: NewList_def listSliceThreshold_def)
qed

text \<open>
  Claim C7 says that for every trie-backed list reachable by Append, Prepend and Slice
  the root depth is the minimum \<open>d\<close> with \<open>32^d \<ge> origin + size\<close>, in particular that
  \<open>32^depth \<ge> origin + size\<close> always holds.  It fails: a root of depth \<open>d\<close> addresses
  \<open>32^(d+1)\<close> slots, and \<open>append\<close> adds a layer only when
  \<open>origin + size \<ge> cap() = 32^depth\<close>.  Appending 33 values one by one to
  \<open>NewList()\<close> yields \<open>list33\<close>: trie-backed, depth 1, origin 0, size 33, and
  \<open>32^1 < 33\<close>.
\<close>

theorem depth_bound_counterexample:
  "appended33 = Inr list33 \<and> \<not> is_slice (root list33)
   \<and> \<not> (32 ^ depth (root list33) \<ge> origin list33 + size_l list33)"
  by code_simp

text \<open>
  Claim C7 as amended: every trie-backed list reachable by NewList, Append, Prepend,
  Slice and Set has a non-negative origin and \<open>origin + size \<le> 32^(depth + 1)\<close>, the
  number of slots below a root of that depth.
\<close>

theorem reachable_trie_capacity:
  "reachable l \<Longrightarrow> \<not> is_slice (root l) \<Longrightarrow>
   0 \<le> origin l \<and> origin l + size_l l \<le> 32 ^ (depth (root l) + 1)"
proof -
  assume "reachable l" and ns: "\<not> is_slice (root l)"
  then obtain xs where "repr l xs" using reachable_repr by blast
  with ns show ?thesis by (simp add: repr_trie)
qed

theorem reachable_trie_capacity_witness:
  "\<exists>l. NewList (map int [0..<40]) = Inr l \<and> \<not> is_slice (root l)
       \<and> 0 \<le> origin l \<and> origin l + size_l l \<le> 32 ^ (depth (root l) + 1)"
proof -
  from NewList_large_trie [of "map int [0..<40]"] obtain l where
    l: "NewList (map int [0..<40]) = Inr l" "\<not> is_slice (root l)" by auto
  from reachable_trie_capacity [OF reach_new [OF l(1)] l(2)] l show ?thesis by blast
qed

subsection \<open>C4: batch map flush into the empty map\<close>

text \<open>
  Stand-ins for the two parameters of \<open>Flush\<close> and the buffer of the spec's example.
\<close>

definition no_set :: "('k, 'v, 'n) Map \<Rightarrow> 'k \<Rightarrow> 'v \<Rightarrow> bool \<Rightarrow> ('k, 'v, 'n) Map" where
  "no_set m k v mutable = m"

definition eq_hasher :: "'k \<Rightarrow> 'k Hasher" where
  "eq_hasher k = \<lparr>Hash = (\<lambda>x. 0), Equal = (=)\<rparr>"

definition example_buffer :: "(int \<times> string) list" where
  "example_buffer = [(1, ''a''), (2, ''b''), (1, ''c'')]"

definition example_builder :: "(int, string, unit) BatchMapBuilder" where
  "example_builder = \<lparr>bm_m = Some (NewMap None), bm_batchSize = 32, bm_buffer = example_buffer\<rparr>"

text \<open>
  Claim C4 says that the entries installed by a flush into the empty map are in
  first-seen key order.  They are not: the code walks the buffer from its end and
  reverses the result ("restore original order of last occurrences"), so the entries
  stand in the order of their last occurrences.  For the buffer
  \<open>(1,a), (2,b), (1,c)\<close> the array node is \<open>(2,b), (1,c)\<close>, while the keys in
  first-seen order are \<open>1, 2\<close>.
\<close>

theorem Flush_first_seen_order_counterexample:
  "BatchMapBuilder_Flush no_set eq_hasher example_builder =
     Inr \<lparr>bm_m = Some \<lparr>m_root = Some (mapArrayNode [(2, ''b''), (1, ''c'')]), m_size = 2,
                       hasher = Some (eq_hasher 2)\<rparr>,
          bm_batchSize = 32, bm_buffer = []\<rparr>
   \<and> first_seen_keys example_buffer = [1, 2]
   \<and> map fst [(2 :: int, ''b''), (1, ''c'')] \<noteq> first_seen_keys example_buffer"
  by (simp add: BatchMapBuilder_Flush_def example_builder_def example_buffer_def NewMap_def
        maxArrayMapSize_def key_eq_def first_seen_keys_def Let_def)

text \<open>
  Further inputs for the amended claim: a hasher of its own that identifies the
  integers of the same parity, with a buffer of three entries, and a buffer of nine
  entries over two keys for a map without hasher.
\<close>

definition parity_hasher :: "int Hasher" where
  "parity_hasher = \<lparr>Hash = (\<lambda>x. 0), Equal = (\<lambda>a b. a mod 2 = b mod 2)\<rparr>"

definition parity_builder :: "(int, string, unit) BatchMapBuilder" where
  "parity_builder = \<lparr>bm_m = Some (NewMap (Some parity_hasher)), bm_batchSize = 32,
                      bm_buffer = [(1, ''a''), (2, ''b''), (3, ''c'')]\<rparr>"

definition repeated_buffer :: "(int \<times> string) list" where
  "repeated_buffer = [(1, ''a''), (2, ''b''), (1, ''c''), (2, ''d''), (1, ''e''), (2, ''f''),
                      (1, ''g''), (2, ''h''), (1, ''i'')]"

definition repeated_builder :: "(int, string, unit) BatchMapBuilder" where
  "repeated_builder = \<lparr>bm_m = Some (NewMap None), bm_batchSize = 32, bm_buffer = repeated_buffer\<rparr>"

lemma equivp_parity: "equivp (key_eq (Some parity_hasher))"
  by (auto intro!: equivpI reflpI sympI transpI simp: key_eq_def parity_hasher_def)

text \<open>
  Claim C4 as amended: when \<open>Flush\<close> runs with a non-empty buffer over an empty map,
  it installs an array node whose entries \<open>es\<close> are the last writes of the buffer,
  \<open>last_writes_by\<close>: every distinct buffered key is represented exactly once, paired
  with the last value written for it (no later buffer entry has that key, and a lookup
  in \<open>es\<close> returns that value); the entries stand in the order of their last
  occurrences in the buffer (the buffer entries at the positions after which the key
  does not occur again, in increasing position); and the size is the number of
  distinct keys.  Keys are compared as the code compares them, with the \<open>Equal\<close> of the
  map's hasher, an equivalence, or with \<open>==\<close> when the map has no hasher; two keys are
  distinct when this comparison tells them apart.  When it tells apart any two
  different buffered keys, this is the statement in terms of equality: the keys of
  \<open>es\<close> are distinct, they are the buffered keys, in the order \<open>remdups\<close> gives (it keeps
  the last occurrence of each key), and the size is the number of buffered keys.

  The statement is about the flushes that the fast path is written for: the buffer
  retains at most \<open>maxArrayMapSize\<close> distinct keys, and it has at most \<open>maxArrayMapSize\<close>
  entries unless the key comparison tells apart any two different buffered keys.
  It does not speak of a flush that retains more keys (claim C5), nor of a buffer of
  more than \<open>maxArrayMapSize\<close> entries in which \<open>Equal\<close> identifies two different keys:
  the loop for such a buffer records the keys seen in a Go map, which compares them by
  \<open>==\<close>, where the loop for a smaller buffer calls \<open>Equal\<close>.
\<close>

theorem Flush_empty_map_last_write_wins:
  assumes "bm_m b = Some m" "m_root m = None" "bm_buffer b \<noteq> []"
    and eqv: "equivp (key_eq (hasher m))"
    and retained: "card (key_class (key_eq (hasher m)) ` fst ` set (bm_buffer b)) \<le> maxArrayMapSize"
    and large: "maxArrayMapSize < length (bm_buffer b) \<longrightarrow>
         (\<forall>e \<in> set (bm_buffer b). \<forall>d \<in> set (bm_buffer b).
             key_eq (hasher m) (fst d) (fst e) \<longrightarrow> fst d = fst e)"
  shows "\<exists>b' m' es. BatchMapBuilder_Flush mset newHasher b = Inr b'
       \<and> bm_m b' = Some m' \<and> bm_buffer b' = []
       \<and> m_root m' = Some (mapArrayNode es)
       \<and> es = last_writes_by (key_eq (hasher m)) (bm_buffer b)
       \<and> length es \<le> maxArrayMapSize
       \<and> distinct (map (\<lambda>e. key_class (key_eq (hasher m)) (fst e)) es)
       \<and> set (map (\<lambda>e. key_class (key_eq (hasher m)) (fst e)) es) =
           key_class (key_eq (hasher m)) ` fst ` set (bm_buffer b)
       \<and> (\<forall>e \<in> set (bm_buffer b). \<exists>d \<in> set es. key_eq (hasher m) (fst d) (fst e))
       \<and> (\<forall>k v. (k, v) \<in> set es \<longrightarrow>
             (\<exists>pre post. bm_buffer b = pre @ (k, v) # post
                  \<and> \<not> list_ex (\<lambda>d. key_eq (hasher m) (fst d) k) post)
             \<and> array_get (key_eq (hasher m)) es k = Some v)
       \<and> es = map (nth (bm_buffer b))
                (filter (\<lambda>i. \<not> list_ex (\<lambda>d. key_eq (hasher m) (fst d) (fst (bm_buffer b ! i)))
                                   (drop (Suc i) (bm_buffer b)))
                   [0..<length (bm_buffer b)])
       \<and> m_size m' = int (length es)
       \<and> m_size m' = int (card (key_class (key_eq (hasher m)) ` fst ` set (bm_buffer b)))
       \<and> ((\<forall>e \<in> set (bm_buffer b). \<forall>d \<in> set (bm_buffer b).
               key_eq (hasher m) (fst d) (fst e) \<longrightarrow> fst d = fst e) \<longrightarrow>
             es = last_writes (bm_buffer b)
             \<and> distinct (map fst es) \<and> set (map fst es) = fst ` set (bm_buffer b)
             \<and> map fst es = remdups (map fst (bm_buffer b))
             \<and> m_size m' = int (card (fst ` set (bm_buffer b))))"
proof -
  let ?eq = "key_eq (hasher m)"
  let ?buf = "bm_buffer b"
  let ?es = "last_writes_by ?eq ?buf"
  let ?agree = "\<forall>e \<in> set ?buf. \<forall>d \<in> set ?buf. ?eq (fst d) (fst e) \<longrightarrow> fst d = fst e"
  from eqv have r: "reflp ?eq" and s: "symp ?eq" and t: "transp ?eq"
    by (auto elim: equivpE)
  have agree: "?es = last_writes ?buf" if "?agree"
  proof (rule last_writes_by_agree)
    show "\<forall>e \<in> set ?buf. \<forall>d \<in> set ?buf. ?eq (fst d) (fst e) = (fst d = fst e)"
      using that reflpD [OF r] by metis
  qed
  have d: "(if length ?buf \<le> maxArrayMapSize
            then rev (scan_last ?eq (rev ?buf) [])
            else rev (scan_seen (rev ?buf) {} [])) = ?es"
  proof (cases "length ?buf \<le> maxArrayMapSize")
    case True
    then show ?thesis by (simp add: scan_last_last_writes_by [OF t])
  next
    case False
    with large have "?agree" by simp
    from agree [OF this] False show ?thesis
      by (simp add: scan_seen_first_new rev_first_new)
  qed
  note run = Flush_empty_root_dedup [OF assms(1,2,3) d, of mset newHasher]
  have sz: "int (length ?es) = int (card (key_class ?eq ` fst ` set ?buf))"
    by (simp add: length_last_writes_by [OF eqv])
  have len: "length ?es \<le> maxArrayMapSize"
    using retained by (simp only: length_last_writes_by [OF eqv])
  have dc: "distinct (map (\<lambda>e. key_class ?eq (fst e)) ?es)"
    by (rule distinct_classes_last_writes_by [OF eqv])
  have sc: "set (map (\<lambda>e. key_class ?eq (fst e)) ?es) = key_class ?eq ` fst ` set ?buf"
    by (rule classes_last_writes_by [OF eqv])
  have cov: "\<forall>e \<in> set ?buf. \<exists>d \<in> set ?es. ?eq (fst d) (fst e)"
    using last_writes_by_covers [OF r t] by blast
  have lw: "\<forall>k v. (k, v) \<in> set ?es \<longrightarrow>
             (\<exists>pre post. ?buf = pre @ (k, v) # post \<and> \<not> list_ex (\<lambda>d. ?eq (fst d) k) post)
             \<and> array_get ?eq ?es k = Some v"
    using last_writes_by_is_last [of _ _ ?eq ?buf] array_get_last_writes_by [OF r s, of _ _ ?buf]
    by blast
  have eqc: "?agree \<longrightarrow>
             ?es = last_writes ?buf
             \<and> distinct (map fst ?es) \<and> set (map fst ?es) = fst ` set ?buf
             \<and> map fst ?es = remdups (map fst ?buf)
             \<and> int (length ?es) = int (card (fst ` set ?buf))"
  proof
    assume a: "?agree"
    have k: "map fst (last_writes ?buf) = remdups (map fst ?buf)" by (rule keys_last_writes)
    have "distinct (map fst (last_writes ?buf))" by (simp add: k)
    moreover have "set (map fst (last_writes ?buf)) = fst ` set ?buf"
      using arg_cong [OF k, of set] by simp
    ultimately show "?es = last_writes ?buf
             \<and> distinct (map fst ?es) \<and> set (map fst ?es) = fst ` set ?buf
             \<and> map fst ?es = remdups (map fst ?buf)
             \<and> int (length ?es) = int (card (fst ` set ?buf))"
      using k by (simp only: agree [OF a] length_last_writes)
  qed
  define m' where "m' = (if hasher m = None \<and> 0 < length ?es
                 then m\<lparr>hasher := Some (newHasher (fst (hd ?es)))\<rparr>
                 else m)
                \<lparr>m_size := int (length ?es), m_root := Some (mapArrayNode ?es)\<rparr>"
  define b' where "b' = b\<lparr>bm_m := Some m', bm_buffer := []\<rparr>"
  have c1: "BatchMapBuilder_Flush mset newHasher b = Inr b'"
    unfolding b'_def m'_def by (rule run)
  have c2: "bm_m b' = Some m'" and c3: "bm_buffer b' = []"
    unfolding b'_def by simp_all
  have c4: "m_root m' = Some (mapArrayNode ?es)" and c5: "m_size m' = int (length ?es)"
    unfolding m'_def by simp_all
  have c6: "m_size m' = int (card (key_class ?eq ` fst ` set ?buf))"
    using c5 sz by (rule trans)
  have c7: "?agree \<longrightarrow>
             ?es = last_writes ?buf
             \<and> distinct (map fst ?es) \<and> set (map fst ?es) = fst ` set ?buf
             \<and> map fst ?es = remdups (map fst ?buf)
             \<and> m_size m' = int (card (fst ` set ?buf))"
    using eqc unfolding c5 .
  have c8: "?es = map (nth ?buf)
                (filter (\<lambda>i. \<not> list_ex (\<lambda>d. ?eq (fst d) (fst (?buf ! i))) (drop (Suc i) ?buf))
                   [0..<length ?buf])"
    by (rule last_writes_by_positions)
  from c1 c2 c3 c4 refl [of ?es] len dc sc cov lw c8 c5 c6 c7
  have "BatchMapBuilder_Flush mset newHasher b = Inr b'
       \<and> bm_m b' = Some m' \<and> bm_buffer b' = []
       \<and> m_root m' = Some (mapArrayNode ?es)
       \<and> ?es = last_writes_by ?eq ?buf
       \<and> length ?es \<le> maxArrayMapSize
       \<and> distinct (map (\<lambda>e. key_class ?eq (fst e)) ?es)
       \<and> set (map (\<lambda>e. key_class ?eq (fst e)) ?es) = key_class ?eq ` fst ` set ?buf
       \<and> (\<forall>e \<in> set ?buf. \<exists>d \<in> set ?es. ?eq (fst d) (fst e))
       \<and> (\<forall>k v. (k, v) \<in> set ?es \<longrightarrow>
             (\<exists>pre post. ?buf = pre @ (k, v) # post
                  \<and> \<not> list_ex (\<lambda>d. ?eq (fst d) k) post)
             \<and> array_get ?eq ?es k = Some v)
       \<and> ?es = map (nth ?buf)
                (filter (\<lambda>i. \<not> list_ex (\<lambda>d. ?eq (fst d) (fst (?buf ! i))) (drop (Suc i) ?buf))
                   [0..<length ?buf])
       \<and> m_size m' = int (length ?es)
       \<and> m_size m' = int (card (key_class ?eq ` fst ` set ?buf))
       \<and> (?agree \<longrightarrow>
             ?es = last_writes ?buf
             \<and> distinct (map fst ?es) \<and> set (map fst ?es) = fst ` set ?buf
             \<and> map fst ?es = remdups (map fst ?buf)
             \<and> m_size m' = int (card (fst ` set ?buf)))"
    by (intro conjI)
  then show ?thesis by (intro exI [of _ b'] exI [of _ m'] exI [of _ ?es])
qed

theorem Flush_empty_map_last_write_wins_witness:
  "(\<exists>b' m' es. BatchMapBuilder_Flush no_set eq_hasher example_builder = Inr b'
       \<and> bm_m b' = Some m' \<and> m_root m' = Some (mapArrayNode es) \<and> m_size m' = 2
       \<and> es = [(2, ''b''), (1, ''c'')]
       \<and> array_get (=) es 1 = Some ''c'' \<and> array_get (=) es 2 = Some ''b'')
   \<and> (\<exists>b' m' es. BatchMapBuilder_Flush no_set eq_hasher parity_builder = Inr b'
       \<and> bm_m b' = Some m' \<and> m_root m' = Some (mapArrayNode es) \<and> m_size m' = 2
       \<and> es = [(2, ''b''), (3, ''c'')]
       \<and> array_get (Equal parity_hasher) es 3 = Some ''c''
       \<and> array_get (Equal parity_hasher) es 2 = Some ''b'')
   \<and> (\<exists>b' m' es. BatchMapBuilder_Flush no_set eq_hasher repeated_builder = Inr b'
       \<and> bm_m b' = Some m' \<and> m_root m' = Some (mapArrayNode es) \<and> m_size m' = 2
       \<and> es = [(2, ''h''), (1, ''i'')]
       \<and> array_get (=) es 1 = Some ''i'' \<and> array_get (=) es 2 = Some ''h'')"
proof (intro conjI)
  let ?m = "NewMap None :: (int, string, unit) Map"
  have e: "equivp (key_eq (hasher ?m))"
    by (simp add: NewMap_def equivp_key_eq_None)
  have keq: "key_eq (hasher ?m) = (=)"
    by (simp add: NewMap_def key_eq_def fun_eq_iff)
  have h: "bm_m example_builder = Some ?m" "m_root ?m = None" "bm_buffer example_builder \<noteq> []"
    by (simp_all add: example_builder_def example_buffer_def NewMap_def)
  have c: "card (key_class (key_eq (hasher ?m)) ` fst ` set (bm_buffer example_builder))
             \<le> maxArrayMapSize"
    unfolding length_last_writes_by [OF e, symmetric]
    by (simp add: keq example_builder_def example_buffer_def maxArrayMapSize_def)
  have l: "maxArrayMapSize < length (bm_buffer example_builder) \<longrightarrow>
         (\<forall>e \<in> set (bm_buffer example_builder). \<forall>d \<in> set (bm_buffer example_builder).
             key_eq (hasher ?m) (fst d) (fst e) \<longrightarrow> fst d = fst e)"
    by (simp add: keq)
  from Flush_empty_map_last_write_wins [OF h e c l, of no_set eq_hasher]
  obtain b' m' es where r: "BatchMapBuilder_Flush no_set eq_hasher example_builder = Inr b'"
    "bm_m b' = Some m'" "m_root m' = Some (mapArrayNode es)"
    "es = last_writes_by (key_eq (hasher ?m)) (bm_buffer example_builder)"
    "m_size m' = int (length es)"
    by (elim exE conjE) (rule that)
  have es: "es = [(2, ''b''), (1, ''c'')]"
    using r(4) by (simp add: keq example_builder_def example_buffer_def)
  show "\<exists>b' m' es. BatchMapBuilder_Flush no_set eq_hasher example_builder = Inr b'
       \<and> bm_m b' = Some m' \<and> m_root m' = Some (mapArrayNode es) \<and> m_size m' = 2
       \<and> es = [(2, ''b''), (1, ''c'')]
       \<and> array_get (=) es 1 = Some ''c'' \<and> array_get (=) es 2 = Some ''b''"
    using r(1,2,3,5) unfolding es
    by (intro exI [of _ b'] exI [of _ m'] exI [of _ "[(2, ''b''), (1, ''c'')]"])
       (simp add: array_get_def)
next
  let ?m = "NewMap (Some parity_hasher) :: (int, string, unit) Map"
  have e: "equivp (key_eq (hasher ?m))"
    by (simp add: NewMap_def equivp_parity)
  have keq: "key_eq (hasher ?m) = (\<lambda>a b. a mod 2 = b mod 2)"
    by (simp add: NewMap_def key_eq_def parity_hasher_def fun_eq_iff)
  have h: "bm_m parity_builder = Some ?m" "m_root ?m = None" "bm_buffer parity_builder \<noteq> []"
    by (simp_all add: parity_builder_def NewMap_def)
  have c: "card (key_class (key_eq (hasher ?m)) ` fst ` set (bm_buffer parity_builder))
             \<le> maxArrayMapSize"
    unfolding length_last_writes_by [OF e, symmetric]
    by (simp add: keq parity_builder_def maxArrayMapSize_def)
  have l: "maxArrayMapSize < length (bm_buffer parity_builder) \<longrightarrow>
         (\<forall>e \<in> set (bm_buffer parity_builder). \<forall>d \<in> set (bm_buffer parity_builder).
             key_eq (hasher ?m) (fst d) (fst e) \<longrightarrow> fst d = fst e)"
    by (simp add: parity_builder_def maxArrayMapSize_def)
  from Flush_empty_map_last_write_wins [OF h e c l, of no_set eq_hasher]
  obtain b' m' es where r: "BatchMapBuilder_Flush no_set eq_hasher parity_builder = Inr b'"
    "bm_m b' = Some m'" "m_root m' = Some (mapArrayNode es)"
    "es = last_writes_by (key_eq (hasher ?m)) (bm_buffer parity_builder)"
    "m_size m' = int (length es)"
    by (elim exE conjE) (rule that)
  have es: "es = [(2, ''b''), (3, ''c'')]"
    using r(4) by (simp add: keq parity_builder_def)
  show "\<exists>b' m' es. BatchMapBuilder_Flush no_set eq_hasher parity_builder = Inr b'
       \<and> bm_m b' = Some m' \<and> m_root m' = Some (mapArrayNode es) \<and> m_size m' = 2
       \<and> es = [(2, ''b''), (3, ''c'')]
       \<and> array_get (Equal parity_hasher) es 3 = Some ''c''
       \<and> array_get (Equal parity_hasher) es 2 = Some ''b''"
    using r(1,2,3,5) unfolding es
    by (intro exI [of _ b'] exI [of _ m'] exI [of _ "[(2, ''b''), (3, ''c'')]"])
       (simp add: array_get_def parity_hasher_def)
next
  let ?m = "NewMap None :: (int, string, unit) Map"
  have e: "equivp (key_eq (hasher ?m))"
    by (simp add: NewMap_def equivp_key_eq_None)
  have keq: "key_eq (hasher ?m) = (=)"
    by (simp add: NewMap_def key_eq_def fun_eq_iff)
  have h: "bm_m repeated_builder = Some ?m" "m_root ?m = None" "bm_buffer repeated_builder \<noteq> []"
    by (simp_all add: repeated_builder_def repeated_buffer_def NewMap_def)
  have c: "card (key_class (key_eq (hasher ?m)) ` fst ` set (bm_buffer repeated_builder))
             \<le> maxArrayMapSize"
    unfolding length_last_writes_by [OF e, symmetric]
    by (simp add: keq repeated_builder_def repeated_buffer_def maxArrayMapSize_def)
  have l: "maxArrayMapSize < length (bm_buffer repeated_builder) \<longrightarrow>
         (\<forall>e \<in> set (bm_buffer repeated_builder). \<forall>d \<in> set (bm_buffer repeated_builder).
             key_eq (hasher ?m) (fst d) (fst e) \<longrightarrow> fst d = fst e)"
    by (simp add: keq)
  from Flush_empty_map_last_write_wins [OF h e c l, of no_set eq_hasher]
  obtain b' m' es where r: "BatchMapBuilder_Flush no_set eq_hasher repeated_builder = Inr b'"
    "bm_m b' = Some m'" "m_root m' = Some (mapArrayNode es)"
    "es = last_writes_by (key_eq (hasher ?m)) (bm_buffer repeated_builder)"
    "m_size m' = int (length es)"
    by (elim exE conjE) (rule that)
  have es: "es = [(2, ''h''), (1, ''i'')]"
    using r(4) by (simp add: keq repeated_builder_def repeated_buffer_def)
  show "\<exists>b' m' es. BatchMapBuilder_Flush no_set eq_hasher repeated_builder = Inr b'
       \<and> bm_m b' = Some m' \<and> m_root m' = Some (mapArrayNode es) \<and> m_size m' = 2
       \<and> es = [(2, ''h''), (1, ''i'')]
       \<and> array_get (=) es 1 = Some ''i'' \<and> array_get (=) es 2 = Some ''h''"
    using r(1,2,3,5) unfolding es
    by (intro exI [of _ b'] exI [of _ m'] exI [of _ "[(2, ''h''), (1, ''i'')]"])
       (simp add: array_get_def)
qed

subsection \<open>C5: size of a map array node\<close>

definition nine_entries :: "(int \<times> int) list" where
  "nine_entries = [(0, 0), (1, 1), (2, 2), (3, 3), (4, 4), (5, 5), (6, 6), (7, 7), (8, 8)]"

text \<open>
  Claim C5 says that an array node never holds more than 8 entries, and that a flush
  into the empty map with more than 8 distinct keys falls back to the per-entry set
  path.  The empty-root branch of \<open>Flush\<close> uses \<open>maxArrayMapSize\<close> only to choose
  between its two deduplication loops and installs the array node whatever its length;
  the array-node branch next to it does test \<open>newCount <= maxArrayMapSize\<close> and falls
  back.  Setting nine distinct keys on a fresh builder and taking the map yields an
  array node of nine entries (\<open>no_set\<close>, the stand-in for the set path, is never called:
  by lemma \<open>Flush_empty_root\<close> the result does not depend on it).
\<close>

theorem Flush_installs_nine_entry_array_node:
  "set_entries no_set eq_hasher (NewBatchMapBuilder None 32) nine_entries =
     Inr \<lparr>bm_m = Some (NewMap None), bm_batchSize = 32, bm_buffer = nine_entries\<rparr>
   \<and> BatchMapBuilder_Map no_set eq_hasher
         \<lparr>bm_m = Some (NewMap None), bm_batchSize = 32, bm_buffer = nine_entries\<rparr> =
     Inr (Some \<lparr>m_root = Some (mapArrayNode nine_entries), m_size = 9,
                hasher = Some (eq_hasher 0)\<rparr>,
          \<lparr>bm_m = None :: (int, int, unit) Map option, bm_batchSize = 32, bm_buffer = []\<rparr>)
   \<and> length nine_entries > maxArrayMapSize"
  by (simp add: BatchMapBuilder_Map_def BatchMapBuilder_Flush_def BatchMapBuilder_Set_def
        NewBatchMapBuilder_def nine_entries_def NewMap_def maxArrayMapSize_def Let_def)

subsection \<open>C6: when a list is slice-backed\<close>

definition sixty_four :: "int list" where
  "sixty_four = map int [0..<64]"

text \<open>
  Claim C6 says that every slice-backed list reachable through the public API and the
  batch list builder has at most 32 elements.  \<open>List.append\<close>, \<open>List.prepend\<close> and
  \<open>NewList\<close> test \<open>listSliceThreshold\<close>; the fast path of
  \<open>BatchListBuilder.Flush\<close> does not: it extends the slice node by the whole buffer.
  A builder with the default batch size that receives 64 values hands over a
  slice-backed list of 64 elements.  (For the List operations alone the bound holds:
  \<open>repr\<close> is invariant, lemma \<open>reachable_repr\<close>.)
\<close>

theorem BatchListBuilder_slice_of_64:
  "NewBatchListBuilder 0 = Inr \<lparr>bl_list = Some \<lparr>root = listSliceNode ([] :: int list), origin = 0, size_l = 0\<rparr>,
                               bl_batchSize = 32, bl_buffer = []\<rparr>
   \<and> AppendSlice \<lparr>bl_list = Some \<lparr>root = listSliceNode [], origin = 0, size_l = 0\<rparr>,
                   bl_batchSize = 32, bl_buffer = []\<rparr> sixty_four =
       Inr \<lparr>bl_list = Some \<lparr>root = listSliceNode sixty_four, origin = 0, size_l = 64\<rparr>,
            bl_batchSize = 32, bl_buffer = []\<rparr>
   \<and> BatchListBuilder_List
         \<lparr>bl_list = Some \<lparr>root = listSliceNode sixty_four, origin = 0, size_l = 64\<rparr>,
          bl_batchSize = 32, bl_buffer = []\<rparr> =
       Inr (Some \<lparr>root = listSliceNode sixty_four, origin = 0, size_l = 64\<rparr>,
            \<lparr>bl_list = None, bl_batchSize = 32, bl_buffer = []\<rparr>)
   \<and> is_slice (listSliceNode sixty_four) \<and> listSliceThreshold < 64"
  by code_simp

subsection \<open>C3: first in, first out\<close>

text \<open>
  A client of the queue is a sequence of operations; \<open>run_ops\<close> runs it and records, for
  every \<open>Dequeue\<close>, the value, the \<open>ok\<close> flag and \<open>Len\<close> before and after. A \<open>Dequeue\<close> on
  an empty queue returns the nil queue, on which the client goes on.
\<close>

datatype 'a qop = Enq 'a | Deq

record 'a dequeued =
  dq_value :: 'a
  dq_ok :: bool
  dq_before :: int
  dq_after :: int

fun run_ops :: "'a::zero Queue option \<Rightarrow> 'a qop list \<Rightarrow> error + ('a Queue option \<times> 'a dequeued list)" where
  "run_ops qo [] = Inr (qo, [])"
| "run_ops qo (Enq v # ops) =
     (case Enqueue qo v of
        Inl e \<Rightarrow> Inl e
      | Inr q' \<Rightarrow> run_ops (Some q') ops)"
| "run_ops qo (Deq # ops) =
     (case Dequeue qo of
        Inl e \<Rightarrow> Inl e
      | Inr (q', v, ok) \<Rightarrow>
          (case run_ops q' ops of
             Inl e \<Rightarrow> Inl e
           | Inr (q'', tr) \<Rightarrow>
               Inr (q'', \<lparr>dq_value = v, dq_ok = ok, dq_before = Queue_Len qo,
                          dq_after = Queue_Len q'\<rparr> # tr)))"

fun enqueued :: "'a qop list \<Rightarrow> 'a list" where
  "enqueued [] = []"
| "enqueued (Enq v # ops) = v # enqueued ops"
| "enqueued (Deq # ops) = enqueued ops"

definition dequeued_values :: "'a dequeued list \<Rightarrow> 'a list" where
  "dequeued_values tr = map dq_value (filter dq_ok tr)"

definition len_steps :: "'a dequeued list \<Rightarrow> bool" where
  "len_steps tr = list_all (\<lambda>d. dq_ok d = (0 < dq_before d) \<and>
                                 (if dq_ok d then dq_after d = dq_before d - 1 else True)) tr"

lemma run_ops_inv:
  "queue_inv qo xs \<Longrightarrow> length xs + length ops < 2 ^ 63 \<Longrightarrow>
   \<exists>q' tr ys. run_ops qo ops = Inr (q', tr) \<and> queue_inv q' ys \<and> length ys \<le> length xs + length ops
      \<and> xs @ enqueued ops = dequeued_values tr @ ys \<and> len_steps tr"
proof (induction ops arbitrary: qo xs)
  case Nil
  then show ?case by (auto simp: dequeued_values_def len_steps_def)
next
  case (Cons op ops)
  show ?case
  proof (cases op)
    case (Enq v)
    from Enqueue_inv [OF Cons.prems(1), of v] obtain q1 where
      e: "Enqueue qo v = Inr q1" "queue_inv (Some q1) (xs @ [v])" by blast
    from Cons.prems(2) have "length (xs @ [v]) + length ops < 2 ^ 63" by simp
    from Cons.IH [OF e(2) this] obtain q' tr ys where
      r: "run_ops (Some q1) ops = Inr (q', tr)" "queue_inv q' ys"
         "length ys \<le> length (xs @ [v]) + length ops"
         "(xs @ [v]) @ enqueued ops = dequeued_values tr @ ys" "len_steps tr" by blast
    have "run_ops qo (op # ops) = Inr (q', tr)" using Enq e(1) r(1) by simp
    moreover have "xs @ enqueued (op # ops) = dequeued_values tr @ ys" using r(4) Enq by simp
    moreover have "length ys \<le> length xs + length (op # ops)" using r(3) by simp
    ultimately show ?thesis using r(2,5) by blast
  next
    case Deq
    show ?thesis
    proof (cases "xs = []")
      case True
      with Cons.prems(1) have d: "Dequeue qo = Inr (None, 0, False)" by (simp add: Dequeue_empty)
      have n: "queue_inv None ([] :: 'a list)" by (simp add: queue_inv_def)
      from Cons.prems(2) have "length ([] :: 'a list) + length ops < 2 ^ 63" by simp
      from Cons.IH [OF n this] obtain q' tr ys where
        r: "run_ops None ops = Inr (q', tr)" "queue_inv q' ys"
           "length ys \<le> length ([] :: 'a list) + length ops"
           "[] @ enqueued ops = dequeued_values tr @ ys" "len_steps tr" by blast
      let ?d = "\<lparr>dq_value = (0::'a), dq_ok = False, dq_before = Queue_Len qo, dq_after = Queue_Len (None :: 'a Queue option)\<rparr>"
      have "run_ops qo (op # ops) = Inr (q', ?d # tr)" using Deq d r(1) by simp
      moreover have "xs @ enqueued (op # ops) = dequeued_values (?d # tr) @ ys"
        using r(4) Deq True by (simp add: dequeued_values_def)
      moreover have "len_steps (?d # tr)"
        using r(5) queue_inv_Len [OF Cons.prems(1)] True by (simp add: len_steps_def)
      moreover have "length ys \<le> length xs + length (op # ops)" using r(3) by simp
      ultimately show ?thesis using r(2) by blast
    next
      case False
      from Cons.prems(2) have "length xs < 2 ^ 63" by simp
      from Dequeue_inv [OF Cons.prems(1) False this] obtain q1 where
        d: "Dequeue qo = Inr (Some q1, hd xs, True)" "queue_inv (Some q1) (tl xs)" by blast
      from Cons.prems(2) have "length (tl xs) + length ops < 2 ^ 63" by simp
      from Cons.IH [OF d(2) this] obtain q' tr ys where
        r: "run_ops (Some q1) ops = Inr (q', tr)" "queue_inv q' ys"
           "length ys \<le> length (tl xs) + length ops"
           "tl xs @ enqueued ops = dequeued_values tr @ ys" "len_steps tr" by blast
      let ?d = "\<lparr>dq_value = hd xs, dq_ok = True, dq_before = Queue_Len qo,
                 dq_after = Queue_Len (Some q1)\<rparr>"
      have "run_ops qo (op # ops) = Inr (q', ?d # tr)" using Deq d r(1) by simp
      moreover have "xs @ enqueued (op # ops) = dequeued_values (?d # tr) @ ys"
      proof -
        have "xs @ enqueued ops = hd xs # (tl xs @ enqueued ops)" using False by simp
        with r(4) Deq show ?thesis by (simp add: dequeued_values_def)
      qed
      moreover have "len_steps (?d # tr)"
        using r(5) queue_inv_Len [OF Cons.prems(1)] queue_inv_Len [OF d(2)] False
        by (cases xs) (simp_all add: len_steps_def)
      moreover have "length ys \<le> length xs + length (op # ops)" using r(3) by simp
      ultimately show ?thesis using r(2) by blast
    qed
  qed
qed

lemma drain_inv:
  "queue_inv qo xs \<Longrightarrow> length xs < 2 ^ 63 \<Longrightarrow>
   \<exists>q' tr. run_ops qo (replicate (length xs) Deq) = Inr (q', tr) \<and> queue_inv q' []
      \<and> map dq_value tr = xs \<and> list_all dq_ok tr \<and> len_steps tr"
proof (induction xs arbitrary: qo)
  case Nil
  then show ?case by (simp add: len_steps_def)
next
  case (Cons x xs)
  from Dequeue_inv [OF Cons.prems(1) _ Cons.prems(2)] obtain q1 where
    d: "Dequeue qo = Inr (Some q1, x, True)" "queue_inv (Some q1) xs" by auto
  from Cons.prems(2) have "length xs < 2 ^ 63" by simp
  from Cons.IH [OF d(2) this] obtain q' tr where
    r: "run_ops (Some q1) (replicate (length xs) Deq) = Inr (q', tr)" "queue_inv q' []"
       "map dq_value tr = xs" "list_all dq_ok tr" "len_steps tr" by blast
  let ?d = "\<lparr>dq_value = x, dq_ok = True, dq_before = Queue_Len qo,
             dq_after = Queue_Len (Some q1)\<rparr>"
  have "run_ops qo (replicate (length (x # xs)) Deq) = Inr (q', ?d # tr)" using d r(1) by simp
  moreover have "len_steps (?d # tr)"
    using r(5) queue_inv_Len [OF Cons.prems(1)] queue_inv_Len [OF d(2)]
    by (simp add: len_steps_def)
  ultimately show ?case using r(2,3,4) by auto
qed

text \<open>
  Claim C3. Start from \<open>NewQueue()\<close>, run any sequence of enqueues and dequeues, then dequeue
  \<open>Len\<close> more times. Every call returns; the values dequeued on the way followed by the values
  of the final drain are exactly the enqueued values, in the order of their enqueue; each of
  the final dequeues reports \<open>ok\<close>; every dequeue reports \<open>ok\<close> exactly when the queue
  was not empty and then makes \<open>Len\<close> one smaller; the queue left over is empty and its
  \<open>Dequeue\<close> reports \<open>ok = false\<close> with a nil queue. Go's \<open>int\<close> is modelled by the
  unbounded integers, so the number of operations is bounded by \<open>2 ^ 63\<close>, the range of a
  64-bit \<open>int\<close> in which \<open>size\<close> lives (the iterator's stack of 32 levels covers it).
\<close>

theorem Queue_FIFO:
  assumes "length ops < 2 ^ 63"
  shows "\<exists>q0 q1 tr1 q2 tr2.
           NewQueue [] = Inr q0 \<and> run_ops (Some q0) ops = Inr (q1, tr1) \<and>
           run_ops q1 (replicate (nat (Queue_Len q1)) Deq) = Inr (q2, tr2) \<and>
           dequeued_values tr1 @ map dq_value tr2 = enqueued ops \<and>
           int (length tr2) = Queue_Len q1 \<and> list_all dq_ok tr2 \<and>
           len_steps (tr1 @ tr2) \<and> Queue_Len q2 = 0 \<and> Dequeue q2 = Inr (None, 0, False)"
proof -
  from NewQueue_empty_inv obtain q0 :: "'a Queue" where
    q0: "NewQueue ([] :: 'a list) = Inr q0" "queue_inv (Some q0) []" by blast
  from assms have "length ([] :: 'a list) + length ops < 2 ^ 63" by simp
  from run_ops_inv [OF q0(2) this] obtain q1 tr1 ys where
    r1: "run_ops (Some q0) ops = Inr (q1, tr1)" "queue_inv q1 ys"
        "length ys \<le> length ([] :: 'a list) + length ops"
        "[] @ enqueued ops = dequeued_values tr1 @ ys" "len_steps tr1" by blast
  from r1(3) assms have "length ys < 2 ^ 63" by simp
  from drain_inv [OF r1(2) this] obtain q2 tr2 where
    r2: "run_ops q1 (replicate (length ys) Deq) = Inr (q2, tr2)" "queue_inv q2 []"
        "map dq_value tr2 = ys" "list_all dq_ok tr2" "len_steps tr2" by blast
  have l1: "Queue_Len q1 = int (length ys)" by (rule queue_inv_Len [OF r1(2)])
  have l2: "Queue_Len q2 = 0" using queue_inv_Len [OF r2(2)] by simp
  have "length tr2 = length ys" using r2(3) by (metis length_map)
  moreover have "len_steps (tr1 @ tr2)" using r1(5) r2(5) by (simp add: len_steps_def)
  moreover have "Dequeue q2 = Inr (None, 0, False)" by (rule Dequeue_empty [OF r2(2)])
  ultimately show ?thesis
    using q0(1) r1(1,4) r2(1,3,4) l1 l2 by auto
qed

theorem Queue_FIFO_witness:
  "length [Enq (1::int), Enq 2, Deq, Enq 3] < 2 ^ 63 \<and>
   (\<exists>q0 q1 tr1 q2 tr2.
           NewQueue [] = Inr q0 \<and> run_ops (Some q0) [Enq (1::int), Enq 2, Deq, Enq 3] = Inr (q1, tr1) \<and>
           run_ops q1 (replicate (nat (Queue_Len q1)) Deq) = Inr (q2, tr2) \<and>
           dequeued_values tr1 @ map dq_value tr2 = [1, 2, 3] \<and>
           int (length tr2) = Queue_Len q1 \<and> list_all dq_ok tr2 \<and>
           len_steps (tr1 @ tr2) \<and> Queue_Len q2 = 0 \<and> Dequeue q2 = Inr (None, 0, False))"
  using Queue_FIFO [of "[Enq (1::int), Enq 2, Deq, Enq 3]"] by simp

subsection \<open>C1: existing collections are never written\<close>

text \<open>
  The six public operations, each on its receiver; the result is the new heap and the
  pointer returned.  \<open>example_heap\<close> holds the list \<open>NewList(10, 20, 30)\<close> at address 1.
\<close>

datatype 'a op =
    OpSet addr int 'a
  | OpAppend addr 'a
  | OpPrepend addr 'a
  | OpSlice addr int int
  | OpEnqueue "addr option" 'a
  | OpDequeue "addr option"

fun h_apply :: "nat \<Rightarrow> 'a::zero heap \<Rightarrow> 'a op \<Rightarrow> error + ('a heap \<times> addr option)" where
  "h_apply fuel h (OpSet l i v) =
     (case h_Set fuel h l i v of Inl e \<Rightarrow> Inl e | Inr (h', l') \<Rightarrow> Inr (h', Some l'))"
| "h_apply fuel h (OpAppend l v) =
     (case h_Append fuel h l v of Inl e \<Rightarrow> Inl e | Inr (h', l') \<Rightarrow> Inr (h', Some l'))"
| "h_apply fuel h (OpPrepend l v) =
     (case h_Prepend fuel h l v of Inl e \<Rightarrow> Inl e | Inr (h', l') \<Rightarrow> Inr (h', Some l'))"
| "h_apply fuel h (OpSlice l s e) =
     (case h_Slice fuel h l s e of Inl e \<Rightarrow> Inl e | Inr (h', l') \<Rightarrow> Inr (h', Some l'))"
| "h_apply fuel h (OpEnqueue q v) =
     (case h_Enqueue fuel h q v of Inl e \<Rightarrow> Inl e | Inr (h', q') \<Rightarrow> Inr (h', Some q'))"
| "h_apply fuel h (OpDequeue q) =
     (case h_Dequeue fuel h q of Inl e \<Rightarrow> Inl e | Inr (h', q', v, ok) \<Rightarrow> Inr (h', q'))"

definition example_heap :: "int heap" where
  "example_heap =
     fst (alloc (fst (alloc empty_heap (SliceObj [10, 20, 30]))) (ListObj 0 0 3))"

lemma h_apply_frame:
  assumes "h_apply fuel h op = Inr (h', res)"
  shows "frame (next_addr h) h h'"
proof (cases op)
  case (OpSet l i v)
  with assms obtain l' where "h_List_set fuel h l i v False = Inr (h', l')"
    by (auto simp: h_Set_def split: sum.splits)
  from h_List_set_frame [OF this le_refl] show ?thesis .
next
  case (OpAppend l v)
  with assms obtain l' where "h_List_append fuel h l v False = Inr (h', l')"
    by (auto simp: h_Append_def split: sum.splits)
  from h_List_append_frame [OF this le_refl] show ?thesis by simp
next
  case (OpPrepend l v)
  with assms obtain l' where "h_List_prepend fuel h l v False = Inr (h', l')"
    by (auto simp: h_Prepend_def split: sum.splits)
  from h_List_prepend_frame [OF this le_refl] show ?thesis .
next
  case (OpSlice l s e)
  with assms obtain l' where "h_List_slice fuel h l s e False = Inr (h', l')"
    by (auto simp: h_Slice_def split: sum.splits)
  from h_List_slice_frame [OF this le_refl] show ?thesis .
next
  case (OpEnqueue q v)
  with assms obtain q' where "h_Enqueue fuel h q v = Inr (h', q')"
    by (auto split: sum.splits)
  from h_Enqueue_frame [OF this le_refl] show ?thesis .
next
  case (OpDequeue q)
  with assms obtain q' v ok where "h_Dequeue fuel h q = Inr (h', q', v, ok)"
    by (auto split: sum.splits)
  from h_Dequeue_frame [OF this le_refl] show ?thesis .
qed

lemma example_heap_cells:
  "lookup example_heap 0 = Some (SliceObj [10, 20, 30])"
  "lookup example_heap (Suc 0) = Some (ListObj 0 0 3)"
  "next_addr example_heap = 2"
  by (simp_all add: example_heap_def lookup_def alloc_def empty_heap_def)

text \<open>
  On the value model, the order in which the queue iterator reports the elements of a
  queue is the order in which \<open>Dequeue\<close> returns them.
\<close>

lemma iterator_order_is_dequeue_order:
  assumes "NewQueue [] = Inr q0" "run_ops (Some q0) ops = Inr (q, tr)" "length ops < 2 ^ 63"
  shows "\<exists>q' tr'. run_ops q (replicate (nat (Queue_Len q)) Deq) = Inr (q', tr') \<and>
           Queue_values (nat (Queue_Len q) + 3) q = Inr (map dq_value tr')"
proof -
  obtain q0' :: "'a Queue" where
    "NewQueue ([] :: 'a list) = Inr q0'" "queue_inv (Some q0') []"
    using NewQueue_empty_inv by blast
  with assms(1) have "queue_inv (Some q0) []" by simp
  moreover from assms(3) have "length ([] :: 'a list) + length ops < 2 ^ 63" by simp
  ultimately obtain q1 tr1 ys where
    r: "run_ops (Some q0) ops = Inr (q1, tr1)" "queue_inv q1 ys"
       "length ys \<le> length ([] :: 'a list) + length ops"
    using run_ops_inv by blast
  with assms(2) have inv: "queue_inv q ys" and le: "length ys \<le> length ops" by simp_all
  from le assms(3) have "length ys < 2 ^ 63" by simp
  from drain_inv [OF inv this] obtain q' tr' where
    d: "run_ops q (replicate (length ys) Deq) = Inr (q', tr')" "map dq_value tr' = ys" by blast
  have "Queue_values (length ys + 3) q = Inr ys" by (rule Queue_values_order [OF inv]) simp
  with d queue_inv_Len [OF inv] show ?thesis by auto
qed

text \<open>
  Claim C1. Whenever \<open>Set\<close>, \<open>Append\<close>, \<open>Prepend\<close>, \<open>Slice\<close>, \<open>Enqueue\<close> or \<open>Dequeue\<close>
  returns, every cell that was allocated before the call has the content it had: the
  operations (which pass \<open>mutable = false\<close>) write only cells they allocated themselves,
  so no node reachable from an existing collection is written through.  Hence every
  observation that reads the store gives after the call what it gave before, for the
  receiver and for every other list or queue: \<open>Len\<close>, \<open>Get\<close> at every index, the length of
  a queue and the order of its elements from front to back as its iterator reports them,
  which is the order in which they are dequeued (\<open>iterator_order_is_dequeue_order\<close>).
\<close>

theorem published_collections_persist:
  assumes "h_apply fuel h op = Inr (h', res)"
  shows "unchanged h h' \<and>
         (\<forall>c n. h_Len h c = Inr n \<longrightarrow> h_Len h' c = Inr n) \<and>
         (\<forall>c f i v. h_Get f h c i = Inr v \<longrightarrow> h_Get f h' c i = Inr v) \<and>
         (\<forall>q n. h_Queue_Len h q = Inr n \<longrightarrow> h_Queue_Len h' q = Inr n) \<and>
         (\<forall>q f vs. h_Queue_values f h q = Inr vs \<longrightarrow> h_Queue_values f h' q = Inr vs)"
proof -
  from h_apply_frame [OF assms] have u: "unchanged h h'" by (rule frame_unchanged)
  then show ?thesis
    using h_Len_mono [OF u] h_Get_mono [OF u] h_Queue_Len_mono [OF u] h_Queue_values_mono [OF u]
    by blast
qed

theorem published_collections_persist_witness:
  "\<exists>h' res. h_apply 2 example_heap (OpSet 1 2 99) = Inr (h', res) \<and>
      unchanged example_heap h' \<and> h_Len example_heap 1 = Inr 3 \<and> h_Len h' 1 = Inr 3 \<and>
      h_Get 2 example_heap 1 2 = Inr 30 \<and> h_Get 2 h' 1 2 = Inr 30"
proof -
  have "\<exists>x. h_apply 2 example_heap (OpSet 1 2 99) = Inr x"
    by (simp add: h_Set_def h_List_set_def list_at_def is_slice_at_def example_heap_def
          set_root_def h_other_def Let_def numeral_2_eq_2
          lookup_def alloc_def store_def empty_heap_def)
  then obtain h' res where r: "h_apply 2 example_heap (OpSet 1 2 99) = Inr (h', res)" by force
  have l: "h_Len example_heap 1 = Inr 3"
    by (simp add: h_Len_def list_at_def example_heap_cells)
  have g: "h_Get 2 example_heap 1 2 = Inr 30"
    by (simp add: h_Get_def list_at_def is_slice_at_def example_heap_cells numeral_2_eq_2)
  from published_collections_persist [OF r] l g r show ?thesis by blast
qed

subsection \<open>C10: slicing the whole range\<close>

text \<open>
  Claim C10. For a list of length \<open>n\<close> (never negative for a list built by the
  library), \<open>Slice(0, n)\<close> returns the receiver's own address and leaves the store as it
  is, whatever the fuel; so does the internal \<open>slice\<close> with either value of \<open>mutable\<close>.
\<close>

theorem Slice_whole_range_same_instance:
  assumes "h_Len h l = Inr n" "0 \<le> n"
  shows "h_Slice fuel h l 0 n = Inr (h, l) \<and> h_List_slice fuel h l 0 n mutable = Inr (h, l)"
proof -
  from assms(1) obtain r org where "list_at h l = Inr (r, org, n)"
    by (auto simp: h_Len_def split: sum.splits)
  with assms(2) show ?thesis by (simp add: h_Slice_def h_List_slice_def)
qed

theorem Slice_whole_range_same_instance_witness:
  "h_Len example_heap 1 = Inr 3 \<and> (0::int) \<le> 3 \<and>
   h_Slice 1 example_heap 1 0 3 = Inr (example_heap, 1) \<and>
   h_List_slice 1 example_heap 1 0 3 True = Inr (example_heap, 1)"
  using Slice_whole_range_same_instance [of example_heap 1 3 1 True]
  by (simp add: h_Len_def list_at_def example_heap_cells)

end
